(* ===== verification/Inn_Prelude.thy ===== *)
theory Inn_Prelude
  imports Main "HOL-Library.Word" "HOL-Library.Char_ord"
begin

text \<open>
  Shared vocabulary of the development.

  A C string is modelled by the list of its bytes up to, and without, the terminating nul; a
  pointer into a string is the suffix it points at. \<open>peek\<close> reads the byte a pointer points
  at, nul included. The character predicates are those of \<^verbatim>\<open><ctype.h>\<close> in the C locale,
  \<open>iswhite\<close> is the \<^verbatim>\<open>ISWHITE\<close> macro of \<^verbatim>\<open>inn/libinn.h\<close>.
  The decimal printer and the \<^verbatim>\<open>strtoul\<close> reader are used by every textual format of the
  server (history lines, message identifiers, dates).
\<close>

named_theorems ctype "the C-locale character classes, as conditions on the byte value"
named_theorems inv_intros "operations preserve their component's invariant"

type_synonym u8 = "8 word"
type_synonym u32 = "32 word"
type_synonym u64 = "64 word"

abbreviation NUL :: char where "NUL \<equiv> CHR 0x00"
abbreviation HT :: char where "HT \<equiv> CHR 0x09"
abbreviation LF :: char where "LF \<equiv> CHR 0x0A"
abbreviation CR :: char where "CR \<equiv> CHR 0x0D"
abbreviation SP :: char where "SP \<equiv> CHR '' ''"
abbreviation DQUOTE :: char where "DQUOTE \<equiv> CHR 0x22"
abbreviation BACKSLASH :: char where "BACKSLASH \<equiv> CHR 0x5C"

text \<open>The largest \<^verbatim>\<open>size_t\<close>, of 64 bits.\<close>

definition SIZE_MAX :: nat where "SIZE_MAX = 2 ^ 64 - 1"

subsection \<open>Bytes and character classes\<close>

definition byte :: "char \<Rightarrow> nat" where
  "byte c = of_char c"

definition peek :: "string \<Rightarrow> char" where
  "peek s = (case s of [] \<Rightarrow> NUL | c # _ \<Rightarrow> c)"

definition isdigit :: "char \<Rightarrow> bool" where
  "isdigit c \<longleftrightarrow> 48 \<le> byte c \<and> byte c \<le> 57"

definition isupper :: "char \<Rightarrow> bool" where
  "isupper c \<longleftrightarrow> 65 \<le> byte c \<and> byte c \<le> 90"

definition islower :: "char \<Rightarrow> bool" where
  "islower c \<longleftrightarrow> 97 \<le> byte c \<and> byte c \<le> 122"

definition isalpha :: "char \<Rightarrow> bool" where
  "isalpha c \<longleftrightarrow> isupper c \<or> islower c"

definition isxdigit :: "char \<Rightarrow> bool" where
  "isxdigit c \<longleftrightarrow>
     isdigit c \<or> (65 \<le> byte c \<and> byte c \<le> 70) \<or> (97 \<le> byte c \<and> byte c \<le> 102)"

definition isgraph :: "char \<Rightarrow> bool" where
  "isgraph c \<longleftrightarrow> 33 \<le> byte c \<and> byte c \<le> 126"

definition isprint :: "char \<Rightarrow> bool" where
  "isprint c \<longleftrightarrow> 32 \<le> byte c \<and> byte c \<le> 126"

definition iswhite :: "char \<Rightarrow> bool" where
  "iswhite c \<longleftrightarrow> c = SP \<or> c = HT"

definition tolower :: "char \<Rightarrow> char" where
  "tolower c = (if isupper c then char_of (byte c + 32) else c)"

definition toupper :: "char \<Rightarrow> char" where
  "toupper c = (if islower c then char_of (byte c - 32) else c)"

lemmas ctype_defs [ctype] = isdigit_def isupper_def islower_def isalpha_def isxdigit_def
  isgraph_def isprint_def iswhite_def

lemma peek_simps [simp]: "peek [] = NUL" "peek (c # s) = c"
  by (simp_all add: peek_def)

lemma byte_less [simp]: "byte c < 256"
  by (simp add: byte_def)

lemma byte_inject [simp]: "byte c = byte d \<longleftrightarrow> c = d"
  by (simp add: byte_def)

lemma byte_char_of [simp]: "n < 256 \<Longrightarrow> byte (char_of n) = n"
  by (simp add: byte_def)

lemma char_of_byte [simp]: "char_of (byte c) = c"
  by (simp add: byte_def)

lemma byte_char [simp]: "byte (Char b0 b1 b2 b3 b4 b5 b6 b7) =
   horner_sum of_bool 2 [b0, b1, b2, b3, b4, b5, b6, b7]"
  by (simp add: byte_def)

lemma NUL_classes [simp]:
  "\<not> isdigit NUL" "\<not> isupper NUL" "\<not> islower NUL" "\<not> isalpha NUL" "\<not> isxdigit NUL"
  "\<not> isgraph NUL" "\<not> isprint NUL" "\<not> iswhite NUL"
  by (simp_all add: ctype)

lemma tolower_idem [simp]: "tolower (tolower c) = tolower c"
proof (cases "isupper c")
  case True
  then have "byte (char_of (byte c + 32)) = byte c + 32"
    by (intro byte_char_of) (simp add: isupper_def)
  with True show ?thesis by (simp add: tolower_def isupper_def)
qed (simp add: tolower_def)

lemma tolower_islower: "islower c \<Longrightarrow> tolower c = c"
  by (simp add: tolower_def ctype)

lemma nul_free_peek: "NUL \<notin> set s \<Longrightarrow> peek s = NUL \<longleftrightarrow> s = []"
  by (cases s) auto

subsection \<open>Cutting a string at a character\<close>

lemma take_until [simp]: "x \<notin> set a \<Longrightarrow> takeWhile (\<lambda>c. c \<noteq> x) (a @ x # r) = a"
  by (induction a) auto

lemma drop_until [simp]: "x \<notin> set a \<Longrightarrow> dropWhile (\<lambda>c. c \<noteq> x) (a @ x # r) = x # r"
  by (induction a) auto

lemma until_none [simp]:
  "x \<notin> set a \<Longrightarrow> takeWhile (\<lambda>c. c \<noteq> x) a = a" "x \<notin> set a \<Longrightarrow> dropWhile (\<lambda>c. c \<noteq> x) a = []"
  by (induction a) auto

lemma cut_at: "x \<in> set s \<Longrightarrow>
    s = takeWhile (\<lambda>c. c \<noteq> x) s @ x # tl (dropWhile (\<lambda>c. c \<noteq> x) s)
    \<and> dropWhile (\<lambda>c. c \<noteq> x) s = x # tl (dropWhile (\<lambda>c. c \<noteq> x) s)"
  by (induction s) auto

subsection \<open>Decimal numbers\<close>

text \<open>\<open>show_nat\<close> is the output of \<^verbatim>\<open>%lu\<close>; \<open>dec_value\<close> is the value
  \<^verbatim>\<open>strtoul\<close> computes from the digits it consumes, before any range check.\<close>

fun show_nat :: "nat \<Rightarrow> string" where
  "show_nat n = (if n < 10 then [char_of (48 + n)]
                 else show_nat (n div 10) @ [char_of (48 + n mod 10)])"

declare show_nat.simps [simp del]

definition digit_value :: "char \<Rightarrow> nat" where
  "digit_value c = byte c - 48"

definition dec_value :: "string \<Rightarrow> nat" where
  "dec_value s = foldl (\<lambda>v c. 10 * v + digit_value c) 0 s"

lemma dec_value_simps [simp]:
  "dec_value [] = 0" "dec_value (s @ [c]) = 10 * dec_value s + digit_value c"
  by (simp_all add: dec_value_def)

lemma digit_char [simp]:
  assumes "n < 10"
  shows "isdigit (char_of (48 + n))" "digit_value (char_of (48 + n)) = n"
proof -
  have "byte (char_of (48 + n)) = 48 + n" using assms by (intro byte_char_of) simp
  with assms show "isdigit (char_of (48 + n))" "digit_value (char_of (48 + n)) = n"
    by (simp_all only: isdigit_def digit_value_def) simp
qed

lemma show_nat_facts:
  "dec_value (show_nat n) = n" "c \<in> set (show_nat n) \<Longrightarrow> isdigit c" "show_nat n \<noteq> []"
proof -
  show "dec_value (show_nat n) = n"
  proof (induction n rule: show_nat.induct)
    case (1 n)
    then show ?case
      using dec_value_simps(2) [of "[]"] by (subst show_nat.simps) simp
  qed
  show "c \<in> set (show_nat n) \<Longrightarrow> isdigit c"
  proof (induction n rule: show_nat.induct)
    case (1 n)
    then show ?case by (subst (asm) show_nat.simps) (auto split: if_splits)
  qed
  show "show_nat n \<noteq> []" by (subst show_nat.simps) simp
qed

lemma length_show_nat: "n < 10 ^ Suc k \<Longrightarrow> length (show_nat n) \<le> Suc k"
proof (induction k arbitrary: n)
  case (Suc k)
  then have "n div 10 < 10 ^ Suc k" by simp
  with Suc.IH show ?case by (subst show_nat.simps) simp
qed (subst show_nat.simps, simp)

lemma takeWhile_show_nat:
  "\<not> isdigit (peek r) \<Longrightarrow> takeWhile isdigit (show_nat n @ r) = show_nat n"
  "\<not> isdigit (peek r) \<Longrightarrow> dropWhile isdigit (show_nat n @ r) = r"
  using show_nat_facts(2) [of _ n]
  by (cases r; simp add: takeWhile_append2 dropWhile_append2)+

lemma isdigit_bounds: "isdigit c \<Longrightarrow> digit_value c \<le> 9"
  by (auto simp: isdigit_def digit_value_def)

lemma dec_value_bound: "\<forall>c \<in> set s. isdigit c \<Longrightarrow> dec_value s < 10 ^ length s"
proof (induction s rule: rev_induct)
  case (snoc c s)
  then show ?case using isdigit_bounds [of c] by simp
qed simp

end
