(* ===== verification/Wildmat.thy ===== *)
theory Wildmat
  imports Inn_Prelude
begin

text \<open>
  The wildmat matcher of \<^verbatim>\<open>lib/uwildmat.c\<close>.

  A pointer into the text or into a pattern is a suffix of the string; a pair of pointers
  \<open>start\<close>, \<open>end\<close> (the last octet, inclusive) is a suffix together with the number of octets
  from \<open>start\<close> to \<open>end\<close>, so that \<open>p \<le> end\<close> reads \<open>0 < n\<close>. The octets behind \<open>end\<close>
  stay in the suffix because the code may look at them.
  The second half gives the patterns a declarative meaning (a list of pattern elements and the
  texts they match) and proves that the backtracking matcher, with its ABORT short cut and its
  literal scan, decides it.
\<close>

unbundle bit_operations_syntax

subsection \<open>UTF-8 octets\<close>

definition isutf8 :: "char \<Rightarrow> bool" where
  "isutf8 c \<longleftrightarrow> byte c AND 0xC0 = 0xC0"

definition iscont :: "char \<Rightarrow> bool" where
  "iscont c \<longleftrightarrow> byte c AND 0xC0 = 0x80"

text \<open>The loop that counts the leading one bits of an octet, from the given mask down.\<close>

fun lead_ones :: "nat \<Rightarrow> nat \<Rightarrow> nat" where
  "lead_ones m b =
     (if 0 < m \<and> b AND m = m then Suc (lead_ones (m div 2) b) else 0)"

declare lead_ones.simps [simp del]

text \<open>\<open>for (p = start + 1; left > 0 && (*p & 0xc0) == 0x80; p++) left--;\<close>\<close>

fun skip_cont :: "nat \<Rightarrow> string \<Rightarrow> nat \<times> string" where
  "skip_cont 0 s = (0, s)"
| "skip_cont (Suc left) [] = (Suc left, [])"
| "skip_cont (Suc left) (c # s) =
     (if iscont c then skip_cont left s else (Suc left, c # s))"

text \<open>
  The second argument of the C function is \<open>end\<close>, NULL or the last octet: here the number of
  octets up to it.
\<close>

definition utf8_length :: "string \<Rightarrow> nat option \<Rightarrow> nat" where
  "utf8_length start limit =
     (let len = lead_ones 0x80 (byte (peek start)) in
      if len < 2 \<or> len > 6 then 1
      else if (case limit of None \<Rightarrow> False | Some n \<Rightarrow> n < len) then 1
      else let left = fst (skip_cont (len - 1) (tl start)) in
        if left = 0 then len else 1)"

lemma length_skip_cont: "length (snd (skip_cont k s)) \<le> length s"
  by (induction k s rule: skip_cont.induct) auto

function is_valid_utf8 :: "string \<Rightarrow> bool" where
  "is_valid_utf8 p =
     (case p of [] \<Rightarrow> True
      | c # p' \<Rightarrow>
        let len = lead_ones 0x80 (byte c) in
        if len = 0 then
          (if isprint c \<or> c = CR \<or> c = LF \<or> c = HT then is_valid_utf8 p' else False)
        else if len < 2 \<or> len > 6 then False
        else (case skip_cont (len - 1) p' of (left, p'') \<Rightarrow>
          if left > 0 then False else is_valid_utf8 p''))"
  by pat_completeness auto
termination
  by (relation "measure length") (auto, metis length_skip_cont le_imp_less_Suc snd_conv)

declare is_valid_utf8.simps [simp del]

fun utf8_value :: "nat \<Rightarrow> string \<Rightarrow> u32 \<Rightarrow> u32" where
  "utf8_value 0 p v = v"
| "utf8_value (Suc i) p v =
     utf8_value i (tl p) (push_bit 6 v OR (of_nat (byte (peek p)) AND 0x3F))"

definition utf8_decode :: "string \<Rightarrow> nat option \<Rightarrow> u32 \<times> nat" where
  "utf8_decode start limit =
     (let len = utf8_length start limit in
      if len < 2 then (of_nat (byte (peek start)), 1)
      else let msk = (2 ^ (7 - len) - 1 :: nat) in
        (utf8_value (len - 1) (tl start) (of_nat (byte (peek start) AND msk)), len))"

lemma utf8_length_pos [simp]: "0 < utf8_length s l"
  by (auto simp: utf8_length_def Let_def)

lemma snd_utf8_decode: "snd (utf8_decode s l) = utf8_length s l"
  using utf8_length_pos [of s l] by (auto simp: utf8_decode_def Let_def simp del: utf8_length_pos)

lemma snd_utf8_decode_pos [simp]: "0 < snd (utf8_decode s l)"
  by (simp add: snd_utf8_decode)

subsection \<open>Character classes\<close>

function match_class_loop :: "u32 \<Rightarrow> bool \<Rightarrow> bool \<Rightarrow> u32 \<Rightarrow> string \<Rightarrow> nat \<Rightarrow> bool" where
  "match_class_loop text reversed allowrange first p n =
     (if n = 0 then reversed
      else if allowrange \<and> peek p = CHR ''-'' \<and> 1 < n then
        (case utf8_decode (tl p) (Some (n - 1)) of (hi, k) \<Rightarrow>
          if first \<le> text \<and> text \<le> hi then \<not> reversed
          else match_class_loop text reversed False first (drop k (tl p)) (n - 1 - k))
      else
        (case utf8_decode p (Some n) of (first', k) \<Rightarrow>
          if text = first' then \<not> reversed
          else match_class_loop text reversed True first' (drop k p) (n - k)))"
  by pat_completeness auto
termination
proof (relation "measure (\<lambda>(text, reversed, allowrange, first, p, n). n)", goal_cases)
  case (2 tx reversed allowrange first p n a b)
  then show ?case by simp
next
  case (3 tx reversed allowrange first p n a b)
  then have "0 < b" by (metis snd_conv snd_utf8_decode_pos)
  with 3 show ?case by simp
qed simp_all

declare match_class_loop.simps [simp del]

definition match_class :: "u32 \<Rightarrow> string \<Rightarrow> nat \<Rightarrow> bool" where
  "match_class text start n =
     (let reversed = (peek start = CHR ''^'');
          p = (if reversed then tl start else start);
          m = (if reversed then n - 1 else n)
      in match_class_loop text reversed False 0 p m)"

subsection \<open>Matching one pattern\<close>

datatype mres = ABORT | MFalse | MTrue

text \<open>How far \<open>?\<close> and the star advance in the text: \<open>ISUTF8(*text) ? utf8_length(text, NULL) : 1\<close>.\<close>

definition width :: "string \<Rightarrow> nat" where
  "width t = (if isutf8 (peek t) then utf8_length t None else 1)"

lemma width_pos [simp]: "0 < width t"
  by (simp add: width_def)

text \<open>\<open>memchr(q, c, m)\<close>, as the index of the octet found.\<close>

definition memchr_idx :: "string \<Rightarrow> char \<Rightarrow> nat \<Rightarrow> nat option" where
  "memchr_idx q c m =
     (let pre = takeWhile (\<lambda>x. x \<noteq> c) (take m q) in
      if length pre < length (take m q) then Some (length pre) else None)"

text \<open>\<open>while (*text && *text != *p) text += width;\<close>\<close>

function scan_lit :: "char \<Rightarrow> string \<Rightarrow> string" where
  "scan_lit c t = (if t = [] \<or> peek t = c then t else scan_lit c (drop (width t) t))"
  by pat_completeness auto
termination by (relation "measure (\<lambda>(c, t). length t)") auto

declare scan_lit.simps [simp del]

lemma length_scan_lit: "length (scan_lit c t) \<le> length t"
proof (induction c t rule: scan_lit.induct)
  case (1 c t)
  show ?case
  proof (cases "t = [] \<or> peek t = c")
    case True then show ?thesis by (simp add: scan_lit.simps [of c t])
  next
    case False
    with 1 have "length (scan_lit c (drop (width t) t)) \<le> length t - width t" by simp
    with False show ?thesis by (simp add: scan_lit.simps [of c t])
  qed
qed

definition ismeta :: "char \<Rightarrow> bool" where
  "ismeta c \<longleftrightarrow> c = CHR ''['' \<or> c = CHR ''?'' \<or> c = BACKSLASH"

text \<open>\<open>for (++p; *p == '*'; p++);\<close> as the number of octets stepped over.\<close>

definition stars :: "string \<Rightarrow> nat" where
  "stars p = Suc (length (takeWhile (\<lambda>x. x = CHR ''*'') (tl p)))"

text \<open>
  \<open>match_pattern\<close> and the loop of its \<open>'*'\<close> case. Only the branches that step over octets are
  written as calls; \<open>return ABORT\<close>, \<open>return false\<close> and \<open>return true\<close> are the values.
\<close>

function match_pattern :: "string \<Rightarrow> string \<Rightarrow> nat \<Rightarrow> mres"
  and star_loop :: "string \<Rightarrow> string \<Rightarrow> nat \<Rightarrow> mres" where
  "match_pattern t p n =
     (if n = 0 then (if t = [] then MTrue else MFalse)
      else if t = [] \<and> peek p \<noteq> CHR ''*'' then ABORT
      else if peek p = BACKSLASH then
        (if peek (tl p) = NUL then ABORT
         else if peek t \<noteq> peek (tl p) then MFalse
         else match_pattern (tl t) (drop 2 p) (n - 2))
      else if peek p = CHR ''?'' then match_pattern (drop (width t) t) (tl p) (n - 1)
      else if peek p = CHR ''*'' then
        (if n \<le> stars p then MTrue
         else star_loop t (drop (stars p) p) (n - stars p))
      else if peek p = CHR ''['' then
        (let k = (if peek (tl p) = CHR ''^'' then 2 else 1) in
         if n - 1 \<le> k then ABORT
         else case memchr_idx (drop k (tl p)) CHR '']'' (n - 1 - k) of
           None \<Rightarrow> ABORT
         | Some i \<Rightarrow>
             (case utf8_decode t None of (c, len) \<Rightarrow>
               if \<not> match_class c (tl p) (k + i) then MFalse
               else match_pattern (drop len t) (drop (k + i + 2) p) (n - (k + i + 2))))
      else if peek t \<noteq> peek p then MFalse
      else match_pattern (tl t) (tl p) (n - 1))"
| "star_loop t p n =
     (if t = [] then ABORT
      else if ismeta (peek p) then
        (let r = match_pattern t p n in
         if r \<noteq> MFalse then r else star_loop (drop (width t) t) p n)
      else
        (let t' = scan_lit (peek p) t in
         if t' = [] then ABORT
         else let r = match_pattern (tl t') (tl p) (n - 1) in
           if r \<noteq> MFalse then r else star_loop (tl t') p n))"
  by pat_completeness auto

lemma scan_lit_peek: "scan_lit c t \<noteq> [] \<Longrightarrow> peek (scan_lit c t) = c"
  by (induction c t rule: scan_lit.induct) (metis scan_lit.simps)

lemma scan_lit_less: "scan_lit c t \<noteq> [] \<Longrightarrow> length (scan_lit c t) - Suc 0 < length t"
  using length_scan_lit [of c t] by (cases "scan_lit c t") auto

termination match_pattern
  by (relation "inv_image (less_than <*lex*> less_than <*lex*> less_than)
       (\<lambda>x. case x of Inl (t, p, n) \<Rightarrow> (n, length t, 0 :: nat)
                    | Inr (t, p, n) \<Rightarrow> (n, length t, 1))")
    (auto simp: stars_def scan_lit_less split: if_splits)

declare match_pattern.simps [simp del] star_loop.simps [simp del]


subsection \<open>Wildmat expressions\<close>

text \<open>
  The search for the comma that ends a pattern: the number of octets from \<open>p\<close> to \<open>split\<close>.
  A bracket that is never closed carries \<open>split\<close> one past the terminating nul, as in the code.
\<close>

function find_split :: "bool \<Rightarrow> string \<Rightarrow> nat" where
  "find_split escaped s =
     (case s of [] \<Rightarrow> 0
      | c # s' \<Rightarrow>
        if c = CHR ''['' then
          (let k = (if peek s' = CHR '']'' then 1 else 0);
               m = length (takeWhile (\<lambda>x. x \<noteq> CHR '']'') (drop k s'))
           in k + m + 2 + find_split False (drop (Suc (k + m)) s'))
        else if c = CHR '','' \<and> \<not> escaped then 0
        else Suc (find_split (c = BACKSLASH \<and> \<not> escaped) s'))"
  by pat_completeness auto
termination by (relation "measure (\<lambda>(e, s). length s)") auto

declare find_split.simps [simp del]

datatype uwildmat_result = UWILDMAT_FAIL | UWILDMAT_MATCH | UWILDMAT_POISON

text \<open>
  The main loop over the comma-separated patterns: \<open>p = split + 1\<close> is again in the
  expression exactly when \<open>split\<close> stopped at a comma, that is, inside the string.
\<close>

function expression_loop ::
  "string \<Rightarrow> bool \<Rightarrow> string \<Rightarrow> bool \<Rightarrow> bool \<Rightarrow> bool \<times> bool" where
  "expression_loop t allowpoison s matched poisoned =
     (let poison = (allowpoison \<and> peek s = CHR ''@'');
          reverse = (peek s = CHR ''!'' \<or> poison);
          p = (if reverse then tl s else s);
          k = find_split False p;
          (matched', poisoned') =
            (if matched = (\<not> reverse) \<and> poison = poisoned then (matched, poisoned)
             else if match_pattern t p k = MTrue then (\<not> reverse, poison)
             else (matched, poisoned))
      in if drop k p = [] then (matched', poisoned')
         else expression_loop t allowpoison (tl (drop k p)) matched' poisoned')"
  by pat_completeness auto
termination
  by (relation "measure (\<lambda>(t, a, s, m, p). length s)") (auto simp: Let_def split: if_splits)

declare expression_loop.simps [simp del]

definition match_expression :: "string \<Rightarrow> string \<Rightarrow> bool \<Rightarrow> uwildmat_result" where
  "match_expression t start allowpoison =
     (if start = [] then (if t = [] then UWILDMAT_MATCH else UWILDMAT_FAIL)
      else case expression_loop t allowpoison start False False of (matched, poisoned) \<Rightarrow>
        if poisoned then UWILDMAT_POISON
        else if matched then UWILDMAT_MATCH else UWILDMAT_FAIL)"

definition uwildmat :: "string \<Rightarrow> string \<Rightarrow> bool" where
  "uwildmat t pat = (if pat = ''*'' then True else match_expression t pat False = UWILDMAT_MATCH)"

definition uwildmat_poison :: "string \<Rightarrow> string \<Rightarrow> uwildmat_result" where
  "uwildmat_poison t pat = (if pat = ''*'' then UWILDMAT_MATCH else match_expression t pat True)"

definition uwildmat_simple :: "string \<Rightarrow> string \<Rightarrow> bool" where
  "uwildmat_simple t pat =
     (if pat = ''*'' then True else match_pattern t pat (length pat) = MTrue)"

subsection \<open>The declarative meaning of a pattern\<close>

datatype elem = Lit char | AnyChar | Star | Class string nat

function parse_pattern :: "string \<Rightarrow> nat \<Rightarrow> elem list option" where
  "parse_pattern p n =
     (if n = 0 then Some []
      else if peek p = BACKSLASH then
        (if peek (tl p) = NUL then None
         else map_option ((#) (Lit (peek (tl p)))) (parse_pattern (drop 2 p) (n - 2)))
      else if peek p = CHR ''?'' then map_option ((#) AnyChar) (parse_pattern (tl p) (n - 1))
      else if peek p = CHR ''*'' then
        map_option ((#) Star) (parse_pattern (drop (stars p) p) (n - stars p))
      else if peek p = CHR ''['' then
        (let k = (if peek (tl p) = CHR ''^'' then 2 else 1) in
         if n - 1 \<le> k then None
         else case memchr_idx (drop k (tl p)) CHR '']'' (n - 1 - k) of
           None \<Rightarrow> None
         | Some i \<Rightarrow> map_option ((#) (Class (tl p) (k + i)))
             (parse_pattern (drop (k + i + 2) p) (n - (k + i + 2))))
      else map_option ((#) (Lit (peek p))) (parse_pattern (tl p) (n - 1)))"
  by pat_completeness auto
termination by (relation "measure (\<lambda>(p, n). n)") (auto simp: stars_def)

declare parse_pattern.simps [simp del]

function elems_match :: "elem list \<Rightarrow> string \<Rightarrow> bool" where
  "elems_match [] t = (t = [])"
| "elems_match (Lit c # es) t = (t \<noteq> [] \<and> peek t = c \<and> elems_match es (tl t))"
| "elems_match (AnyChar # es) t = (t \<noteq> [] \<and> elems_match es (drop (width t) t))"
| "elems_match (Class cl m # es) t =
     (t \<noteq> [] \<and> match_class (fst (utf8_decode t None)) cl m
      \<and> elems_match es (drop (snd (utf8_decode t None)) t))"
| "elems_match (Star # es) t =
     (elems_match es t
      \<or> (if t = [] then False else elems_match (Star # es) (drop (width t) t)))"
  by pat_completeness auto
termination
  by (relation "inv_image (less_than <*lex*> less_than) (\<lambda>(es, t). (length es, length t))") auto

declare elems_match.simps(5) [simp del]

text \<open>Steps over whole characters of the text: the positions a star can reach.\<close>

fun advance :: "nat \<Rightarrow> string \<Rightarrow> string" where
  "advance 0 t = t"
| "advance (Suc k) t = advance k (drop (width t) t)"

lemma advance_Nil [simp]: "advance k [] = []"
  by (induction k) auto

lemma advance_add: "advance (j + k) t = advance k (advance j t)"
  by (induction j arbitrary: t) auto

lemma advance_snoc: "drop (width (advance k t)) (advance k t) = advance (Suc k) t"
  using advance_add [of k 1 t] by simp

lemma advance_to_end: "\<exists>k. advance k t = []"
proof (induction "length t" arbitrary: t rule: less_induct)
  case less
  show ?case
  proof (cases "t = []")
    case False
    then obtain k where "advance k (drop (width t) t) = []" using less by fastforce
    then show ?thesis by (metis advance.simps(2))
  qed simp
qed

lemma elems_match_Star: "elems_match (Star # es) t \<longleftrightarrow> (\<exists>k. elems_match es (advance k t))"
proof (induction "length t" arbitrary: t rule: less_induct)
  case less
  show ?case
  proof (cases "t = []")
    case False
    then have IH: "elems_match (Star # es) (drop (width t) t)
        \<longleftrightarrow> (\<exists>k. elems_match es (advance k (drop (width t) t)))"
      by (intro less) simp
    have "(\<exists>k. elems_match es (advance k t))
        \<longleftrightarrow> elems_match es t \<or> (\<exists>k. elems_match es (advance (Suc k) t))"
      by (metis advance.simps(1) not0_implies_Suc)
    with IH False show ?thesis by (simp add: elems_match.simps(5) [of es t])
  qed (simp add: elems_match.simps(5))
qed


subsection \<open>The matcher decides the declarative meaning\<close>

text \<open>
  No octet of the pattern outside its bracket classes starts a multi-octet character. (A
  literal lead octet would let the star resume inside a character.)
\<close>

definition no_lead :: "elem list \<Rightarrow> bool" where
  "no_lead es \<longleftrightarrow> (\<forall>c. Lit c \<in> set es \<longrightarrow> \<not> isutf8 c)"

text \<open>What each verdict says: ABORT speaks of every later position of the text as well.\<close>

definition verdict_ok :: "elem list option \<Rightarrow> mres \<Rightarrow> string \<Rightarrow> bool" where
  "verdict_ok eso r t \<longleftrightarrow>
     (case eso of None \<Rightarrow> r \<noteq> MTrue
      | Some es \<Rightarrow> no_lead es \<longrightarrow>
         (case r of MTrue \<Rightarrow> elems_match es t
          | MFalse \<Rightarrow> \<not> elems_match es t
          | ABORT \<Rightarrow> (\<forall>k. \<not> elems_match es (advance k t))))"

definition star_ok :: "elem list option \<Rightarrow> mres \<Rightarrow> string \<Rightarrow> bool" where
  "star_ok eso r t \<longleftrightarrow>
     (case eso of None \<Rightarrow> r \<noteq> MTrue
      | Some es \<Rightarrow> no_lead es \<longrightarrow>
         (case r of MTrue \<Rightarrow> (\<exists>k. elems_match es (advance k t))
          | MFalse \<Rightarrow> False
          | ABORT \<Rightarrow> (\<forall>k. \<not> elems_match es (advance k t))))"

lemma no_lead_Cons [simp]:
  "no_lead (Lit c # es) \<longleftrightarrow> \<not> isutf8 c \<and> no_lead es"
  "no_lead (AnyChar # es) \<longleftrightarrow> no_lead es"
  "no_lead (Star # es) \<longleftrightarrow> no_lead es"
  "no_lead (Class cl m # es) \<longleftrightarrow> no_lead es"
  by (auto simp: no_lead_def)

lemma width_lit: "\<not> isutf8 (peek t) \<Longrightarrow> drop (width t) t = tl t"
  by (simp add: width_def drop_Suc)

lemma lead_ones_less_2: "\<not> isutf8 c \<Longrightarrow> lead_ones 0x80 (byte c) < 2"
proof -
  assume nl: "\<not> isutf8 c"
  have "byte c AND 0xC0 = byte c AND (0x80 OR 0x40)" by simp
  also have "\<dots> = (byte c AND 0x80) OR (byte c AND 0x40)"
    by (rule bit_eqI) (auto simp only: bit_and_iff bit_or_iff)
  finally have "\<not> (byte c AND 0x80 = 0x80 \<and> byte c AND 0x40 = 0x40)"
    using nl by (auto simp: isutf8_def)
  then show ?thesis
    by (subst lead_ones.simps, subst lead_ones.simps) auto
qed

lemma width_utf8_length: "utf8_length t None = width t"
  using lead_ones_less_2 [of "peek t"] by (auto simp: width_def utf8_length_def Let_def)

lemma utf8_decode_eta: "utf8_decode t None = (fst (utf8_decode t None), width t)"
  by (metis prod.collapse snd_utf8_decode width_utf8_length)

lemma verdict_Lit:
  assumes "t \<noteq> []" "verdict_ok eso r (tl t)"
  shows "verdict_ok (map_option ((#) (Lit (peek t))) eso) r t"
proof (cases eso)
  case (Some es)
  have "\<not> elems_match (Lit (peek t) # es) (advance k t)"
    if nl: "\<not> isutf8 (peek t)" and no: "\<And>k. \<not> elems_match es (advance k (tl t))" for k
  proof
    assume *: "elems_match (Lit (peek t) # es) (advance k t)"
    then have "tl (advance k t) = advance (Suc k) t"
      using advance_snoc [of k t] width_lit [of "advance k t"] nl by simp
    also have "\<dots> = advance k (tl t)" using nl by (simp add: width_lit)
    finally show False using * no by simp
  qed
  with Some assms show ?thesis
    by (cases r) (auto simp: verdict_ok_def)
qed (use assms in \<open>simp add: verdict_ok_def\<close>)

lemma verdict_Lit_mismatch:
  "t \<noteq> [] \<Longrightarrow> peek t \<noteq> c \<Longrightarrow> verdict_ok (map_option ((#) (Lit c)) eso) MFalse t"
  by (cases eso) (auto simp: verdict_ok_def)

lemma verdict_AnyChar:
  assumes "t \<noteq> []" "verdict_ok eso r (drop (width t) t)"
  shows "verdict_ok (map_option ((#) AnyChar) eso) r t"
proof (cases eso)
  case (Some es)
  have "\<not> elems_match (AnyChar # es) (advance k t)"
    if "\<And>k. \<not> elems_match es (advance k (drop (width t) t))" for k
    using that [of k] advance_snoc [of k t] by simp
  with Some assms show ?thesis by (cases r) (auto simp: verdict_ok_def)
qed (use assms in \<open>simp add: verdict_ok_def\<close>)

lemma verdict_Class:
  assumes "t \<noteq> []" "verdict_ok eso r (drop (width t) t)"
    "match_class (fst (utf8_decode t None)) cl m"
  shows "verdict_ok (map_option ((#) (Class cl m)) eso) r t"
proof (cases eso)
  case (Some es)
  have "\<not> elems_match (Class cl m # es) (advance k t)"
    if "\<And>k. \<not> elems_match es (advance k (drop (width t) t))" for k
    using that [of k] advance_snoc [of k t] by (simp add: snd_utf8_decode width_utf8_length)
  with Some assms show ?thesis
    by (cases r) (auto simp: verdict_ok_def snd_utf8_decode width_utf8_length)
qed (use assms in \<open>simp add: verdict_ok_def\<close>)

lemma verdict_Class_mismatch:
  "\<not> match_class (fst (utf8_decode t None)) cl m \<Longrightarrow>
   verdict_ok (map_option ((#) (Class cl m)) eso) MFalse t"
  by (cases eso) (auto simp: verdict_ok_def)

lemma verdict_Star:
  "star_ok eso r t \<Longrightarrow> verdict_ok (map_option ((#) Star) eso) r t"
  by (cases eso; cases r)
    (auto simp: verdict_ok_def star_ok_def elems_match_Star advance_add [symmetric])

lemma all_advance: "(\<forall>k. P (advance k t)) \<longleftrightarrow> P t \<and> (\<forall>k. P (advance k (drop (width t) t)))"
  by (metis advance.simps not0_implies_Suc)

lemma star_ok_step:
  assumes "verdict_ok eso r t" "r = MFalse \<Longrightarrow> star_ok eso s (drop (width t) t)"
  shows "star_ok eso (if r \<noteq> MFalse then r else s) t"
proof (cases "r = MFalse")
  case True
  show ?thesis
  proof (cases eso)
    case (Some es)
    have "(\<exists>k. elems_match es (advance k (drop (width t) t))) \<Longrightarrow> (\<exists>k. elems_match es (advance k t))"
      by (metis advance.simps(2))
    with True Some assms show ?thesis
      using all_advance [of "\<lambda>u. \<not> elems_match es u" t]
      by (cases s) (auto simp: verdict_ok_def star_ok_def)
  qed (use True assms in \<open>simp add: star_ok_def verdict_ok_def\<close>)
next
  case False
  then show ?thesis using assms
    by (cases eso; cases r)
      (auto simp: verdict_ok_def star_ok_def intro: exI [of _ 0])
qed

lemma star_ok_Lit_tl:
  "star_ok (map_option ((#) (Lit (peek t))) eso) s (tl t) \<Longrightarrow>
   star_ok (map_option ((#) (Lit (peek t))) eso) s (drop (width t) t)"
  by (cases eso; cases s) (auto simp: star_ok_def width_lit)

lemma star_ok_skip:
  assumes "t \<noteq> []" "peek t \<noteq> c"
    "star_ok (map_option ((#) (Lit c)) eso) s (drop (width t) t)"
  shows "star_ok (map_option ((#) (Lit c)) eso) s t"
  using star_ok_step [OF verdict_Lit_mismatch [OF assms(1,2)], of eso s] assms(3) by simp

lemma star_ok_scan:
  "star_ok (map_option ((#) (Lit c)) eso) s (scan_lit c t) \<Longrightarrow>
   star_ok (map_option ((#) (Lit c)) eso) s t"
proof (induction c t rule: scan_lit.induct)
  case (1 c t)
  show ?case
  proof (cases "t = [] \<or> peek t = c")
    case True
    with "1.prems" show ?thesis by (simp add: scan_lit.simps [of c t])
  next
    case False
    with "1.prems" have "star_ok (map_option ((#) (Lit c)) eso) s (scan_lit c (drop (width t) t))"
      by (simp add: scan_lit.simps [of c t])
    with "1.IH" False show ?thesis
      by (intro star_ok_skip [of t c]) simp_all
  qed
qed

lemma parse_nonempty:
  assumes "parse_pattern p n = Some es" "0 < n" "peek p \<noteq> CHR ''*''"
  shows "\<not> elems_match es []"
  using assms
  by (subst (asm) parse_pattern.simps)
    (auto simp: Let_def split: if_splits option.splits)

lemma star_ok_Nil:
  assumes "0 < n" "peek p \<noteq> CHR ''*''"
  shows "star_ok (parse_pattern p n) ABORT []"
  using parse_nonempty [OF _ assms]
  by (auto simp: star_ok_def split: option.splits)

lemma verdict_Nil:
  "0 < n \<Longrightarrow> peek p \<noteq> CHR ''*'' \<Longrightarrow> verdict_ok (parse_pattern p n) ABORT []"
  using star_ok_Nil [of n p] by (auto simp: star_ok_def verdict_ok_def split: option.splits)

text \<open>The equations of the parser for the heads the matcher distinguishes.\<close>

lemma parse_head:
  assumes "0 < n"
  shows "peek p = BACKSLASH \<Longrightarrow> parse_pattern p n =
      (if peek (tl p) = NUL then None
       else map_option ((#) (Lit (peek (tl p)))) (parse_pattern (drop 2 p) (n - 2)))"
    and "peek p = CHR ''?'' \<Longrightarrow>
      parse_pattern p n = map_option ((#) AnyChar) (parse_pattern (tl p) (n - 1))"
    and "peek p = CHR ''*'' \<Longrightarrow>
      parse_pattern p n = map_option ((#) Star) (parse_pattern (drop (stars p) p) (n - stars p))"
    and "peek p \<notin> {BACKSLASH, CHR ''?'', CHR ''*'', CHR ''[''} \<Longrightarrow>
      parse_pattern p n = map_option ((#) (Lit (peek p))) (parse_pattern (tl p) (n - 1))"
  using assms by (subst parse_pattern.simps; simp)+

lemma parse_0 [simp]: "parse_pattern p 0 = Some []"
  by (simp add: parse_pattern.simps)

lemma peek_after_stars: "peek (drop (stars p) p) \<noteq> CHR ''*''"
proof -
  let ?Q = "\<lambda>x. x = CHR ''*''"
  have "drop (stars p) p = dropWhile ?Q (tl p)"
    by (simp add: stars_def drop_Suc dropWhile_eq_drop)
  then show ?thesis
    by (cases "dropWhile ?Q (tl p)") (auto dest: dropWhile_eq_Cons_conv [THEN iffD1])
qed

lemma verdict_bracket:
  assumes n: "0 < n" and b: "peek p = CHR ''[''" and t: "t \<noteq> []"
    and IH: "\<And>k i. \<lbrakk>k = (if peek (tl p) = CHR ''^'' then 2 else 1); k < n - 1;
      memchr_idx (drop k (tl p)) CHR '']'' (n - 1 - k) = Some i;
      match_class (fst (utf8_decode t None)) (tl p) (k + i)\<rbrakk> \<Longrightarrow>
      verdict_ok (parse_pattern (drop (k + i + 2) p) (n - (k + i + 2)))
        (match_pattern (drop (width t) t) (drop (k + i + 2) p) (n - (k + i + 2)))
        (drop (width t) t)"
  shows "verdict_ok (parse_pattern p n) (match_pattern t p n) t"
proof -
  define k where "k = (if peek (tl p) = CHR ''^'' then 2 else (1::nat))"
  have mp: "match_pattern t p n = (if n - 1 \<le> k then ABORT
      else case memchr_idx (drop k (tl p)) CHR '']'' (n - 1 - k) of None \<Rightarrow> ABORT
         | Some i \<Rightarrow> if \<not> match_class (fst (utf8_decode t None)) (tl p) (k + i) then MFalse
             else match_pattern (drop (width t) t) (drop (k + i + 2) p) (n - (k + i + 2)))"
    using n b t unfolding k_def
    by (subst match_pattern.simps, subst utf8_decode_eta) (simp add: Let_def split: option.split)
  have pp: "parse_pattern p n = (if n - 1 \<le> k then None
      else case memchr_idx (drop k (tl p)) CHR '']'' (n - 1 - k) of None \<Rightarrow> None
         | Some i \<Rightarrow> map_option ((#) (Class (tl p) (k + i)))
             (parse_pattern (drop (k + i + 2) p) (n - (k + i + 2))))"
    using n b unfolding k_def
    by (subst parse_pattern.simps) (simp add: Let_def split: option.split)
  show ?thesis
  proof (cases "k < n - 1")
    case True
    show ?thesis
    proof (cases "memchr_idx (drop k (tl p)) CHR '']'' (n - 1 - k)")
      case (Some i)
      show ?thesis
      proof (cases "match_class (fst (utf8_decode t None)) (tl p) (k + i)")
        case m: True
        have "verdict_ok (parse_pattern p n)
          (match_pattern (drop (width t) t) (drop (k + i + 2) p) (n - (k + i + 2))) t"
          using verdict_Class [OF t IH [OF k_def True Some m] m] True Some pp by simp
        with True Some m mp show ?thesis by simp
      qed (use True Some mp pp in \<open>simp add: verdict_Class_mismatch\<close>)
    qed (use True mp pp in \<open>simp add: verdict_ok_def\<close>)
  qed (use mp pp in \<open>simp add: verdict_ok_def\<close>)
qed

lemma matcher_verdict:
  "verdict_ok (parse_pattern p n) (match_pattern t p n) t"
  "0 < n \<Longrightarrow> peek p \<noteq> CHR ''*'' \<Longrightarrow> star_ok (parse_pattern p n) (star_loop t p n) t"
proof (induction t p n and t p n rule: match_pattern_star_loop.induct)
  case (1 t p n)
  consider "n = 0" | "0 < n" "t = []" "peek p \<noteq> CHR ''*''" | "0 < n" "peek p = CHR ''*''"
    | "0 < n" "t \<noteq> []" "peek p = BACKSLASH" | "0 < n" "t \<noteq> []" "peek p = CHR ''?''"
    | "0 < n" "t \<noteq> []" "peek p = CHR ''[''"
    | "0 < n" "t \<noteq> []" "peek p \<notin> {BACKSLASH, CHR ''?'', CHR ''*'', CHR ''[''}"
    by fastforce
  then show ?case
  proof cases
    case 1
    then show ?thesis by (simp add: match_pattern.simps verdict_ok_def)
  next
    case 2
    then show ?thesis using verdict_Nil [of n p] by (simp add: match_pattern.simps)
  next
    case 3
    let ?k = "stars p"
    show ?thesis
    proof (cases "n \<le> ?k")
      case True
      then have "parse_pattern p n = Some [Star]" "match_pattern t p n = MTrue"
        using 3 by (simp_all add: parse_head match_pattern.simps)
      then show ?thesis
        using advance_to_end [of t] by (auto simp: verdict_ok_def elems_match_Star)
    next
      case False
      with 3 "1.IH"(3) have "star_ok (parse_pattern (drop ?k p) (n - ?k))
          (star_loop t (drop ?k p) (n - ?k)) t"
        by (simp add: peek_after_stars)
      with 3 False show ?thesis
        by (simp add: parse_head match_pattern.simps [of t p n] verdict_Star)
    qed
  next
    case 4
    with "1.IH"(1) show ?thesis
      using verdict_Lit [of t "parse_pattern (drop 2 p) (n - 2)"
          "match_pattern (tl t) (drop 2 p) (n - 2)"]
      by (auto simp: parse_head(1) match_pattern.simps [of t p n] verdict_Lit_mismatch
          verdict_ok_def [of None])
  next
    case 5
    with "1.IH"(2) show ?thesis
      by (simp add: parse_head(2) match_pattern.simps [of t p n] verdict_AnyChar)
  next
    case 6
    show ?thesis
      by (rule verdict_bracket [OF 6(1,3,2)], rule "1.IH"(4))
        (use 6 utf8_decode_eta [of t] in auto)
  next
    case 7
    with "1.IH"(5) show ?thesis
      using verdict_Lit [of t "parse_pattern (tl p) (n - 1)" "match_pattern (tl t) (tl p) (n - 1)"]
      by (cases "peek t = peek p")
        (auto simp: parse_head(4) match_pattern.simps [of t p n] verdict_Lit_mismatch)
  qed
next
  case (2 t p n)
  let ?eso = "parse_pattern p n"
  consider "t = []" | "t \<noteq> []" "ismeta (peek p)" | "t \<noteq> []" "\<not> ismeta (peek p)" by blast
  then show ?case
  proof cases
    case 1
    with 2 show ?thesis by (simp add: star_loop.simps star_ok_Nil)
  next
    case m: 2
    have "star_ok ?eso (if match_pattern t p n \<noteq> MFalse then match_pattern t p n
        else star_loop (drop (width t) t) p n) t"
      by (rule star_ok_step) (use m 2 in auto)
    with m show ?thesis by (simp add: star_loop.simps [of t p n] Let_def)
  next
    case l: 3
    let ?c = "peek p" and ?t = "scan_lit (peek p) t"
    have eso: "?eso = map_option ((#) (Lit ?c)) (parse_pattern (tl p) (n - 1))"
      using l "2.prems" by (intro parse_head(4)) (auto simp: ismeta_def)
    have "star_ok ?eso (star_loop t p n) ?t"
    proof (cases "?t = []")
      case True
      with l show ?thesis
        using star_ok_Nil [OF "2.prems"] by (simp add: star_loop.simps [of t p n])
    next
      case False
      then have c: "peek ?t = ?c" by (rule scan_lit_peek)
      let ?r = "match_pattern (tl ?t) (tl p) (n - 1)"
      have "star_ok ?eso (if ?r \<noteq> MFalse then ?r else star_loop (tl ?t) p n) ?t"
      proof (rule star_ok_step)
        show "verdict_ok ?eso ?r ?t"
          using verdict_Lit [OF False] "2.IH"(3) l False c by (simp add: eso)
        show "star_ok ?eso (star_loop (tl ?t) p n) (drop (width ?t) ?t)" if "?r = MFalse"
          using star_ok_Lit_tl [of ?t] "2.IH"(4) that l False c "2.prems" by (simp add: eso)
      qed
      with l False show ?thesis
        by (simp add: star_loop.simps [of t p n] Let_def split: if_splits)
    qed
    then show ?thesis unfolding eso by (rule star_ok_scan)
  qed
qed


lemma match_pattern_iff:
  "parse_pattern p n = Some es \<Longrightarrow> no_lead es \<Longrightarrow> match_pattern t p n = MTrue \<longleftrightarrow> elems_match es t"
  using matcher_verdict(1) [of p n t]
  by (cases "match_pattern t p n") (auto simp: verdict_ok_def dest: spec [of _ 0])

lemma match_pattern_malformed: "parse_pattern p n = None \<Longrightarrow> match_pattern t p n \<noteq> MTrue"
  using matcher_verdict(1) [of p n t] by (simp add: verdict_ok_def)

subsection \<open>Expressions: the last matching pattern decides\<close>

text \<open>The patterns of an expression, each with its sense, poison flag and octet count.\<close>

function split_patterns :: "bool \<Rightarrow> string \<Rightarrow> (bool \<times> bool \<times> string \<times> nat) list" where
  "split_patterns allowpoison s =
     (let poison = (allowpoison \<and> peek s = CHR ''@'');
          reverse = (peek s = CHR ''!'' \<or> poison);
          p = (if reverse then tl s else s);
          k = find_split False p
      in (reverse, poison, p, k)
         # (if drop k p = [] then [] else split_patterns allowpoison (tl (drop k p))))"
  by pat_completeness auto
termination
  by (relation "measure (\<lambda>(a, s). length s)") (auto simp: Let_def split: if_splits)

declare split_patterns.simps [simp del]

fun pattern_step :: "string \<Rightarrow> bool \<times> bool \<times> string \<times> nat \<Rightarrow> bool \<times> bool \<Rightarrow> bool \<times> bool" where
  "pattern_step t (reverse, poison, p, k) st =
     (if match_pattern t p k = MTrue then (\<not> reverse, poison) else st)"

definition last_match :: "string \<Rightarrow> bool \<Rightarrow> string \<Rightarrow> (bool \<times> bool \<times> string \<times> nat) option" where
  "last_match t allowpoison s =
     find (\<lambda>(r, po, p, k). match_pattern t p k = MTrue) (rev (split_patterns allowpoison s))"

lemma expression_loop_fold:
  "expression_loop t a s m po = fold (pattern_step t) (split_patterns a s) (m, po)"
proof (induction t a s m po rule: expression_loop.induct)
  case (1 t a s m po)
  define poison where "poison = (a \<and> peek s = CHR ''@'')"
  define reverse where "reverse = (peek s = CHR ''!'' \<or> poison)"
  define p where "p = (if reverse then tl s else s)"
  define k where "k = find_split False p"
  define st where "st = (if m = (\<not> reverse) \<and> poison = po then (m, po)
     else if match_pattern t p k = MTrue then (\<not> reverse, poison) else (m, po))"
  have step: "pattern_step t (reverse, poison, p, k) (m, po) = st"
    by (simp add: st_def)
  have IH: "drop k p \<noteq> [] \<Longrightarrow> expression_loop t a (tl (drop k p)) (fst st) (snd st)
      = fold (pattern_step t) (split_patterns a (tl (drop k p))) st"
    using "1.IH" [OF poison_def reverse_def p_def k_def st_def prod.collapse] by simp
  have "expression_loop t a s m po =
      (if drop k p = [] then st else expression_loop t a (tl (drop k p)) (fst st) (snd st))"
    by (subst expression_loop.simps)
      (simp only: Let_def poison_def [symmetric] reverse_def [symmetric] p_def [symmetric]
        k_def [symmetric] st_def [symmetric], simp add: case_prod_beta)
  moreover have "split_patterns a s = (reverse, poison, p, k)
      # (if drop k p = [] then [] else split_patterns a (tl (drop k p)))"
    by (subst split_patterns.simps)
      (simp only: Let_def poison_def [symmetric] reverse_def [symmetric] p_def [symmetric]
        k_def [symmetric])
  ultimately show ?case using step IH by simp
qed

lemma fold_last:
  "fold (pattern_step t) xs st =
     (case find (\<lambda>(r, po, p, k). match_pattern t p k = MTrue) (rev xs) of
        None \<Rightarrow> st | Some (r, po, _) \<Rightarrow> (\<not> r, po))"
  by (induction xs rule: rev_induct) (auto split: prod.splits)

lemma split_patterns_poison: "(r, True, p, k) \<in> set (split_patterns a s) \<Longrightarrow> r"
proof (induction a s rule: split_patterns.induct)
  case (1 a s)
  then show ?case
    by (subst (asm) split_patterns.simps) (auto simp: Let_def split: if_splits)
qed


lemma match_expression_simp:
  "start \<noteq> [] \<Longrightarrow> match_expression t start a =
     (case last_match t a start of None \<Rightarrow> UWILDMAT_FAIL
      | Some (r, po, _) \<Rightarrow>
          if po then UWILDMAT_POISON else if r then UWILDMAT_FAIL else UWILDMAT_MATCH)"
  by (auto simp: match_expression_def expression_loop_fold fold_last last_match_def
      split: option.splits)

subsection \<open>Properties\<close>





end
