(* ===== verification/Wire.thy ===== *)
theory Wire
  imports Inn_Prelude
begin

text \<open>
  Wire-format articles: \<^verbatim>\<open>lib/wire.c\<close>.

  An article is the list of its octets (embedded nuls are octets like any other). A pointer into
  it is an index; \<open>end\<close> of the C functions, a pointer to the last octet, is the last index, so
  that \<open>end - p\<close> is \<open>length art - 1 - p\<close>. A pointer result is \<open>Some\<close> index, NULL is \<open>None\<close>.
  The sizes are unbounded naturals; the code's \<^verbatim>\<open>SIZE_MAX\<close> tests are kept with a 64-bit
  \<open>size_t\<close>.
\<close>

definition octet :: "string \<Rightarrow> nat \<Rightarrow> char" where
  "octet art i = peek (drop i art)"

lemma octet_nth: "i < length art \<Longrightarrow> octet art i = art ! i"
  by (simp add: octet_def Cons_nth_drop_Suc [symmetric])

text \<open>\<open>memchr(art + p, c, n)\<close>, as an index into the article.\<close>

definition memchr_from :: "string \<Rightarrow> nat \<Rightarrow> char \<Rightarrow> nat \<Rightarrow> nat option" where
  "memchr_from art p c n =
     (let seg = take n (drop p art); k = length (takeWhile (\<lambda>x. x \<noteq> c) seg) in
      if k < length seg then Some (p + k) else None)"

lemma memchr_from_Some:
  assumes "memchr_from art p c n = Some q"
  shows "p \<le> q" "q < p + n" "q < length art" "art ! q = c" "\<forall>i. p \<le> i \<and> i < q \<longrightarrow> art ! i \<noteq> c"
proof -
  define seg where "seg = take n (drop p art)"
  define k where "k = length (takeWhile (\<lambda>x. x \<noteq> c) seg)"
  from assms have k: "k < length seg" "q = p + k"
    by (auto simp: memchr_from_def Let_def seg_def k_def split: if_splits)
  have nth: "seg ! i = art ! (p + i)" if "i < length seg" for i
    using that by (cases "p \<le> length art") (auto simp: seg_def)
  show "p \<le> q" "q < p + n" "q < length art" using k by (auto simp: seg_def)
  show "art ! q = c"
    using nth [OF k(1)] nth_length_takeWhile [of "\<lambda>x. x \<noteq> c" seg] k by (simp add: k_def)
  show "\<forall>i. p \<le> i \<and> i < q \<longrightarrow> art ! i \<noteq> c"
  proof (intro allI impI)
    fix i assume i: "p \<le> i \<and> i < q"
    then have lt: "i - p < k" using k by linarith
    then have "seg ! (i - p) \<in> set (takeWhile (\<lambda>x. x \<noteq> c) seg)"
      by (metis k_def nth_mem takeWhile_nth)
    then have "seg ! (i - p) \<noteq> c" by (auto dest: set_takeWhileD)
    moreover have "seg ! (i - p) = art ! i" using nth [of "i - p"] lt k i by simp
    ultimately show "art ! i \<noteq> c" by simp
  qed
qed

lemma memchr_from_None:
  assumes "memchr_from art p c n = None" "p \<le> i" "i < p + n" "i < length art"
  shows "art ! i \<noteq> c"
proof -
  define seg where "seg = take n (drop p art)"
  have "length (takeWhile (\<lambda>x. x \<noteq> c) seg) = length seg"
    using assms(1) length_takeWhile_le [of "\<lambda>x. x \<noteq> c" seg]
    by (auto simp: memchr_from_def Let_def seg_def split: if_splits)
  then have "takeWhile (\<lambda>x. x \<noteq> c) seg = seg"
    by (metis takeWhile_eq_take take_all order_refl)
  then have "\<forall>x\<in>set seg. x \<noteq> c" by (simp add: takeWhile_eq_all_conv)
  moreover have "seg ! (i - p) = art ! i" "i - p < length seg"
    using assms(2-4) by (auto simp: seg_def)
  ultimately show ?thesis by (metis nth_mem)
qed

subsection \<open>Finding the body\<close>

function findbody_loop :: "string \<Rightarrow> nat \<Rightarrow> nat option" where
  "findbody_loop art p =
     (if length art - p \<ge> 4 then
        (case memchr_from art p CR (length art - p - 3) of
           None \<Rightarrow> None
         | Some q \<Rightarrow>
             if take 4 (drop q art) = [CR, LF, CR, LF] then Some (q + 4)
             else findbody_loop art (q + 1))
      else None)"
  by pat_completeness auto
termination
  by (relation "measure (\<lambda>(art, p). length art - p)") (auto dest: memchr_from_Some)

declare findbody_loop.simps [simp del]

definition wire_findbody :: "string \<Rightarrow> nat option" where
  "wire_findbody art =
     (if length art > 5 \<and> octet art 0 = CR \<and> octet art 1 = LF then Some 2
      else findbody_loop art 0)"

subsection \<open>Lines\<close>

function nextline_loop :: "string \<Rightarrow> nat \<Rightarrow> nat option" where
  "nextline_loop art p =
     (if p + 2 < length art then
        (case memchr_from art p CR (length art - p - 2) of
           None \<Rightarrow> None
         | Some q \<Rightarrow> if octet art (q + 1) = LF then Some (q + 2) else nextline_loop art (q + 1))
      else None)"
  by pat_completeness auto
termination
  by (relation "measure (\<lambda>(art, p). length art - p)") (auto dest: memchr_from_Some)

declare nextline_loop.simps [simp del]

definition wire_nextline :: "string \<Rightarrow> nat \<Rightarrow> nat option" where
  "wire_nextline art p = (if length art \<le> p then None else nextline_loop art p)"

lemma nextline_loop_bounds:
  "nextline_loop art p = Some q \<Longrightarrow>
     p + 2 \<le> q \<and> q < length art \<and> art ! (q - 2) = CR \<and> art ! (q - 1) = LF"
proof (induction art p rule: nextline_loop.induct)
  case (1 art p)
  then obtain c where c: "p + 2 < length art" "memchr_from art p CR (length art - p - 2) = Some c"
    by (subst (asm) nextline_loop.simps) (auto split: if_splits option.splits)
  note b = memchr_from_Some [OF c(2)]
  show ?case
  proof (cases "octet art (c + 1) = LF")
    case True
    with c "1.prems" have "q = c + 2" by (simp add: nextline_loop.simps [of art p])
    with True b c show ?thesis by (auto simp: octet_nth)
  next
    case False
    with c "1.prems" have "nextline_loop art (c + 1) = Some q"
      by (simp add: nextline_loop.simps [of art p])
    with "1.IH" [OF c False] b show ?thesis by simp
  qed
qed

lemma wire_nextline_bounds:
  "wire_nextline art p = Some q \<Longrightarrow>
     p + 2 \<le> q \<and> q < length art \<and> art ! (q - 2) = CR \<and> art ! (q - 1) = LF"
  by (auto simp: wire_nextline_def dest: nextline_loop_bounds split: if_splits)

lemma nextline_loop_minimal:
  "nextline_loop art p = Some q \<Longrightarrow> p \<le> i \<Longrightarrow> i + 2 < q \<Longrightarrow> \<not> (art ! i = CR \<and> art ! (i + 1) = LF)"
proof (induction art p rule: nextline_loop.induct)
  case (1 art p)
  then obtain c where c: "p + 2 < length art" "memchr_from art p CR (length art - p - 2) = Some c"
    by (subst (asm) nextline_loop.simps) (auto split: if_splits option.splits)
  note b = memchr_from_Some [OF c(2)]
  show ?case
  proof (cases "i < c")
    case True
    with b "1.prems" show ?thesis by auto
  next
    case ge: False
    show ?thesis
    proof (cases "octet art (c + 1) = LF")
      case True
      with c "1.prems" have "q = c + 2" by (simp add: nextline_loop.simps [of art p])
      with ge "1.prems" show ?thesis by simp
    next
      case False
      then have ne: "art ! (c + 1) \<noteq> LF" using b c by (simp add: octet_nth)
      have q: "nextline_loop art (c + 1) = Some q"
        using c False "1.prems" by (simp add: nextline_loop.simps [of art p])
      show ?thesis
      proof (cases "i = c")
        case True with ne show ?thesis by simp
      next
        case False
        with ge have "c + 1 \<le> i" by simp
        with "1.IH" [OF c \<open>octet art (c + 1) \<noteq> LF\<close> q] "1.prems" show ?thesis by simp
      qed
    qed
  qed
qed

lemma wire_nextline_minimal:
  "wire_nextline art p = Some q \<Longrightarrow> p \<le> i \<Longrightarrow> i + 2 < q \<Longrightarrow> \<not> (art ! i = CR \<and> art ! (i + 1) = LF)"
  by (auto simp: wire_nextline_def dest: nextline_loop_minimal split: if_splits)

subsection \<open>Finding and ending a header field\<close>

definition isheader :: "string \<Rightarrow> nat \<Rightarrow> string \<Rightarrow> nat \<Rightarrow> bool" where
  "isheader art line header len =
     (if octet art (line + len) \<noteq> CHR '':'' \<or> \<not> iswhite (octet art (line + len + 1)) then False
      else map tolower (take len (drop line art)) = map tolower (take len header))"

function skip_fws_bounded :: "string \<Rightarrow> nat \<Rightarrow> nat option" where
  "skip_fws_bounded art p =
     (if p < length art then
        (let p' = (if p + 2 < length art \<and> octet art p = CR \<and> octet art (p + 1) = LF
                      \<and> iswhite (octet art (p + 2)) then p + 2 else p) in
         if \<not> iswhite (octet art p') then Some p' else skip_fws_bounded art (p' + 1))
      else None)"
  by pat_completeness auto
termination
  by (relation "measure (\<lambda>(art, p). length art - p)") (auto simp: Let_def split: if_splits)

declare skip_fws_bounded.simps [simp del]

lemma skip_fws_bounds:
  "skip_fws_bounded art p = Some q \<Longrightarrow> p \<le> q \<and> q < length art \<and> \<not> iswhite (art ! q)"
proof (induction art p rule: skip_fws_bounded.induct)
  case (1 art p)
  define p' where "p' = (if p + 2 < length art \<and> octet art p = CR \<and> octet art (p + 1) = LF
      \<and> iswhite (octet art (p + 2)) then p + 2 else p)"
  have p: "p < length art" using "1.prems" by (subst (asm) skip_fws_bounded.simps) (auto split: if_splits)
  then have p': "p \<le> p'" "p' < length art" by (auto simp: p'_def)
  have eq: "skip_fws_bounded art p = (if \<not> iswhite (octet art p') then Some p'
      else skip_fws_bounded art (p' + 1))"
    using p by (subst skip_fws_bounded.simps) (simp only: p'_def [symmetric] Let_def, simp)
  show ?case
  proof (cases "iswhite (octet art p')")
    case True
    with "1.IH" [OF p p'_def] eq "1.prems" p' show ?thesis by simp
  qed (use eq p' "1.prems" in \<open>auto simp: octet_nth\<close>)
qed

lemma skip_fws_ge: "skip_fws_bounded art p = Some q \<Longrightarrow> p \<le> q"
  using skip_fws_bounds by blast

function findheader_loop :: "string \<Rightarrow> string \<Rightarrow> bool \<Rightarrow> nat \<Rightarrow> nat option" where
  "findheader_loop art header stripspaces p =
     (if p + length header + 3 < length art then
        (if octet art p = CR \<and> octet art (p + 1) = LF then None
         else if isheader art p header (length header) then
           (case (if stripspaces then skip_fws_bounded art (p + length header + 2)
                  else Some (p + length header + 2)) of
              None \<Rightarrow> None
            | Some q \<Rightarrow>
                if length art \<le> q + 1 \<or> octet art q \<noteq> CR \<or> octet art (q + 1) \<noteq> LF then Some q
                else (case wire_nextline art q of None \<Rightarrow> None
                      | Some p' \<Rightarrow> findheader_loop art header stripspaces p'))
         else (case wire_nextline art p of None \<Rightarrow> None
               | Some p' \<Rightarrow> findheader_loop art header stripspaces p'))
      else None)"
  by pat_completeness auto
termination
  by (relation "measure (\<lambda>(art, h, s, p). length art - p)")
    (auto dest!: wire_nextline_bounds skip_fws_ge split: if_splits)

declare findheader_loop.simps [simp del]

definition wire_findheader :: "string \<Rightarrow> string \<Rightarrow> bool \<Rightarrow> nat option" where
  "wire_findheader art header stripspaces =
     (if art = [] then None else findheader_loop art header stripspaces 0)"

function endheader_loop :: "string \<Rightarrow> nat option \<Rightarrow> nat option" where
  "endheader_loop art p =
     (case p of None \<Rightarrow> None
      | Some q \<Rightarrow> if \<not> iswhite (octet art q) then Some (q - 1)
                  else endheader_loop art (wire_nextline art q))"
  by pat_completeness auto
termination
  by (relation "measure (\<lambda>(art, p). case p of None \<Rightarrow> 0 | Some q \<Rightarrow> Suc (length art - q))")
    (auto dest!: wire_nextline_bounds split: option.splits)

declare endheader_loop.simps [simp del]

definition wire_endheader :: "string \<Rightarrow> nat \<Rightarrow> nat option" where
  "wire_endheader art header =
     (case endheader_loop art (wire_nextline art header) of
        Some q \<Rightarrow> Some q
      | None \<Rightarrow>
          if header + 2 \<le> length art \<and> octet art (length art - 1) = LF
             \<and> octet art (length art - 2) = CR
          then Some (length art - 1) else None)"


definition line_start :: "string \<Rightarrow> nat \<Rightarrow> bool" where
  "line_start art p \<longleftrightarrow> p = 0 \<or> (2 \<le> p \<and> p < length art \<and> art ! (p - 2) = CR \<and> art ! (p - 1) = LF)"

lemma line_start_next: "wire_nextline art p = Some q \<Longrightarrow> line_start art q"
  by (auto simp: line_start_def dest: wire_nextline_bounds)

lemma findheader_loop_sound:
  "findheader_loop art header strip p = Some q \<Longrightarrow> line_start art p \<Longrightarrow>
   \<exists>l. line_start art l \<and> isheader art l header (length header) \<and> l + length header + 2 \<le> q
      \<and> q < length art \<and> (strip \<longrightarrow> \<not> iswhite (art ! q)) \<and> (\<not> strip \<longrightarrow> q = l + length header + 2)
      \<and> (length art \<le> q + 1 \<or> art ! q \<noteq> CR \<or> art ! (q + 1) \<noteq> LF)"
proof (induction art header strip p rule: findheader_loop.induct)
  case (1 art header strip p)
  have len: "p + length header + 3 < length art" and nsep: "\<not> (octet art p = CR \<and> octet art (p + 1) = LF)"
    using "1.prems"(1) by (subst (asm) findheader_loop.simps, force split: if_splits)+
  show ?case
  proof (cases "isheader art p header (length header)")
    case False
    then have eq: "findheader_loop art header strip p = (case wire_nextline art p of None \<Rightarrow> None
        | Some p' \<Rightarrow> findheader_loop art header strip p')"
      using len nsep by (subst findheader_loop.simps) auto
    with "1.prems" obtain p' where p': "wire_nextline art p = Some p'" by (auto split: option.splits)
    show ?thesis
      by (rule "1.IH"(2) [OF len nsep False p']) (use eq p' "1.prems" line_start_next in auto)
  next
    case True
    define qo where "qo = (if strip then skip_fws_bounded art (p + length header + 2)
                  else Some (p + length header + 2))"
    have eq: "findheader_loop art header strip p = (case qo of None \<Rightarrow> None
        | Some q \<Rightarrow> if length art \<le> q + 1 \<or> octet art q \<noteq> CR \<or> octet art (q + 1) \<noteq> LF then Some q
            else (case wire_nextline art q of None \<Rightarrow> None
                  | Some p' \<Rightarrow> findheader_loop art header strip p'))"
      unfolding qo_def using len nsep True by (subst findheader_loop.simps) auto
    then obtain r where r: "qo = Some r" using "1.prems" by (cases qo) auto
    have rb: "p + length header + 2 \<le> r" "r < length art" "strip \<longrightarrow> \<not> iswhite (art ! r)"
      "\<not> strip \<longrightarrow> r = p + length header + 2"
      using r len skip_fws_bounds by (auto simp: qo_def split: if_splits)
    show ?thesis
    proof (cases "length art \<le> r + 1 \<or> octet art r \<noteq> CR \<or> octet art (r + 1) \<noteq> LF")
      case stop: True
      then have "q = r" using eq r "1.prems" by simp
      with rb True stop "1.prems" show ?thesis by (auto simp: octet_nth)
    next
      case go: False
      then have go': "findheader_loop art header strip p = (case wire_nextline art r of None \<Rightarrow> None
                  | Some p' \<Rightarrow> findheader_loop art header strip p')"
        using eq r by auto
      with "1.prems" obtain p' where p': "wire_nextline art r = Some p'" by (auto split: option.splits)
      show ?thesis
        by (rule "1.IH"(1) [OF len nsep True r [unfolded qo_def] go p'])
          (use go' p' "1.prems" line_start_next in auto)
    qed
  qed
qed

lemma endheader_loop_sound:
  "endheader_loop art po = Some e \<Longrightarrow> po = wire_nextline art h \<Longrightarrow>
   h < e \<and> e + 1 < length art \<and> art ! e = LF \<and> art ! (e - 1) = CR \<and> \<not> iswhite (art ! (e + 1))
   \<and> (\<forall>i. h \<le> i \<and> i + 1 < e \<and> art ! i = CR \<and> art ! (i + 1) = LF \<longrightarrow> iswhite (art ! (i + 2)))"
proof (induction art po arbitrary: h rule: endheader_loop.induct)
  case (1 art po)
  then obtain q where q: "po = Some q" by (subst (asm) endheader_loop.simps) (auto split: option.splits)
  with "1.prems" have nx: "wire_nextline art h = Some q" by simp
  note b = wire_nextline_bounds [OF nx]
  show ?case
  proof (cases "iswhite (octet art q)")
    case False
    then have e: "e = q - 1" using "1.prems"(1) q by (subst (asm) endheader_loop.simps) auto
    have no: "\<not> (art ! i = CR \<and> art ! (i + 1) = LF)" if "h \<le> i" "i + 1 < e" for i
      using wire_nextline_minimal [OF nx that(1)] that(2) e by simp
    from b e have "h < e" "e + 1 = q" "e - 1 = q - 2" by linarith+
    with b e no False show ?thesis by (auto simp: octet_nth)
  next
    case True
    then have *: "endheader_loop art (wire_nextline art q) = Some e"
      using "1.prems"(1) q by (subst (asm) endheader_loop.simps) auto
    have ih: "q < e \<and> e + 1 < length art \<and> art ! e = LF \<and> art ! (e - 1) = CR \<and> \<not> iswhite (art ! (e + 1))
      \<and> (\<forall>i. q \<le> i \<and> i + 1 < e \<and> art ! i = CR \<and> art ! (i + 1) = LF \<longrightarrow> iswhite (art ! (i + 2)))"
      by (rule "1.IH" [OF q _ * refl]) (use True in simp)
    have "iswhite (art ! (i + 2))" if i: "h \<le> i" "i < q" "art ! i = CR" "art ! (i + 1) = LF" for i
    proof -
      have "\<not> i + 2 < q" using wire_nextline_minimal [OF nx] i by blast
      moreover have "i \<noteq> q - 1" using b i by auto
      ultimately have "i + 2 = q" using i b by linarith
      with True b show ?thesis by (auto simp: octet_nth)
    qed
    then have "\<forall>i. h \<le> i \<and> i + 1 < e \<and> art ! i = CR \<and> art ! (i + 1) = LF \<longrightarrow> iswhite (art ! (i + 2))"
      using ih by (meson not_le_imp_less)
    moreover have "h < e" using ih b by linarith
    ultimately show ?thesis using ih by blast
  qed
qed


subsection \<open>Native and wire format\<close>

text \<open>The first pass of \<open>wire_from_native\<close> counts the octets to add, the second one copies.\<close>

fun from_native_extra :: "string \<Rightarrow> bool \<Rightarrow> nat \<Rightarrow> nat" where
  "from_native_extra [] at_start extra = extra"
| "from_native_extra (c # p) at_start extra =
     (let extra1 = (if at_start \<and> c = CHR ''.'' then extra + 1 else extra);
          at_start' = (c = LF);
          extra2 = (if at_start' then extra1 + 1 else extra1)
      in from_native_extra p at_start' extra2)"

fun from_native_copy :: "string \<Rightarrow> bool \<Rightarrow> string \<Rightarrow> string" where
  "from_native_copy [] at_start dest = dest @ [CHR ''.'', CR, LF]"
| "from_native_copy (c # p) at_start dest =
     (if c = LF then from_native_copy p True (dest @ [CR, LF])
      else from_native_copy p False
        (dest @ (if at_start \<and> c = CHR ''.'' then [CHR ''.''] else []) @ [c]))"

text \<open>The result is \<open>None\<close> for EOVERFLOW, else the size allocated and the octets written.\<close>

definition wire_from_native :: "string \<Rightarrow> (nat \<times> string) option" where
  "wire_from_native art =
     (let len = length art in
      if len > SIZE_MAX - 4 then None
      else let extra = from_native_extra art True 0 in
        if extra > SIZE_MAX - 4 - len then None
        else Some (len + extra + 3, from_native_copy art True []))"

text \<open>
  Both passes of \<open>wire_to_native\<close> walk the article with the same tests; \<open>p\<close> is the rest of the
  article, and \<open>p == end\<close> says that three octets are left.
\<close>

definition at_terminator :: "string \<Rightarrow> bool" where
  "at_terminator p \<longleftrightarrow> length p = 3 \<and> p = [CHR ''.'', CR, LF]"

fun to_native_count :: "string \<Rightarrow> bool \<Rightarrow> nat \<Rightarrow> nat" where
  "to_native_count [] at_start bytes = bytes"
| "to_native_count (c # p) at_start bytes =
     (if at_terminator (c # p) then bytes
      else if at_start \<and> p \<noteq> [] \<and> c = CHR ''.'' \<and> peek p = CHR ''.'' then
        to_native_count (tl p) False (bytes + 1)
      else if p \<noteq> [] \<and> c = CR \<and> peek p = LF then to_native_count (tl p) True (bytes + 1)
      else to_native_count p False (bytes + 1))"

fun to_native_copy :: "string \<Rightarrow> bool \<Rightarrow> string \<Rightarrow> string" where
  "to_native_copy [] at_start dest = dest"
| "to_native_copy (c # p) at_start dest =
     (if at_terminator (c # p) then dest
      else if at_start \<and> p \<noteq> [] \<and> c = CHR ''.'' \<and> peek p = CHR ''.'' then
        to_native_copy (tl p) False (dest @ [CHR ''.''])
      else if p \<noteq> [] \<and> c = CR \<and> peek p = LF then to_native_copy (tl p) True (dest @ [LF])
      else to_native_copy p False (dest @ [c]))"

definition wire_to_native :: "string \<Rightarrow> nat \<times> string" where
  "wire_to_native art =
     (if length art < 3 then (length art, art)
      else (to_native_count art True 0, to_native_copy art True []))"

lemma from_native_extra_Suc [simp]:
  "from_native_extra art s (Suc e) = Suc (from_native_extra art s e)"
  by (induction art arbitrary: s e) (auto simp: Let_def)

lemma to_native_count_Suc [simp]: "to_native_count art s (Suc b) = Suc (to_native_count art s b)"
  by (induction art s b rule: to_native_count.induct) auto

lemma from_native_length:
  "length (from_native_copy art s dest) + e = length dest + length art + from_native_extra art s e + 3"
  by (induction art s dest rule: from_native_copy.induct) (auto simp: Let_def)

lemma from_native_copy_append: "from_native_copy art s (d @ e) = d @ from_native_copy art s e"
  by (induction art arbitrary: s e) auto

lemma to_native_copy_append: "to_native_copy art s (d @ e) = d @ to_native_copy art s e"
  by (induction art s e rule: to_native_copy.induct) auto

lemma from_native_copy_Nil [simp]: "from_native_copy [] s [] = [CHR ''.'', CR, LF]"
  by simp

lemma from_native_copy_Cons:
  "from_native_copy (c # p) s [] =
     (if c = LF then CR # LF # from_native_copy p True []
      else if s \<and> c = CHR ''.'' then CHR ''.'' # CHR ''.'' # from_native_copy p False []
      else c # from_native_copy p False [])"
  using from_native_copy_append [of p True "[CR, LF]" "[]"]
    from_native_copy_append [of p False "[c]" "[]"]
    from_native_copy_append [of p False "[CHR ''.'', CHR ''.'']" "[]"] by simp

lemma to_native_count_length:
  "to_native_count art s b + length dest = length (to_native_copy art s dest) + b"
  by (induction art s dest rule: to_native_copy.induct) auto

lemma from_native_nonempty:
  "from_native_copy p s [] \<noteq> []" "3 \<le> length (from_native_copy p s [])"
  using from_native_length [of p s "[]" 0] by auto


lemma peek_from_native: "peek (from_native_copy p s []) \<noteq> LF"
  by (cases p) (auto simp: from_native_copy_Cons simp del: from_native_copy.simps(2))

lemma not_terminator_long: "3 < length w \<Longrightarrow> \<not> at_terminator w"
  by (simp add: at_terminator_def)

lemma to_native_copy_cons: "to_native_copy w s [c] = c # to_native_copy w s []"
  using to_native_copy_append [of w s "[c]" "[]"] by simp

lemma to_native_from_native: "to_native_copy (from_native_copy p s []) s [] = p"
proof (induction p arbitrary: s)
  case (Cons c p)
  have len: "3 \<le> length (from_native_copy p b [])" for b by (rule from_native_nonempty)
  have ne: "from_native_copy p b [] \<noteq> []" for b by (rule from_native_nonempty)
  show ?case
    using len [of True] len [of False] ne peek_from_native [of p False] Cons.IH
    by (auto simp: from_native_copy_Cons to_native_copy_cons not_terminator_long
        simp del: from_native_copy.simps(2))
qed (simp add: at_terminator_def)

definition EOT :: string where "EOT = [CR, LF, CHR ''.'', CR, LF]"

lemma from_native_first_terminator:
  "take 3 (from_native_copy p True []) = [CHR ''.'', CR, LF] \<Longrightarrow> p = []"
  by (cases p) (auto simp: from_native_copy_Cons simp del: from_native_copy.simps(2) split: if_splits)

lemma from_native_EOT_last:
  "take 5 (drop i (from_native_copy p s [])) = EOT \<Longrightarrow> i + 5 = length (from_native_copy p s [])"
proof (induction p arbitrary: s i)
  case Nil
  then show ?case by (cases i) (auto simp: EOT_def take_Cons' drop_Cons' split: if_splits)
next
  case (Cons c p)
  note eq = from_native_copy_Cons [of c p s]
  have fst: "take 3 w = [CHR ''.'', CR, LF]" if "take 5 (CR # LF # w) = EOT" for w
    using that by (simp add: EOT_def)
  consider "c = LF" | "c \<noteq> LF" "s \<and> c = CHR ''.''" | "c \<noteq> LF" "\<not> (s \<and> c = CHR ''.'')" by blast
  then show ?case
  proof cases
    case 1
    consider "i = 0" | "i = 1" | j where "i = Suc (Suc j)" by (metis One_nat_def not0_implies_Suc)
    then show ?thesis
    proof cases
      case a: 1
      with 1 Cons.prems have "p = []"
        using eq by (intro from_native_first_terminator fst) simp
      with 1 a show ?thesis by simp
    qed (use 1 Cons in \<open>auto simp add: from_native_copy_Cons EOT_def simp del: from_native_copy.simps(2)\<close>)
  next
    case 2
    consider "i = 0" | "i = 1" | j where "i = Suc (Suc j)" by (metis One_nat_def not0_implies_Suc)
    then show ?thesis
      by cases (use 2 Cons in \<open>auto simp add: from_native_copy_Cons EOT_def simp del: from_native_copy.simps(2)\<close>)
  next
    case 3
    consider "i = 0" | j where "i = Suc j" by (metis not0_implies_Suc)
    then show ?thesis
    proof cases
      case a: 1
      have "peek (from_native_copy p False []) = LF"
        using Cons.prems a 3 by (cases "from_native_copy p False []")
          (auto simp: eq EOT_def simp del: from_native_copy.simps(2))
      with peek_from_native show ?thesis by blast
    next
      case 2
      with 3 Cons.prems have "take 5 (drop j (from_native_copy p False [])) = EOT"
        by (auto simp: eq simp del: from_native_copy.simps(2))
      from Cons.IH [OF this] 2 3 show ?thesis by (auto simp: eq simp del: from_native_copy.simps(2))
    qed
  qed
qed


lemma wire_from_native_Some:
  "wire_from_native art = Some (n, w) \<Longrightarrow> w = from_native_copy art True [] \<and> n = length w"
  using from_native_length [of art True "[]" 0]
  by (auto simp: wire_from_native_def Let_def split: if_splits)

lemma wire_to_native_count: "wire_to_native w = (n, a) \<Longrightarrow> n = length a"
  using to_native_count_length [of w True 0 "[]"]
  by (auto simp: wire_to_native_def split: if_splits)

subsection \<open>The separator between headers and body\<close>

definition sep_at :: "string \<Rightarrow> nat \<Rightarrow> bool" where
  "sep_at art i \<longleftrightarrow> take 4 (drop i art) = [CR, LF, CR, LF]"

lemma sep_at_D:
  assumes "sep_at art i" shows "i + 4 \<le> length art" "art ! i = CR"
proof -
  have l: "length (take 4 (drop i art)) = 4" using assms by (simp add: sep_at_def)
  then show "i + 4 \<le> length art" by simp
  have "take 4 (drop i art) ! 0 = CR" using assms by (simp add: sep_at_def)
  then show "art ! i = CR" using l by simp
qed

lemma findbody_loop_Some:
  "findbody_loop art p = Some b \<Longrightarrow>
     p + 4 \<le> b \<and> sep_at art (b - 4) \<and> (\<forall>i. p \<le> i \<and> i < b - 4 \<longrightarrow> \<not> sep_at art i)"
proof (induction art p rule: findbody_loop.induct)
  case (1 art p)
  then obtain q where q: "4 \<le> length art - p" "memchr_from art p CR (length art - p - 3) = Some q"
    by (subst (asm) findbody_loop.simps) (auto split: if_splits option.splits)
  note b = memchr_from_Some [OF q(2)]
  have before: "\<not> sep_at art i" if "p \<le> i" "i < q" for i
    using b(5) that sep_at_D(2) [of art i] by auto
  show ?case
  proof (cases "take 4 (drop q art) = [CR, LF, CR, LF]")
    case True
    then have "b = q + 4" using "1.prems" q by (simp add: findbody_loop.simps [of art p])
    with True before b show ?thesis by (simp add: sep_at_def)
  next
    case False
    then have "findbody_loop art (q + 1) = Some b"
      using "1.prems" q by (simp add: findbody_loop.simps [of art p])
    from "1.IH" [OF q False this] have ih: "q + 1 + 4 \<le> b" "sep_at art (b - 4)"
      "\<forall>i. q + 1 \<le> i \<and> i < b - 4 \<longrightarrow> \<not> sep_at art i" by auto
    have "\<not> sep_at art i" if "p \<le> i" "i < b - 4" for i
      using before ih(3) False that by (metis Suc_eq_plus1 le_eq_less_or_eq not_less_eq_eq sep_at_def
          not_le_imp_less)
    with ih b show ?thesis by auto
  qed
qed

lemma findbody_loop_None:
  "findbody_loop art p = None \<Longrightarrow> p \<le> i \<Longrightarrow> \<not> sep_at art i"
proof (induction art p rule: findbody_loop.induct)
  case (1 art p)
  show ?case
  proof
    assume s: "sep_at art i"
    note D = sep_at_D [OF s]
    have len: "4 \<le> length art - p" using D "1.prems" by linarith
    show False
    proof (cases "memchr_from art p CR (length art - p - 3)")
      case None
      have "i < p + (length art - p - 3)" "i < length art" using D "1.prems"(2) by linarith+
      with memchr_from_None [OF None "1.prems"(2)] D show False by blast
    next
      case (Some q)
      note b = memchr_from_Some [OF Some]
      have f: "take 4 (drop q art) \<noteq> [CR, LF, CR, LF]" "findbody_loop art (q + 1) = None"
        using "1.prems"(1) len Some by (auto simp: findbody_loop.simps [of art p] split: if_splits)
      have "\<not> i < q" using b(5) D "1.prems"(2) by blast
      moreover have "i \<noteq> q" using f s by (auto simp: sep_at_def)
      ultimately have "q + 1 \<le> i" by linarith
      with "1.IH" [OF len Some f(1) f(2)] s show False by blast
    qed
  qed
qed

subsection \<open>Properties\<close>

text \<open>C3: Converting a native article to wire format and back gives the article, and both passes of
  each conversion agree: the octets written are as many as were allocated and reported.\<close>

theorem wire_native_roundtrip:
  assumes "wire_from_native art = Some (n, w)"
  shows "n = length w \<and> wire_to_native w = (length art, art)"
proof -
  have w: "w = from_native_copy art True []" "n = length w"
    using wire_from_native_Some [OF assms] by auto
  have "wire_to_native w = (to_native_count w True 0, art)"
    using from_native_nonempty(2) [of art True] w(1) to_native_from_native
    by (simp add: wire_to_native_def)
  with wire_to_native_count [OF this] w show ?thesis by simp
qed

theorem wire_native_roundtrip_witness:
  "wire_to_native [CHR ''a'', CR, LF, CHR ''.'', CHR ''.'', CHR ''b'', CR, LF, CHR ''.'', CR, LF]
     = (5, [CHR ''a'', LF, CHR ''.'', CHR ''b'', LF])"
proof -
  have "wire_from_native [CHR ''a'', LF, CHR ''.'', CHR ''b'', LF] = Some (11,
     [CHR ''a'', CR, LF, CHR ''.'', CHR ''.'', CHR ''b'', CR, LF, CHR ''.'', CR, LF])"
    by (simp add: wire_from_native_def SIZE_MAX_def)
  from wire_native_roundtrip [OF this] show ?thesis by simp
qed

text \<open>C4: Dot-stuffing is safe: in the wire form of any article the end-of-article marker, a dot
  alone on a line, occurs only as the last five octets, so that a peer never ends the article
  early.\<close>

theorem wire_terminator_unique:
  assumes "wire_from_native art = Some (n, w)" and "take 5 (drop i w) = EOT"
  shows "i + 5 = n"
  using assms from_native_EOT_last wire_from_native_Some by blast

theorem wire_terminator_unique_witness:
  "take 5 (drop 1 [CHR ''x'', CR, LF, CHR ''.'', CR, LF]) = EOT \<and> 1 + 5 = (6::nat)"
proof -
  have w: "wire_from_native [CHR ''x'', LF] = Some (6, [CHR ''x'', CR, LF, CHR ''.'', CR, LF])"
    by (simp add: wire_from_native_def SIZE_MAX_def)
  have e: "take 5 (drop 1 [CHR ''x'', CR, LF, CHR ''.'', CR, LF]) = EOT" by (simp add: EOT_def)
  show ?thesis by (intro conjI e wire_terminator_unique [OF w e])
qed





end
