(* ===== verification/Encode.thy ===== *)
theory Encode
  imports Inn_Prelude
begin

text \<open>
  Textual encodings: hexadecimal (\<^verbatim>\<open>lib/hex.c\<close>), the text of message-ID hashes
  (\<^verbatim>\<open>lib/hash.c\<close>) and of storage tokens (\<^verbatim>\<open>storage/interface.c\<close>), base-32
  numbers (\<^verbatim>\<open>lib/radix32.c\<close>), article numbers and ranges (\<^verbatim>\<open>lib/artnumber.c\<close>)
  and sequence-space comparison (\<^verbatim>\<open>lib/sequence.c\<close>).
  The locale \<open>text_codec\<close> is the contract of an encoder and its decoder; hashes and tokens are
  its two instances.
\<close>

unbundle bit_operations_syntax

subsection \<open>The contract of an encoder and its decoder\<close>

locale text_codec =
  fixes enc :: "'a \<Rightarrow> string" and dec :: "string \<Rightarrow> 'a"
    and wf :: "'a \<Rightarrow> bool" and size_enc :: nat
  assumes dec_enc: "wf x \<Longrightarrow> dec (enc x) = x"
    and length_enc: "wf x \<Longrightarrow> length (enc x) = size_enc"
    and graph_enc: "wf x \<Longrightarrow> c \<in> set (enc x) \<Longrightarrow> isgraph c"
begin

lemma enc_inj: "wf x \<Longrightarrow> wf y \<Longrightarrow> enc x = enc y \<longleftrightarrow> x = y"
  by (metis dec_enc)

lemma enc_no_nul: "wf x \<Longrightarrow> NUL \<notin> set (enc x)"
  using graph_enc NUL_classes(6) by blast

lemma enc_no_sep: "wf x \<Longrightarrow> c \<in> set (enc x) \<Longrightarrow> c \<noteq> HT \<and> c \<noteq> LF \<and> c \<noteq> SP"
  using graph_enc [of x c] by (auto simp: isgraph_def)

end

subsection \<open>Hexadecimal\<close>

definition hexdigits :: string where "hexdigits = ''0123456789ABCDEF''"

definition hi_digit :: "char \<Rightarrow> char" where
  "hi_digit c = hexdigits ! drop_bit 4 (byte c AND 0xF0)"

definition lo_digit :: "char \<Rightarrow> char" where
  "lo_digit c = hexdigits ! (byte c AND 0x0F)"

text \<open>\<open>room\<close> is \<open>buflen - 1 - output\<close>, the octets still free in front of the nul.\<close>

fun encode_hex_loop :: "string \<Rightarrow> nat \<Rightarrow> string" where
  "encode_hex_loop [] room = []"
| "encode_hex_loop (c # d) 0 = []"
| "encode_hex_loop (c # d) (Suc room) =
     hi_digit c # (if 0 < room then lo_digit c # encode_hex_loop d (room - 1)
                   else encode_hex_loop d room)"

definition inn_encode_hex :: "string \<Rightarrow> nat \<Rightarrow> string option" where
  "inn_encode_hex data buflen = (if buflen = 0 then None else Some (encode_hex_loop data (buflen - 1)))"

definition hex_part :: "char \<Rightarrow> nat option" where
  "hex_part c =
     (if CHR ''0'' \<le> c \<and> c \<le> CHR ''9'' then Some (byte c - byte CHR ''0'')
      else if CHR ''A'' \<le> c \<and> c \<le> CHR ''F'' then Some (byte c - byte CHR ''A'' + 10)
      else if CHR ''a'' \<le> c \<and> c \<le> CHR ''f'' then Some (byte c - byte CHR ''a'' + 10)
      else None)"

function decode_hex_loop :: "string \<Rightarrow> nat \<Rightarrow> string \<Rightarrow> string" where
  "decode_hex_loop data i buffer =
     (if i div 2 < length buffer then
        (case hex_part (peek data) of
           None \<Rightarrow> buffer
         | Some part \<Rightarrow>
             let part' = (if i mod 2 = 0 then push_bit 4 part else part);
                 old = byte (buffer ! (i div 2))
             in decode_hex_loop (tl data) (i + 1)
                  (buffer[i div 2 := char_of (old OR part')]))
      else buffer)"
  by pat_completeness auto
termination
  by (relation "measure (\<lambda>(data, i, buffer). 2 * length buffer - i)") (auto simp: Let_def)

declare decode_hex_loop.simps [simp del]

definition inn_decode_hex :: "string \<Rightarrow> nat \<Rightarrow> string" where
  "inn_decode_hex data buflen =
     (if buflen = 0 then [] else decode_hex_loop data 0 (replicate buflen NUL))"

text \<open>Arithmetic of the two digits of an octet.\<close>

lemma less_16_cases:
  "k < (16::nat) \<Longrightarrow> k = 0 \<or> k = 1 \<or> k = 2 \<or> k = 3 \<or> k = 4 \<or> k = 5 \<or> k = 6 \<or> k = 7 \<or> k = 8
     \<or> k = 9 \<or> k = 10 \<or> k = 11 \<or> k = 12 \<or> k = 13 \<or> k = 14 \<or> k = 15"
  by presburger

lemma hexdigit_part:
  assumes "k < 16"
  shows "hex_part (hexdigits ! k) = Some k" "isxdigit (hexdigits ! k)" "\<not> islower (hexdigits ! k)"
  using less_16_cases [OF assms]
  by (elim disjE; simp add: hexdigits_def hex_part_def less_eq_char_def ctype)+

lemma hi_index: "drop_bit 4 (byte c AND 0xF0) = byte c div 16"
proof -
  have "drop_bit 4 (byte c AND 0xF0) = drop_bit 4 (byte c) AND 0xF"
    by (simp add: drop_bit_and)
  also have "\<dots> = drop_bit 4 (byte c) mod 16"
    using take_bit_eq_mask [of 4 "drop_bit 4 (byte c)"] by (simp add: take_bit_eq_mod mask_eq_exp_minus_1)
  finally show ?thesis using byte_less [of c] by (simp add: drop_bit_eq_div)
qed

lemma lo_index: "byte c AND 0x0F = byte c mod 16"
  using take_bit_eq_mask [of 4 "byte c"] by (simp add: take_bit_eq_mod mask_eq_exp_minus_1)

lemma digits_or: "l < 16 \<Longrightarrow> push_bit 4 h OR l = 16 * h + (l::nat)"
proof -
  assume l: "l < 16"
  have "push_bit 4 h AND l = 0"
  proof (rule bit_eqI)
    fix n
    show "bit (push_bit 4 h AND l) n = bit 0 n"
    proof (cases "n < 4")
      case False
      then have "l div 2 ^ n = 0" using l power_increasing [of 4 n "2::nat"] by simp
      then show ?thesis by (simp add: bit_and_iff bit_iff_odd [of l])
    qed (simp add: bit_and_iff bit_push_bit_iff)
  qed
  then show ?thesis by (simp add: disjunctive_add_eq_or [symmetric] push_bit_eq_mult)
qed

lemma byte_div_16: "byte c div 16 < 16"
  using byte_less [of c] by (intro less_mult_imp_div_less) linarith

lemma octet_digits:
  "hex_part (hi_digit c) = Some (byte c div 16)" "hex_part (lo_digit c) = Some (byte c mod 16)"
  "char_of (byte (char_of (push_bit 4 (byte c div 16))) OR byte c mod 16) = c"
proof -
  note d = byte_div_16 [of c]
  then show "hex_part (hi_digit c) = Some (byte c div 16)"
    unfolding hi_digit_def hi_index by (rule hexdigit_part)
  show "hex_part (lo_digit c) = Some (byte c mod 16)"
    unfolding lo_digit_def lo_index by (rule hexdigit_part) simp
  have "byte (char_of (push_bit 4 (byte c div 16))) = push_bit 4 (byte c div 16)"
    using d by (intro byte_char_of) (simp add: push_bit_eq_mult)
  then show "char_of (byte (char_of (push_bit 4 (byte c div 16))) OR byte c mod 16) = c"
    by (simp add: digits_or)
qed

lemma digit_classes:
  "isxdigit (hi_digit c)" "isxdigit (lo_digit c)" "\<not> islower (hi_digit c)" "\<not> islower (lo_digit c)"
  unfolding hi_digit_def lo_digit_def hi_index lo_index
  using byte_div_16 [of c] by (simp_all add: hexdigit_part)


fun hex_text :: "string \<Rightarrow> string" where
  "hex_text [] = []"
| "hex_text (c # d) = hi_digit c # lo_digit c # hex_text d"

lemma length_hex_text [simp]: "length (hex_text d) = 2 * length d"
  by (induction d) auto

lemma encode_hex_loop_full:
  "2 * length d \<le> room \<Longrightarrow> encode_hex_loop d room = hex_text d"
proof (induction d arbitrary: room)
  case (Cons c d)
  then obtain r where r: "room = Suc (Suc r)"
    by (intro that [of "room - 2"]) simp
  with Cons show ?case by simp
qed simp

lemma hex_text_classes:
  "c \<in> set (hex_text d) \<Longrightarrow> isxdigit c \<and> \<not> islower c"
  by (induction d) (auto simp: digit_classes)

lemma isxdigit_isgraph: "isxdigit c \<Longrightarrow> isgraph c"
  by (auto simp: ctype)

lemma decode_hex_step:
  assumes "length done = k"
  shows "decode_hex_loop (hi_digit c # lo_digit c # t) (2 * k) (done @ NUL # rest')
    = decode_hex_loop t (2 * (k + 1)) (done @ c # rest')"
proof -
  have "decode_hex_loop (hi_digit c # lo_digit c # t) (2 * k) (done @ NUL # rest')
      = decode_hex_loop (lo_digit c # t) (2 * k + 1)
          (done @ char_of (push_bit 4 (byte c div 16)) # rest')"
    using assms by (subst decode_hex_loop.simps) (simp add: octet_digits Let_def list_update_append nth_append)
  also have "\<dots> = decode_hex_loop t (2 * (k + 1)) (done @ c # rest')"
    using assms octet_digits(3) [of c]
    by (subst decode_hex_loop.simps)
      (simp add: octet_digits(2) Let_def list_update_append nth_append)
  finally show ?thesis .
qed

lemma decode_hex_text:
  "decode_hex_loop (hex_text d) (2 * length done) (done @ replicate (length d) NUL) = done @ d"
proof (induction d arbitrary: "done")
  case Nil
  show ?case by (simp add: decode_hex_loop.simps)
next
  case (Cons c d)
  show ?case
    using decode_hex_step [of "done" "length done" c "hex_text d" "replicate (length d) NUL"]
      Cons [of "done @ [c]"] by simp
qed

lemma inn_decode_hex_text: "inn_decode_hex (hex_text d) (length d) = d"
  using decode_hex_text [of d "[]"] by (simp add: inn_decode_hex_def)

subsection \<open>Hash text\<close>

text \<open>A \<^verbatim>\<open>HASH\<close> is the list of its 16 octets.\<close>

type_synonym hash = string

definition wf_hash :: "hash \<Rightarrow> bool" where
  "wf_hash h \<longleftrightarrow> length h = 16"

definition HashToText :: "hash \<Rightarrow> string" where
  "HashToText h = (case inn_encode_hex h (16 * 2 + 1) of None \<Rightarrow> [] | Some s \<Rightarrow> s)"

definition TextToHash :: "string \<Rightarrow> hash" where
  "TextToHash s = inn_decode_hex s 16"

definition HashEmpty :: "hash \<Rightarrow> bool" where
  "HashEmpty h \<longleftrightarrow> h = replicate 16 NUL"

definition HashClear :: "hash \<Rightarrow> hash" where
  "HashClear h = replicate 16 NUL"

text \<open>The sign of \<open>memcmp\<close> over the first \<open>n\<close> octets.\<close>

fun memcmp :: "string \<Rightarrow> string \<Rightarrow> int" where
  "memcmp (a # x) (b # y) = (if a = b then memcmp x y else if a < b then -1 else 1)"
| "memcmp _ _ = 0"

definition HashCompare :: "hash \<Rightarrow> hash \<Rightarrow> int" where
  "HashCompare h1 h2 =
     (let tocomp = 16 - 8; i = memcmp (drop tocomp h1) (drop tocomp h1) in
      if i \<noteq> 0 then i else memcmp h1 h2)"

lemma HashToText_hex: "wf_hash h \<Longrightarrow> HashToText h = hex_text h"
  by (simp add: HashToText_def inn_encode_hex_def encode_hex_loop_full wf_hash_def)

interpretation hash_text: text_codec HashToText TextToHash wf_hash 32
proof
  fix h c
  assume wf: "wf_hash h"
  then show "TextToHash (HashToText h) = h"
    using inn_decode_hex_text [of h] by (simp add: HashToText_hex TextToHash_def wf_hash_def)
  show "length (HashToText h) = 32"
    using wf by (simp add: HashToText_hex wf_hash_def)
  show "c \<in> set (HashToText h) \<Longrightarrow> isgraph c"
    using wf by (auto simp: HashToText_hex dest!: hex_text_classes intro: isxdigit_isgraph)
qed

lemma memcmp_refl [simp]: "memcmp h h = 0"
  by (induction h) auto

lemma HashCompare_memcmp: "HashCompare h1 h2 = memcmp h1 h2"
  by (simp add: HashCompare_def)


subsection \<open>Storage tokens\<close>

record token =
  tok_type :: char
  tok_class :: char
  tok_octets :: string

definition wf_token :: "token \<Rightarrow> bool" where
  "wf_token t \<longleftrightarrow> length (tok_octets t) = 16"

text \<open>The octets of the C structure, in memory order, and back.\<close>

definition token_octets :: "token \<Rightarrow> string" where
  "token_octets t = tok_type t # tok_class t # tok_octets t"

definition octets_token :: "string \<Rightarrow> token" where
  "octets_token q = \<lparr>tok_type = peek q, tok_class = peek (tl q), tok_octets = drop 2 q\<rparr>"

definition SIZEOF_TOKEN :: nat where "SIZEOF_TOKEN = 18"

definition IsToken :: "string option \<Rightarrow> bool" where
  "IsToken s =
     (case s of None \<Rightarrow> False
      | Some txt \<Rightarrow>
        if length txt \<noteq> SIZEOF_TOKEN * 2 + 2 then False
        else if peek txt \<noteq> CHR ''@'' then False
        else if length (takeWhile (\<lambda>c. c \<noteq> CHR ''@'') (tl txt)) \<noteq> SIZEOF_TOKEN * 2 then False
        else list_all (\<lambda>c. isxdigit c \<and> toupper c = c) (takeWhile (\<lambda>c. c \<noteq> CHR ''@'') (tl txt)))"

definition TokenToText :: "token \<Rightarrow> string" where
  "TokenToText t = ''@'' @ hex_text (token_octets t) @ ''@''"

definition hextodec :: "char \<Rightarrow> nat" where
  "hextodec c = (if isdigit c then byte c - byte CHR ''0''
     else (byte (toupper c) - byte CHR ''A'') + 10)"

fun text_octets :: "nat \<Rightarrow> string \<Rightarrow> string" where
  "text_octets 0 p = []"
| "text_octets (Suc n) p =
     char_of (push_bit 4 (hextodec (peek p)) + hextodec (peek (tl p))) # text_octets n (drop 2 p)"

definition TextToToken :: "string \<Rightarrow> token" where
  "TextToToken txt =
     (if \<not> IsToken (Some txt) then octets_token (replicate SIZEOF_TOKEN NUL)
      else octets_token (text_octets SIZEOF_TOKEN (tl txt)))"

lemma hextodec_digit:
  assumes "k < 16" shows "hextodec (hexdigits ! k) = k"
  using less_16_cases [OF assms]
  by (elim disjE; simp add: hexdigits_def hextodec_def toupper_def ctype)+

lemma xdigit_hexdigit:
  assumes "isxdigit c" "toupper c = c"
  shows "\<exists>k < 16. c = hexdigits ! k"
proof -
  have "\<not> islower c"
  proof
    assume l: "islower c"
    then have "byte (toupper c) = byte c - 32"
      unfolding toupper_def by (simp del: byte_inject) (rule byte_char_of, use byte_less [of c] in linarith)
    with assms(2) have "byte c = byte c - 32" by simp
    with l show False unfolding islower_def by linarith
  qed
  with assms(1) consider "48 \<le> byte c" "byte c \<le> 57" | "65 \<le> byte c" "byte c \<le> 70"
    by (auto simp: ctype)
  then show ?thesis
  proof cases
    case 1
    then have "byte c - 48 < 16" "char_of (48 + (byte c - 48)) = c" by (simp, metis char_of_byte le_add_diff_inverse)
    moreover have "hexdigits ! k = char_of (48 + k)" if "k \<le> 9" for k
    proof -
      have "k < 16" using that by simp
      from less_16_cases [OF this] that show ?thesis
        by (elim disjE; simp add: hexdigits_def char_of_def bit_Suc_0_iff)
    qed
    ultimately show ?thesis using 1 by (intro exI [of _ "byte c - 48"]) auto
  next
    case 2
    have "hexdigits ! (byte c - 55) = c"
    proof -
      have k: "byte c = 55 + (byte c - 55)" "byte c - 55 < 16" "10 \<le> byte c - 55"
        using 2 by linarith+
      have "byte (hexdigits ! k) = 55 + k" if "10 \<le> k" "k < 16" for k
        using less_16_cases [OF that(2)] that(1) by (elim disjE; simp add: hexdigits_def)
      from this [OF k(3,2)] k(1) have "byte (hexdigits ! (byte c - 55)) = byte c" by linarith
      then show ?thesis by simp
    qed
    moreover have "byte c - 55 < 16" using 2 by linarith
    ultimately show ?thesis by (intro exI [of _ "byte c - 55"]) simp
  qed
qed

lemma takeWhile_hex: "takeWhile (\<lambda>c. c \<noteq> CHR ''@'') (hex_text d @ CHR ''@'' # r) = hex_text d"
proof -
  have "\<forall>c \<in> set (hex_text d). c \<noteq> CHR ''@''"
    by (auto dest!: hex_text_classes simp: ctype)
  then show ?thesis by (simp add: takeWhile_append2)
qed

lemma toupper_not_lower: "\<not> islower c \<Longrightarrow> toupper c = c"
  by (simp add: toupper_def)

lemma IsToken_TokenToText: "wf_token t \<Longrightarrow> IsToken (Some (TokenToText t))"
  by (auto simp: IsToken_def TokenToText_def SIZEOF_TOKEN_def token_octets_def wf_token_def
      takeWhile_hex list_all_iff toupper_not_lower digit_classes dest!: hex_text_classes
      simp del: hex_text.simps)

lemma text_octets_hex: "text_octets (length d) (hex_text d @ r) = d"
proof (induction d)
  case (Cons c d)
  have "hextodec (hi_digit c) = byte c div 16" "hextodec (lo_digit c) = byte c mod 16"
    unfolding hi_digit_def lo_digit_def hi_index lo_index
    by (rule hextodec_digit; simp add: byte_div_16)+
  with Cons show ?case by (simp add: push_bit_eq_mult)
qed simp

lemma octets_token_inverse: "octets_token (token_octets t) = t"
  by (simp add: octets_token_def token_octets_def)

lemma TextToToken_TokenToText: "wf_token t \<Longrightarrow> TextToToken (TokenToText t) = t"
proof -
  assume wf: "wf_token t"
  then have "length (token_octets t) = SIZEOF_TOKEN"
    by (simp add: token_octets_def wf_token_def SIZEOF_TOKEN_def)
  then have "text_octets SIZEOF_TOKEN (tl (TokenToText t)) = token_octets t"
    using text_octets_hex [of "token_octets t" "''@''"] by (simp add: TokenToText_def)
  then show ?thesis
    using IsToken_TokenToText [OF wf] by (simp add: TextToToken_def octets_token_inverse)
qed

interpretation token_text: text_codec TokenToText TextToToken wf_token 38
proof
  fix t c
  assume wf: "wf_token t"
  then show "TextToToken (TokenToText t) = t" by (rule TextToToken_TokenToText)
  show "length (TokenToText t) = 38"
    using wf by (simp add: TokenToText_def token_octets_def wf_token_def)
  show "c \<in> set (TokenToText t) \<Longrightarrow> isgraph c"
    by (auto simp: TokenToText_def isgraph_def [of "CHR ''@''"]
        dest!: hex_text_classes intro: isxdigit_isgraph)
qed


lemma octet_of_digits:
  assumes "a < 16" "b < 16"
  shows "hi_digit (char_of (push_bit 4 a + b)) = hexdigits ! a"
    "lo_digit (char_of (push_bit 4 a + b)) = hexdigits ! b"
proof -
  have "push_bit 4 a + b < 256" using assms by (simp add: push_bit_eq_mult)
  then have "byte (char_of (push_bit 4 a + b)) = 16 * a + b"
    by (simp only: byte_char_of) (simp add: push_bit_eq_mult)
  with assms show "hi_digit (char_of (push_bit 4 a + b)) = hexdigits ! a"
    "lo_digit (char_of (push_bit 4 a + b)) = hexdigits ! b"
    unfolding hi_digit_def lo_digit_def hi_index lo_index by simp_all
qed

lemma hex_text_text_octets:
  "length u = 2 * n \<Longrightarrow> list_all (\<lambda>c. isxdigit c \<and> toupper c = c) u \<Longrightarrow> hex_text (text_octets n u) = u"
proof (induction n arbitrary: u)
  case (Suc n)
  then obtain x y v where u: "u = x # y # v"
    by (metis (no_types, lifting) Suc_length_conv mult_Suc_right add_2_eq_Suc)
  with Suc.prems have v: "length v = 2 * n" "list_all (\<lambda>c. isxdigit c \<and> toupper c = c) v"
    and "isxdigit x" "toupper x = x" "isxdigit y" "toupper y = y"
    by simp_all
  then obtain a b where "a < 16" "x = hexdigits ! a" "b < 16" "y = hexdigits ! b"
    using xdigit_hexdigit [of x] xdigit_hexdigit [of y] by blast
  with u Suc.IH [OF v] show ?case by (simp add: hextodec_digit octet_of_digits)
qed simp

lemma length_text_octets [simp]: "length (text_octets n p) = n"
  by (induction n arbitrary: p) auto

lemma IsToken_cases:
  assumes "IsToken (Some s)"
  shows "\<exists>t. wf_token t \<and> s = TokenToText t"
proof -
  define u where "u = takeWhile (\<lambda>c. c \<noteq> CHR ''@'') (tl s)"
  from assms have s: "length s = 38" "peek s = CHR ''@''" "length u = 36"
    "list_all (\<lambda>c. isxdigit c \<and> toupper c = c) u"
    by (auto simp: IsToken_def SIZEOF_TOKEN_def u_def split: if_splits)
  have "tl s = u @ dropWhile (\<lambda>c. c \<noteq> CHR ''@'') (tl s)" by (simp add: u_def)
  moreover have len: "length (dropWhile (\<lambda>c. c \<noteq> CHR ''@'') (tl s)) = 1"
    using s(1,3) arg_cong [OF calculation, of length] by simp
  then obtain x where x: "dropWhile (\<lambda>c. c \<noteq> CHR ''@'') (tl s) = [x]"
    by (metis One_nat_def Suc_length_conv length_0_conv)
  then have "x = CHR ''@''" using hd_dropWhile [of "\<lambda>c. c \<noteq> CHR ''@''" "tl s"] by simp
  ultimately have "s = CHR ''@'' # u @ ''@''" using s(1,2) x by (cases s) auto
  moreover have "u = hex_text (text_octets 18 u)"
    using hex_text_text_octets [of u 18] s by simp
  moreover define t where "t = octets_token (text_octets 18 u)"
  have "wf_token t" "token_octets t = text_octets 18 u"
    by (simp_all add: t_def wf_token_def octets_token_def token_octets_def numeral_eq_Suc)
  ultimately show ?thesis by (intro exI [of _ t]) (simp add: TokenToText_def)
qed

subsection \<open>Base-32 numbers\<close>

definition radix_alphabet :: string where "radix_alphabet = ''0123456789abcdefghijklmnopqrstuv''"

function radix32_rev :: "nat \<Rightarrow> string" where
  "radix32_rev l = (if l = 0 then [] else radix_alphabet ! (l AND 31) # radix32_rev (drop_bit 5 l))"
  by pat_completeness auto
termination by (relation "measure id") (auto simp: drop_bit_eq_div)

declare radix32_rev.simps [simp del]

definition Radix32 :: "u64 \<Rightarrow> string" where
  "Radix32 l =
     (let l' = unat (l AND 0xFFFFFFFF) in
      if l' = 0 then [radix_alphabet ! 0] else rev (radix32_rev l'))"

definition alphabet_index :: "char \<Rightarrow> nat option" where
  "alphabet_index c =
     (let k = length (takeWhile (\<lambda>x. x \<noteq> c) radix_alphabet) in
      if k < length radix_alphabet then Some k else None)"

text \<open>\<open>DecodeRadix32\<close>, compiled in debugging builds only.\<close>

fun decode_radix32_loop :: "string \<Rightarrow> u64 \<Rightarrow> u64" where
  "decode_radix32_loop [] l = l"
| "decode_radix32_loop (c # p) l =
     (case alphabet_index c of None \<Rightarrow> - 1
      | Some k \<Rightarrow> decode_radix32_loop p (push_bit 6 l + of_nat k))"

definition DecodeRadix32 :: "string \<Rightarrow> u64" where
  "DecodeRadix32 p = decode_radix32_loop p 0"

fun radix_value :: "string \<Rightarrow> nat" where
  "radix_value [] = 0"
| "radix_value (c # p) = the (alphabet_index c) + 32 * radix_value p"

lemma and_31: "(l::nat) AND 31 = l mod 32"
  using take_bit_eq_mask [of 5 l] by (simp add: take_bit_eq_mod mask_eq_exp_minus_1)

lemma radix_alphabet_facts:
  "distinct radix_alphabet" "length radix_alphabet = 32" "\<forall>c \<in> set radix_alphabet. isalpha c \<or> isdigit c"
  by (simp_all add: radix_alphabet_def ctype)

lemma alphabet_index_nth: "k < 32 \<Longrightarrow> alphabet_index (radix_alphabet ! k) = Some k"
proof -
  assume k: "k < 32"
  have "takeWhile (\<lambda>x. x \<noteq> radix_alphabet ! k) radix_alphabet = take k radix_alphabet"
    using k radix_alphabet_facts
    by (intro takeWhile_eq_take_P_nth) (auto simp: nth_eq_iff_index_eq)
  with k show ?thesis by (simp add: alphabet_index_def radix_alphabet_facts)
qed

lemma radix32_rev_facts:
  "radix_value (radix32_rev l) = l" "set (radix32_rev l) \<subseteq> set radix_alphabet"
  "l < 32 ^ n \<Longrightarrow> length (radix32_rev l) \<le> n"
proof -
  show "radix_value (radix32_rev l) = l"
    by (induction l rule: radix32_rev.induct)
      (subst radix32_rev.simps, auto simp: and_31 alphabet_index_nth drop_bit_eq_div)
  show "set (radix32_rev l) \<subseteq> set radix_alphabet"
    by (induction l rule: radix32_rev.induct)
      (subst radix32_rev.simps, auto simp: and_31 radix_alphabet_facts)
  show "l < 32 ^ n \<Longrightarrow> length (radix32_rev l) \<le> n"
  proof (induction n arbitrary: l)
    case (Suc n)
    then have "drop_bit 5 l < 32 ^ n"
      by (simp add: drop_bit_eq_div less_mult_imp_div_less mult.commute)
    with Suc.IH show ?case by (subst radix32_rev.simps) simp
  qed (simp add: radix32_rev.simps)
qed

lemma Radix32_correct:
  "radix_value (rev (Radix32 l)) = unat (l AND 0xFFFFFFFF)
     \<and> Radix32 l \<noteq> [] \<and> length (Radix32 l) \<le> 7
     \<and> set (Radix32 l) \<subseteq> set radix_alphabet"
proof -
  define v where "v = unat (l AND 0xFFFFFFFF)"
  have "l AND 0xFFFFFFFF \<le> 0xFFFFFFFF" by (rule word_and_le1)
  then have "v \<le> 0xFFFFFFFF" unfolding v_def word_le_nat_alt by simp
  then have len: "length (radix32_rev v) \<le> 7" by (intro radix32_rev_facts(3)) simp
  have ne: "v \<noteq> 0 \<Longrightarrow> radix32_rev v \<noteq> []" by (subst radix32_rev.simps) simp
  show ?thesis
  proof (cases "v = 0")
    case True
    then show ?thesis
      using alphabet_index_nth [of 0] radix_alphabet_facts
      by (simp add: Radix32_def v_def [symmetric])
  next
    case False
    then show ?thesis
      using len ne radix32_rev_facts(1,2) [of v] by (simp add: Radix32_def v_def [symmetric])
  qed
qed

subsection \<open>Article numbers and ranges\<close>

fun artnum_loop :: "string \<Rightarrow> nat \<Rightarrow> u64 \<Rightarrow> bool" where
  "artnum_loop [] len v = (len > 0 \<and> len < 17)"
| "artnum_loop (c # p) len v =
     (if \<not> isdigit c then False
      else let digit = of_nat (byte c - byte CHR ''0'') in
        if v > (0x7FFFFFFF - digit) div 10 then False
        else artnum_loop p (len + 1) (10 * v + digit))"

definition IsValidArticleNumber :: "string option \<Rightarrow> bool" where
  "IsValidArticleNumber s = (case s of None \<Rightarrow> False | Some p \<Rightarrow> artnum_loop p 0 0)"

definition IsValidRange :: "string option \<Rightarrow> bool" where
  "IsValidRange s =
     (case s of None \<Rightarrow> False
      | Some str \<Rightarrow>
        if str = ''-'' then True
        else if peek str = CHR ''-'' then IsValidArticleNumber (Some (tl str))
        else if CHR ''-'' \<notin> set str then IsValidArticleNumber (Some str)
        else let low = takeWhile (\<lambda>c. c \<noteq> CHR ''-'') str;
                 p = tl (dropWhile (\<lambda>c. c \<noteq> CHR ''-'') str)
             in if p = [] then IsValidArticleNumber (Some low)
                else IsValidArticleNumber (Some low) \<and> IsValidArticleNumber (Some p))"

text \<open>The numbers RFC 3977 allows.\<close>

definition artnum :: "string \<Rightarrow> bool" where
  "artnum s \<longleftrightarrow> s \<noteq> [] \<and> length s < 17 \<and> (\<forall>c \<in> set s. isdigit c) \<and> dec_value s \<le> 2 ^ 31 - 1"

lemma dec_value_append: "dec_value (s @ t) = dec_value s * 10 ^ length t + dec_value t"
proof (induction t rule: rev_induct)
  case (snoc c t)
  have "dec_value (s @ t @ [c]) = 10 * dec_value (s @ t) + digit_value c"
    using dec_value_simps(2) [of "s @ t" c] by simp
  with snoc show ?case by (simp add: algebra_simps)
qed simp

lemma dec_value_Cons: "dec_value (c # t) = digit_value c * 10 ^ length t + dec_value t"
  using dec_value_append [of "[c]" t] dec_value_simps(2) [of "[]" c] by simp

lemma artnum_guard:
  assumes "v \<le> 2 ^ 31 - 1" "isdigit c"
  shows "(of_nat v > (0x7FFFFFFF - of_nat (byte c - byte CHR ''0'') :: u64) div 10)
    = (10 * v + digit_value c > 2 ^ 31 - 1)"
proof -
  define d where "d = byte c - byte CHR ''0''"
  have d: "d \<le> 9" "digit_value c = d" using assms(2) by (auto simp: isdigit_def digit_value_def d_def)
  have "unat (of_nat d :: u64) = d" using d by (simp add: unat_of_nat)
  then have "unat (0x7FFFFFFF - of_nat d :: u64) = 0x7FFFFFFF - d"
    using d by (subst unat_sub) (simp_all add: word_le_nat_alt)
  moreover have "unat (of_nat v :: u64) = v" using assms(1) by (simp add: unat_of_nat)
  ultimately have "(of_nat v > (0x7FFFFFFF - of_nat d :: u64) div 10) = (v > (0x7FFFFFFF - d) div 10)"
    by (simp add: word_less_nat_alt unat_div)
  also have "\<dots> = (10 * v + d > 2 ^ 31 - 1)"
  proof -
    have "(v > (0x7FFFFFFF - d) div 10) = (v * 10 > 0x7FFFFFFF - d)"
      by (rule div_less_iff_less_mult) simp
    with d show ?thesis by auto
  qed
  finally show ?thesis unfolding d(2) d_def .
qed

lemma artnum_loop_iff:
  "v \<le> 2 ^ 31 - 1 \<Longrightarrow> artnum_loop p len (of_nat v)
     = ((\<forall>c \<in> set p. isdigit c) \<and> v * 10 ^ length p + dec_value p \<le> 2 ^ 31 - 1
        \<and> 0 < len + length p \<and> len + length p < 17)"
proof (induction p arbitrary: v len)
  case (Cons c p)
  show ?case
  proof (cases "isdigit c \<and> 10 * v + digit_value c \<le> 2 ^ 31 - 1")
    case True
    have "10 * of_nat v + of_nat (byte c - byte CHR ''0'') = (of_nat (10 * v + digit_value c) :: u64)"
      by (simp add: digit_value_def)
    then show ?thesis
      using True artnum_guard [OF Cons.prems, of c] Cons.IH [of "10 * v + digit_value c" "len + 1"]
      by (simp add: Let_def dec_value_Cons algebra_simps)
  next
    case False
    have "10 * v + digit_value c \<le> (10 * v + digit_value c) * 10 ^ length p + dec_value p"
      by (simp add: trans_le_add1)
    then have "\<not> (isdigit c \<and> v * 10 ^ length (c # p) + dec_value (c # p) \<le> 2 ^ 31 - 1)"
      using False by (auto simp: dec_value_Cons algebra_simps)
    then show ?thesis
      using False artnum_guard [OF Cons.prems, of c] by (auto simp: Let_def)
  qed
qed auto

lemma artnum_nonempty: "artnum a \<Longrightarrow> a \<noteq> [] \<and> CHR ''-'' \<notin> set a"
  by (auto simp: artnum_def isdigit_def)

lemma artnum_cut: "artnum a \<Longrightarrow> takeWhile (\<lambda>c. c \<noteq> CHR ''-'') (a @ CHR ''-'' # p) = a
    \<and> dropWhile (\<lambda>c. c \<noteq> CHR ''-'') (a @ CHR ''-'' # p) = CHR ''-'' # p"
  using artnum_nonempty [of a] takeWhile_append2 [of a "\<lambda>c. c \<noteq> CHR ''-''" "CHR ''-'' # p"]
    dropWhile_append2 [of a "\<lambda>c. c \<noteq> CHR ''-''" "CHR ''-'' # p"] by fastforce

lemma IsValidArticleNumber_iff: "IsValidArticleNumber (Some s) = artnum s"
  using artnum_loop_iff [of 0 s 0] by (auto simp: IsValidArticleNumber_def artnum_def)

lemma IsValidRange_iff:
  "IsValidRange (Some s) =
     (artnum s \<or> s = ''-'' \<or> (\<exists>a. artnum a \<and> (s = a @ ''-'' \<or> s = ''-'' @ a))
        \<or> (\<exists>a b. artnum a \<and> artnum b \<and> s = a @ ''-'' @ b))"
    (is "_ = ?R")
proof (cases "CHR ''-'' \<in> set s")
  case False
  then have "?R = artnum s" by auto
  moreover from False have "IsValidRange (Some s) = artnum s"
    by (cases s) (auto simp: IsValidRange_def IsValidArticleNumber_iff)
  ultimately show ?thesis by (simp only:)
next
  case True
  define low where "low = takeWhile (\<lambda>c. c \<noteq> CHR ''-'') s"
  define p where "p = tl (dropWhile (\<lambda>c. c \<noteq> CHR ''-'') s)"
  from True have "dropWhile (\<lambda>c. c \<noteq> CHR ''-'') s = CHR ''-'' # p"
    unfolding p_def using hd_dropWhile [of "\<lambda>c. c \<noteq> CHR ''-''" s]
    by (cases "dropWhile (\<lambda>c. c \<noteq> CHR ''-'') s") auto
  then have s: "s = low @ CHR ''-'' # p"
    by (metis low_def takeWhile_dropWhile_id)
  have not_art: "\<not> artnum s" using True artnum_nonempty by blast
  have cut: "artnum a \<Longrightarrow> s = a @ CHR ''-'' # q \<Longrightarrow> a = low \<and> q = p" for a q
    using artnum_cut [of a q] by (auto simp: low_def p_def)
  show ?thesis
  proof (cases low)
    case Nil
    then show ?thesis
      using s not_art cut artnum_nonempty [of "[]"]
      by (auto simp: IsValidRange_def IsValidArticleNumber_iff)
  next
    case (Cons c l)
    then have "c \<noteq> CHR ''-''" unfolding low_def by (metis set_takeWhileD list.set_intros(1))
    then have "IsValidRange (Some s) = (if p = [] then artnum low else artnum low \<and> artnum p)"
    proof -
      have "peek s \<noteq> CHR ''-''" "s \<noteq> ''-''" using s Cons \<open>c \<noteq> CHR ''-''\<close> by auto
      with True show ?thesis
        unfolding IsValidRange_def option.case low_def [symmetric] p_def [symmetric] Let_def
        by (simp add: IsValidArticleNumber_iff)
    qed
    also have "\<dots> = ?R"
    proof
      assume "if p = [] then artnum low else artnum low \<and> artnum p"
      then show ?R using s by (cases "p = []") auto
    next
      have no: "s \<noteq> ''-'' @ a" for a using s Cons \<open>c \<noteq> CHR ''-''\<close> by auto
      assume ?R
      then consider a where "artnum a" "s = a @ ''-''" | a b where "artnum a" "artnum b" "s = a @ ''-'' @ b"
        using not_art no no [of "[]"] by auto
      then show "if p = [] then artnum low else artnum low \<and> artnum p"
      proof cases
        case (1 a)
        then show ?thesis using cut [of a "[]"] by auto
      next
        case (2 a b)
        then show ?thesis using cut [of a b] artnum_nonempty [of b] by auto
      qed
    qed
    finally show ?thesis .
  qed
qed

subsection \<open>Sequence space\<close>

definition INT_MAX :: int where "INT_MAX = 2 ^ 31 - 1"

definition seq_lcompare :: "u64 \<Rightarrow> u64 \<Rightarrow> int" where
  "seq_lcompare i1 i2 =
     (let half = 1 + (- 1) div 2 in
      if i1 = i2 then 0
      else if (i1 < i2 \<and> i2 - i1 < half) \<or> (i1 > i2 \<and> i1 - i2 > half) then -1
      else if (i1 < i2 \<and> i2 - i1 > half) \<or> (i1 > i2 \<and> i1 - i2 < half) then 1
      else INT_MAX)"

lemma seq_lcompare_distance:
  "seq_lcompare i1 i2 =
     (let d = unat (i2 - i1) in
      if d = 0 then 0 else if d < 2 ^ 63 then -1 else if d = 2 ^ 63 then INT_MAX else 1)"
proof -
  have half: "unat (1 + (- 1) div 2 :: u64) = 2 ^ 63"
    by simp
  show ?thesis
    using unsigned_less [of i1, where 'a = nat] unsigned_less [of i2, where 'a = nat] word_unat_eq_iff [of i1 i2]
    by (auto simp: seq_lcompare_def Let_def word_less_nat_alt half unat_sub_if' INT_MAX_def)
qed

subsection \<open>Properties\<close>

text \<open>C10: a string is recognised as a storage token exactly when it is the text of a token of
  16 octets, and that text is read back as the same token.\<close>

theorem IsToken_exactly_token_texts:
  "IsToken (Some s) = (\<exists>t. wf_token t \<and> s = TokenToText t \<and> TextToToken s = t)"
  using IsToken_cases IsToken_TokenToText token_text.dec_enc by blast

text \<open>C11: the text of a message-ID hash is 32 upper-case hexadecimal digits, the text of a token is
  38 printable octets without blanks, two of them are the same only for the same value, and both are
  read back as the value they were written from.\<close>

theorem hash_and_token_text:
  assumes "wf_hash h" "wf_hash h'" "wf_token t" "wf_token t'"
  shows "TextToHash (HashToText h) = h \<and> (HashToText h = HashToText h' \<longrightarrow> h = h')
    \<and> length (HashToText h) = 32 \<and> SP \<notin> set (HashToText h)
    \<and> TextToToken (TokenToText t) = t \<and> (TokenToText t = TokenToText t' \<longrightarrow> t = t')
    \<and> length (TokenToText t) = 38 \<and> SP \<notin> set (TokenToText t)"
  using assms hash_text.dec_enc hash_text.enc_inj hash_text.length_enc hash_text.enc_no_sep
    token_text.dec_enc token_text.enc_inj token_text.length_enc token_text.enc_no_sep by metis

lemma hash_and_token_text_witness:
  "TextToHash (HashToText (replicate 16 CHR ''a'')) = replicate 16 CHR ''a''
   \<and> length (TokenToText \<lparr>tok_type = CHR 0x04, tok_class = CHR 0x00, tok_octets = replicate 16 CHR 0xFF\<rparr>) = 38"
  using hash_and_token_text [of "replicate 16 CHR ''a''" "replicate 16 CHR ''b''"
      "\<lparr>tok_type = CHR 0x04, tok_class = CHR 0x00, tok_octets = replicate 16 CHR 0xFF\<rparr>"
      "\<lparr>tok_type = CHR 0x04, tok_class = CHR 0x00, tok_octets = replicate 16 CHR 0xFF\<rparr>"]
  by (simp add: wf_hash_def wf_token_def)

text \<open>C18: the 64-bit arithmetic of the article-number check never wraps: a string is accepted exactly
  when it has 1 to 16 digits and their decimal value is at most \<open>2\<^sup>3\<^sup>1 - 1\<close>, and a range exactly
  when it is a number, a lone dash, or a dash with a number on one side or both.\<close>

theorem article_numbers_and_ranges:
  "IsValidArticleNumber (Some s) = artnum s
   \<and> IsValidRange (Some s) =
       (artnum s \<or> s = ''-'' \<or> (\<exists>a. artnum a \<and> (s = a @ ''-'' \<or> s = ''-'' @ a))
        \<or> (\<exists>a b. artnum a \<and> artnum b \<and> s = a @ ''-'' @ b))"
  by (simp only: IsValidArticleNumber_iff IsValidRange_iff simp_thms)

text \<open>C19: sequence-space comparison of two 64-bit serial numbers is decided by their distance modulo
  \<open>2\<^sup>6\<^sup>4\<close> alone: zero, less than half the space, exactly half of it, or more.\<close>

theorem seq_lcompare_serial_order:
  "seq_lcompare i1 i2 =
     (let d = unat (i2 - i1) in
      if d = 0 then 0 else if d < 2 ^ 63 then -1 else if d = 2 ^ 63 then INT_MAX else 1)"
  by (rule seq_lcompare_distance)

text \<open>C20: the base-32 text of the low 32 bits of a number has one to seven digits of the alphabet and
  the number's low 32 bits as its value.\<close>

theorem Radix32_writes_low_32_bits:
  "radix_value (rev (Radix32 l)) = unat (l AND 0xFFFFFFFF)
     \<and> Radix32 l \<noteq> [] \<and> length (Radix32 l) \<le> 7
     \<and> set (Radix32 l) \<subseteq> set radix_alphabet"
  by (rule Radix32_correct)

end
