(* ===== verification/Md5.thy ===== *)
theory Md5
  imports Encode
begin

text \<open>
  The MD5 digest (\<^verbatim>\<open>lib/md5.c\<close>) and the hash of a message identifier
  (\<^verbatim>\<open>lib/hash.c\<close>). The incremental interface keeps a context: the chaining state, the byte
  count in two 32-bit words, and a chunk buffer with the octets not yet hashed. \<open>md5_abs\<close> relates a
  context to the message absorbed so far; \<open>md5_update\<close> refines appending to that message and
  \<open>md5_final\<close> computes the digest of the padded message of RFC 1321.
  The code is that of a little-endian machine, where \<^verbatim>\<open>decode\<close> is empty.
\<close>

unbundle bit_operations_syntax

subsection \<open>Little-endian numbers\<close>

fun le_value :: "string \<Rightarrow> nat" where
  "le_value [] = 0"
| "le_value (c # s) = byte c + 256 * le_value s"

fun le_bytes :: "nat \<Rightarrow> nat \<Rightarrow> string" where
  "le_bytes 0 n = []"
| "le_bytes (Suc k) n = char_of (n mod 256) # le_bytes k (n div 256)"

lemma length_le_bytes [simp]: "length (le_bytes k n) = k"
  by (induction k arbitrary: n) auto

lemma le_value_le_bytes [simp]: "le_value (le_bytes k n) = n mod 256 ^ k"
  by (induction k arbitrary: n) (simp_all add: mod_mult2_eq byte_def)

lemma le_bytes_add: "le_bytes (j + k) n = le_bytes j n @ le_bytes k (n div 256 ^ j)"
  by (induction j arbitrary: n) (simp_all add: div_mult2_eq)

lemma le_bytes_mod: "le_bytes k (n mod 256 ^ k) = le_bytes k n"
proof (induction k arbitrary: n)
  case (Suc k)
  have "(n mod (256 * 256 ^ k)) mod 256 = n mod 256"
    by (rule mod_mod_cancel) simp
  moreover have "(n mod (256 * 256 ^ k)) div 256 = n div 256 mod 256 ^ k"
    by (simp add: mod_mult2_eq)
  ultimately show ?case using Suc by simp
qed simp

subsection \<open>The compression function\<close>

type_synonym md5_state = "u32 \<times> u32 \<times> u32 \<times> u32"

definition ROT :: "u32 \<Rightarrow> nat \<Rightarrow> u32" where
  "ROT x n = push_bit n x OR drop_bit (32 - n) x"

definition md5_F :: "u32 \<Rightarrow> u32 \<Rightarrow> u32 \<Rightarrow> u32" where
  "md5_F x y z = z XOR (x AND (y XOR z))"

definition md5_G :: "u32 \<Rightarrow> u32 \<Rightarrow> u32 \<Rightarrow> u32" where
  "md5_G x y z = y XOR (z AND (x XOR y))"

definition md5_H :: "u32 \<Rightarrow> u32 \<Rightarrow> u32 \<Rightarrow> u32" where
  "md5_H x y z = x XOR y XOR z"

definition md5_I :: "u32 \<Rightarrow> u32 \<Rightarrow> u32 \<Rightarrow> u32" where
  "md5_I x y z = y XOR (x OR NOT z)"

definition FF :: "u32 \<Rightarrow> u32 \<Rightarrow> u32 \<Rightarrow> u32 \<Rightarrow> u32 \<Rightarrow> nat \<Rightarrow> u32 \<Rightarrow> u32" where
  "FF a b c d x s ac = ROT (a + (md5_F b c d + x + ac)) s + b"

definition GG :: "u32 \<Rightarrow> u32 \<Rightarrow> u32 \<Rightarrow> u32 \<Rightarrow> u32 \<Rightarrow> nat \<Rightarrow> u32 \<Rightarrow> u32" where
  "GG a b c d x s ac = ROT (a + (md5_G b c d + x + ac)) s + b"

definition HH :: "u32 \<Rightarrow> u32 \<Rightarrow> u32 \<Rightarrow> u32 \<Rightarrow> u32 \<Rightarrow> nat \<Rightarrow> u32 \<Rightarrow> u32" where
  "HH a b c d x s ac = ROT (a + (md5_H b c d + x + ac)) s + b"

definition II :: "u32 \<Rightarrow> u32 \<Rightarrow> u32 \<Rightarrow> u32 \<Rightarrow> u32 \<Rightarrow> nat \<Rightarrow> u32 \<Rightarrow> u32" where
  "II a b c d x s ac = ROT (a + (md5_I b c d + x + ac)) s + b"

definition md5_round1 :: "md5_state \<Rightarrow> u32 list \<Rightarrow> md5_state" where
  "md5_round1 st inw = (case st of (a, b, c, d) \<Rightarrow>
     let a = FF a b c d (inw ! 0) 7 3614090360 in
     let d = FF d a b c (inw ! 1) 12 3905402710 in
     let c = FF c d a b (inw ! 2) 17 606105819 in
     let b = FF b c d a (inw ! 3) 22 3250441966 in
     let a = FF a b c d (inw ! 4) 7 4118548399 in
     let d = FF d a b c (inw ! 5) 12 1200080426 in
     let c = FF c d a b (inw ! 6) 17 2821735955 in
     let b = FF b c d a (inw ! 7) 22 4249261313 in
     let a = FF a b c d (inw ! 8) 7 1770035416 in
     let d = FF d a b c (inw ! 9) 12 2336552879 in
     let c = FF c d a b (inw ! 10) 17 4294925233 in
     let b = FF b c d a (inw ! 11) 22 2304563134 in
     let a = FF a b c d (inw ! 12) 7 1804603682 in
     let d = FF d a b c (inw ! 13) 12 4254626195 in
     let c = FF c d a b (inw ! 14) 17 2792965006 in
     let b = FF b c d a (inw ! 15) 22 1236535329 in
     (a, b, c, d))"

definition md5_round2 :: "md5_state \<Rightarrow> u32 list \<Rightarrow> md5_state" where
  "md5_round2 st inw = (case st of (a, b, c, d) \<Rightarrow>
     let a = GG a b c d (inw ! 1) 5 4129170786 in
     let d = GG d a b c (inw ! 6) 9 3225465664 in
     let c = GG c d a b (inw ! 11) 14 643717713 in
     let b = GG b c d a (inw ! 0) 20 3921069994 in
     let a = GG a b c d (inw ! 5) 5 3593408605 in
     let d = GG d a b c (inw ! 10) 9 38016083 in
     let c = GG c d a b (inw ! 15) 14 3634488961 in
     let b = GG b c d a (inw ! 4) 20 3889429448 in
     let a = GG a b c d (inw ! 9) 5 568446438 in
     let d = GG d a b c (inw ! 14) 9 3275163606 in
     let c = GG c d a b (inw ! 3) 14 4107603335 in
     let b = GG b c d a (inw ! 8) 20 1163531501 in
     let a = GG a b c d (inw ! 13) 5 2850285829 in
     let d = GG d a b c (inw ! 2) 9 4243563512 in
     let c = GG c d a b (inw ! 7) 14 1735328473 in
     let b = GG b c d a (inw ! 12) 20 2368359562 in
     (a, b, c, d))"

definition md5_round3 :: "md5_state \<Rightarrow> u32 list \<Rightarrow> md5_state" where
  "md5_round3 st inw = (case st of (a, b, c, d) \<Rightarrow>
     let a = HH a b c d (inw ! 5) 4 4294588738 in
     let d = HH d a b c (inw ! 8) 11 2272392833 in
     let c = HH c d a b (inw ! 11) 16 1839030562 in
     let b = HH b c d a (inw ! 14) 23 4259657740 in
     let a = HH a b c d (inw ! 1) 4 2763975236 in
     let d = HH d a b c (inw ! 4) 11 1272893353 in
     let c = HH c d a b (inw ! 7) 16 4139469664 in
     let b = HH b c d a (inw ! 10) 23 3200236656 in
     let a = HH a b c d (inw ! 13) 4 681279174 in
     let d = HH d a b c (inw ! 0) 11 3936430074 in
     let c = HH c d a b (inw ! 3) 16 3572445317 in
     let b = HH b c d a (inw ! 6) 23 76029189 in
     let a = HH a b c d (inw ! 9) 4 3654602809 in
     let d = HH d a b c (inw ! 12) 11 3873151461 in
     let c = HH c d a b (inw ! 15) 16 530742520 in
     let b = HH b c d a (inw ! 2) 23 3299628645 in
     (a, b, c, d))"

definition md5_round4 :: "md5_state \<Rightarrow> u32 list \<Rightarrow> md5_state" where
  "md5_round4 st inw = (case st of (a, b, c, d) \<Rightarrow>
     let a = II a b c d (inw ! 0) 6 4096336452 in
     let d = II d a b c (inw ! 7) 10 1126891415 in
     let c = II c d a b (inw ! 14) 15 2878612391 in
     let b = II b c d a (inw ! 5) 21 4237533241 in
     let a = II a b c d (inw ! 12) 6 1700485571 in
     let d = II d a b c (inw ! 3) 10 2399980690 in
     let c = II c d a b (inw ! 10) 15 4293915773 in
     let b = II b c d a (inw ! 1) 21 2240044497 in
     let a = II a b c d (inw ! 8) 6 1873313359 in
     let d = II d a b c (inw ! 15) 10 4264355552 in
     let c = II c d a b (inw ! 6) 15 2734768916 in
     let b = II b c d a (inw ! 13) 21 1309151649 in
     let a = II a b c d (inw ! 4) 6 4149444226 in
     let d = II d a b c (inw ! 11) 10 3174756917 in
     let c = II c d a b (inw ! 2) 15 718787259 in
     let b = II b c d a (inw ! 9) 21 3951481745 in
     (a, b, c, d))"

definition md5_transform :: "md5_state \<Rightarrow> u32 list \<Rightarrow> md5_state" where
  "md5_transform buf inw =
     (case md5_round4 (md5_round3 (md5_round2 (md5_round1 buf inw) inw) inw) inw of (a, b, c, d) \<Rightarrow>
      case buf of (b0, b1, b2, b3) \<Rightarrow> (b0 + a, b1 + b, b2 + c, b3 + d))"

text \<open>The functions of RFC 1321, of which \<open>md5_F\<close> and \<open>md5_G\<close> save one operation.\<close>

lemma md5_F_rfc: "md5_F x y z = (x AND y) OR (NOT x AND z)"
  by (rule bit_eqI) (auto simp: md5_F_def bit_simps)

lemma md5_G_rfc: "md5_G x y z = (x AND z) OR (y AND NOT z)"
  by (rule bit_eqI) (auto simp: md5_G_def bit_simps)

subsection \<open>The context\<close>

record md5_context =
  md_count0 :: u32
  md_count1 :: u32
  md_buf :: md5_state
  md_in :: string
  md_datalen :: nat
  md_digest :: string

definition MD5_CHUNKSIZE :: nat where "MD5_CHUNKSIZE = 64"

definition md5_padding :: string where
  "md5_padding = CHR 0x80 # replicate 63 NUL"

definition md5_init :: "md5_context \<Rightarrow> md5_context" where
  "md5_init context' = context'\<lparr>md_buf := (0x67452301, 0xefcdab89, 0x98badcfe, 0x10325476),
     md_count0 := 0, md_count1 := 0, md_datalen := 0\<rparr>"

text \<open>\<open>memcpy\<close> into a buffer at an offset, and a chunk read as 16 words.\<close>

definition overwrite :: "string \<Rightarrow> nat \<Rightarrow> string \<Rightarrow> string" where
  "overwrite buf off d = take off buf @ d @ drop (off + length d) buf"

definition chunk_words :: "string \<Rightarrow> u32 list" where
  "chunk_words blk = map (\<lambda>i. of_nat (le_value (take 4 (drop (4 * i) blk)))) [0..<16]"

definition words_chunk :: "u32 list \<Rightarrow> string" where
  "words_chunk ws = concat (map (\<lambda>w. le_bytes 4 (unat w)) ws)"

function md5_update_block :: "md5_state \<Rightarrow> string \<Rightarrow> md5_state" where
  "md5_update_block buf d =
     (if length d \<ge> MD5_CHUNKSIZE
      then md5_update_block (md5_transform buf (chunk_words (take MD5_CHUNKSIZE d)))
             (drop MD5_CHUNKSIZE d)
      else buf)"
  by pat_completeness auto
termination
  by (relation "measure (\<lambda>(buf, d). length d)") (auto simp: MD5_CHUNKSIZE_def)

declare md5_update_block.simps [simp del]

definition add_count :: "md5_context \<Rightarrow> nat \<Rightarrow> md5_context" where
  "add_count ctx n =
     (let high_count = drop_bit 31 n;
          ctx = ctx\<lparr>md_count1 := md_count1 ctx + of_nat (drop_bit 1 high_count AND 0xffffffff)\<rparr>;
          low_count = of_nat (n AND 0xffffffff);
          ctx = ctx\<lparr>md_count0 := md_count0 ctx + low_count\<rparr>
      in if md_count0 ctx < low_count then ctx\<lparr>md_count1 := md_count1 ctx + 1\<rparr> else ctx)"

definition md5_absorb :: "md5_context \<Rightarrow> string \<Rightarrow> md5_context" where
  "md5_absorb ctx d =
     (let used = (length d div MD5_CHUNKSIZE) * MD5_CHUNKSIZE;
          ctx = (if length d \<ge> MD5_CHUNKSIZE
                 then ctx\<lparr>md_buf := md5_update_block (md_buf ctx) d\<rparr> else ctx);
          d = (if length d \<ge> MD5_CHUNKSIZE then drop used d else d)
      in if length d > 0 then ctx\<lparr>md_in := overwrite (md_in ctx) 0 d, md_datalen := length d\<rparr>
         else ctx)"

definition md5_update :: "md5_context \<Rightarrow> string \<Rightarrow> md5_context" where
  "md5_update ctx0 d =
     (let datalen = md_datalen ctx0; ctx = add_count ctx0 (length d); left = MD5_CHUNKSIZE - datalen in
      if datalen > 0 then
        if left > length d then
          ctx\<lparr>md_in := overwrite (md_in ctx) datalen d, md_datalen := md_datalen ctx + length d\<rparr>
        else
          let ctx = ctx\<lparr>md_in := overwrite (md_in ctx) datalen (take left d)\<rparr>;
              ctx = ctx\<lparr>md_buf := md5_transform (md_buf ctx) (chunk_words (md_in ctx)), md_datalen := 0\<rparr>
          in md5_absorb ctx (drop left d)
      else md5_absorb ctx d)"

definition encode_state :: "md5_state \<Rightarrow> string" where
  "encode_state buf = (case buf of (a, b, c, d) \<Rightarrow> words_chunk [a, b, c, d])"

definition md5_final :: "md5_context \<Rightarrow> md5_context" where
  "md5_final ctx0 =
     (let count0 = md_count0 ctx0; count1 = md_count1 ctx0; left = md_datalen ctx0;
          pad_needed = (if left < 64 - 8 then 64 - 8 - left else 128 - 8 - left);
          ctx = md5_update ctx0 (take pad_needed md5_padding);
          inw = (chunk_words (md_in ctx))
                  [14 := push_bit 3 count0, 15 := push_bit 3 count1 OR drop_bit 29 count0];
          ctx = ctx\<lparr>md_in := words_chunk inw, md_buf := md5_transform (md_buf ctx) inw\<rparr>
      in ctx\<lparr>md_digest := encode_state (md_buf ctx)\<rparr>)"

text \<open>\<open>context'\<close> is the uninitialised stack variable.\<close>

definition md5_hash :: "md5_context \<Rightarrow> string \<Rightarrow> string" where
  "md5_hash context' d = md_digest (md5_final (md5_update (md5_init context') d))"

subsection \<open>Blocks and messages\<close>

lemma md5_update_block_short: "length d < 64 \<Longrightarrow> md5_update_block buf d = buf"
  by (subst md5_update_block.simps) (simp add: MD5_CHUNKSIZE_def)

lemma md5_update_block_chunk:
  "length c = 64 \<Longrightarrow> md5_update_block buf (c @ d) = md5_update_block (md5_transform buf (chunk_words c)) d"
  by (subst md5_update_block.simps) (simp add: MD5_CHUNKSIZE_def)

lemma md5_update_block_append:
  "64 dvd length x \<Longrightarrow> md5_update_block buf (x @ y) = md5_update_block (md5_update_block buf x) y"
proof (induction buf x rule: md5_update_block.induct)
  case (1 buf x)
  show ?case
  proof (cases "length x \<ge> 64")
    case True
    then have x: "x = take 64 x @ drop 64 x" "length (take 64 x) = 64" by simp_all
    have "64 dvd length (drop 64 x)" using 1(2) True by (simp add: dvd_diff_nat)
    with 1(1) True have IH: "md5_update_block (md5_transform buf (chunk_words (take 64 x))) (drop 64 x @ y)
      = md5_update_block (md5_update_block (md5_transform buf (chunk_words (take 64 x))) (drop 64 x)) y"
      by (simp add: MD5_CHUNKSIZE_def)
    have "md5_update_block buf (x @ y) = md5_update_block buf (take 64 x @ (drop 64 x @ y))"
      using x(1) by (metis append.assoc)
    also have "\<dots> = md5_update_block (md5_transform buf (chunk_words (take 64 x))) (drop 64 x @ y)"
      using x(2) by (rule md5_update_block_chunk)
    also note IH
    also have "md5_update_block (md5_transform buf (chunk_words (take 64 x))) (drop 64 x)
        = md5_update_block buf (take 64 x @ drop 64 x)"
      using x(2) by (rule md5_update_block_chunk [symmetric])
    finally show ?thesis using x(1) by (metis)
  next
    case False
    with 1(2) have "x = []" by (cases x) (auto dest: dvd_imp_le)
    then show ?thesis by (simp add: md5_update_block_short)
  qed
qed

lemma md5_update_block_whole:
  "md5_update_block buf d = md5_update_block buf (take (length d div 64 * 64) d)"
proof -
  let ?n = "length d div 64 * 64"
  have "?n \<le> length d" by simp
  then have "64 dvd length (take ?n d)" by simp
  from md5_update_block_append [OF this, of buf "drop ?n d"] show ?thesis
    by (simp add: md5_update_block_short minus_div_mult_eq_mod)
qed

text \<open>The padded message of RFC 1321 and its digest.\<close>

definition md5_initial :: md5_state where
  "md5_initial = (0x67452301, 0xefcdab89, 0x98badcfe, 0x10325476)"

definition md5_pad :: "string \<Rightarrow> string" where
  "md5_pad m = m @ CHR 0x80 # replicate ((119 - length m mod 64) mod 64) NUL
     @ le_bytes 8 (8 * length m)"

definition md5_spec :: "string \<Rightarrow> string" where
  "md5_spec m = encode_state (md5_update_block md5_initial (md5_pad m))"

text \<open>The message a context has absorbed.\<close>

definition md5_abs :: "md5_context \<Rightarrow> string \<Rightarrow> bool" where
  "md5_abs ctx m \<longleftrightarrow>
     length (md_in ctx) = 64 \<and> md_datalen ctx = length m mod 64 \<and>
     take (length m mod 64) (md_in ctx) = drop (length m div 64 * 64) m \<and>
     md_buf ctx = md5_update_block md5_initial m \<and>
     md_count0 ctx = of_nat (length m) \<and> md_count1 ctx = of_nat (length m div 2 ^ 32)"

lemma md5_abs_init: "length (md_in ctx) = 64 \<Longrightarrow> md5_abs (md5_init ctx) []"
  by (simp add: md5_abs_def md5_init_def md5_initial_def md5_update_block_short)

lemma of_nat_mod_word: "of_nat (n mod 2 ^ 32) = (of_nat n :: u32)"
  by (simp add: word_of_nat_eq_iff take_bit_eq_mod)

lemma low_32: "(n::nat) AND 0xffffffff = n mod 2 ^ 32"
  using take_bit_eq_mask [of 32 n] by (simp add: take_bit_eq_mod mask_eq_exp_minus_1)

lemma carry_division:
  assumes "0 < k"
  shows "(a + b) div k = a div k + b div k + (if a mod k + b mod k < k then 0 else (1::nat))"
proof -
  have "(a mod k + b mod k) div k = (if a mod k + b mod k < k then 0 else 1)"
  proof (cases "a mod k + b mod k < k")
    case False
    then have "(a mod k + b mod k) div k = Suc ((a mod k + b mod k - k) div k)"
      using assms by (simp add: le_div_geq)
    moreover have "a mod k < k" "b mod k < k" using assms by simp_all
    then have "a mod k + b mod k - k < k" by linarith
    ultimately show ?thesis using False by simp
  qed simp
  then show ?thesis by (simp add: div_add1_eq [of a b k])
qed

lemma carry_wrap:
  assumes "0 < k"
  shows "((a + b) mod k < b mod k) = (\<not> a mod k + b mod k < (k::nat))"
proof -
  define x y where "x = a mod k" and "y = b mod k"
  have xy: "x < k" "y < k" using assms by (simp_all add: x_def y_def)
  have "(a + b) mod k = (x + y) mod k" by (simp add: x_def y_def mod_add_eq)
  also have "\<dots> = (if x + y < k then x + y else x + y - k)"
    using xy by (simp add: mod_if)
  finally show ?thesis using xy by (auto simp: x_def [symmetric] y_def [symmetric])
qed

lemma add_count_abs:
  assumes "md_count0 ctx = of_nat n" "md_count1 ctx = of_nat (n div 2 ^ 32)"
  shows "add_count ctx k = ctx\<lparr>md_count0 := of_nat (n + k), md_count1 := of_nat ((n + k) div 2 ^ 32)\<rparr>"
proof -
  let ?w = "of_nat :: nat \<Rightarrow> u32"
  have hi: "?w (drop_bit 1 (drop_bit 31 k) AND 0xffffffff) = ?w (k div 2 ^ 32)"
    unfolding low_32 of_nat_mod_word by (simp add: drop_bit_eq_div div_mult2_eq [symmetric])
  have lo: "?w (k AND 0xffffffff) = ?w k" unfolding low_32 of_nat_mod_word ..
  have "unat (?w n + ?w k) = (n + k) mod 2 ^ 32"
    by (simp flip: of_nat_add add: unat_of_nat)
  then have "(?w n + ?w k < ?w k) = ((n + k) mod 2 ^ 32 < k mod 2 ^ 32)"
    by (simp add: word_less_nat_alt unat_of_nat)
  also have "\<dots> = (\<not> n mod 2 ^ 32 + k mod 2 ^ 32 < 2 ^ 32)"
    by (rule carry_wrap) simp
  finally have carry: "(?w n + ?w k < ?w k) = (\<not> n mod 2 ^ 32 + k mod 2 ^ 32 < 2 ^ 32)" .
  have "(n + k) div 2 ^ 32 = n div 2 ^ 32 + k div 2 ^ 32 + (if ?w n + ?w k < ?w k then 1 else 0)"
    unfolding carry by (subst carry_division) simp_all
  then have "?w ((n + k) div 2 ^ 32) = ?w (n div 2 ^ 32) + ?w (k div 2 ^ 32) + (if ?w n + ?w k < ?w k then 1 else 0)"
    by simp
  then show ?thesis
    unfolding add_count_def Let_def hi lo using assms by simp
qed

lemma length_overwrite: "off + length d \<le> length buf \<Longrightarrow> length (overwrite buf off d) = length buf"
  by (simp add: overwrite_def)

lemma take_overwrite: "off \<le> length buf \<Longrightarrow> take (off + length d) (overwrite buf off d) = take off buf @ d"
  by (simp add: overwrite_def)

text \<open>Absorbing octets behind whole blocks only.\<close>

lemma md5_absorb_abs:
  assumes "length (md_in ctx) = 64" "md_datalen ctx = 0" "64 dvd length m"
    "md_buf ctx = md5_update_block md5_initial m"
    "md_count0 ctx = of_nat (length (m @ d))" "md_count1 ctx = of_nat (length (m @ d) div 2 ^ 32)"
  shows "md5_abs (md5_absorb ctx d) (m @ d)"
proof -
  define r where "r = drop (length d div 64 * 64) d"
  have r: "length r = length d mod 64" "length r < 64" "length (m @ d) mod 64 = length d mod 64"
    using assms(3) by (auto simp: r_def minus_div_mult_eq_mod mod_add_eq dvd_eq_mod_eq_0)
  have rem: "drop (length (m @ d) div 64 * 64) (m @ d) = r"
  proof -
    obtain k where k: "length m = 64 * k" using assms(3) by (auto elim: dvdE)
    then show ?thesis by (simp add: r_def)
  qed
  have buf: "md5_update_block md5_initial (m @ d) = md5_update_block (md_buf ctx) d"
    using assms(3,4) by (simp add: md5_update_block_append)
  define ctx' where "ctx' = (if length d \<ge> MD5_CHUNKSIZE
                 then ctx\<lparr>md_buf := md5_update_block (md_buf ctx) d\<rparr> else ctx)"
  have d': "(if length d \<ge> MD5_CHUNKSIZE then drop (length d div MD5_CHUNKSIZE * MD5_CHUNKSIZE) d else d) = r"
    by (simp add: MD5_CHUNKSIZE_def r_def)
  have ctx': "ctx' = ctx\<lparr>md_buf := md5_update_block (md_buf ctx) d\<rparr>"
    by (simp add: ctx'_def MD5_CHUNKSIZE_def md5_update_block_short)
  have eq: "md5_absorb ctx d = (if length r > 0 then ctx'\<lparr>md_in := overwrite (md_in ctx') 0 r, md_datalen := length r\<rparr> else ctx')"
    unfolding md5_absorb_def Let_def d' ctx'_def [symmetric] ..
  show ?thesis
    unfolding md5_abs_def eq rem buf
    using assms(1,2,5,6) r ctx' take_overwrite [of 0 "md_in ctx" r]
    by (cases "r = []") (simp_all add: length_overwrite flip: length_greater_0_conv)
qed

theorem md5_update_abs:
  assumes "md5_abs ctx m"
  shows "md5_abs (md5_update ctx d) (m @ d)"
proof -
  define n where "n = length m mod 64"
  define ctx1 where "ctx1 = add_count ctx (length d)"
  from assms have c: "length (md_in ctx) = 64" "md_datalen ctx = n"
    "take n (md_in ctx) = drop (length m div 64 * 64) m" "md_buf ctx = md5_update_block md5_initial m"
    "md_count0 ctx = of_nat (length m)" "md_count1 ctx = of_nat (length m div 2 ^ 32)"
    by (simp_all add: md5_abs_def n_def)
  have ctx1: "ctx1 = ctx\<lparr>md_count0 := of_nat (length (m @ d)), md_count1 := of_nat (length (m @ d) div 2 ^ 32)\<rparr>"
    unfolding ctx1_def length_append using c(5,6) by (rule add_count_abs)
  have n: "n < 64" by (simp add: n_def)
  define whole tail' where "whole = take (length m div 64 * 64) m" and "tail' = drop (length m div 64 * 64) m"
  have m: "m = whole @ tail'" "length tail' = n" "64 dvd length whole"
    by (simp_all add: whole_def tail'_def n_def minus_div_mult_eq_mod)
  have bufw: "md_buf ctx = md5_update_block md5_initial whole"
    unfolding c(4) whole_def by (rule md5_update_block_whole)
  consider "n = 0" | "0 < n" "length d < 64 - n" | "0 < n" "64 - n \<le> length d" by linarith
  then show ?thesis
  proof cases
    case 1
    then have "md5_update ctx d = md5_absorb ctx1 d"
      by (simp add: md5_update_def ctx1_def c(2))
    moreover have "64 dvd length m" using 1 by (simp add: n_def dvd_eq_mod_eq_0)
    ultimately show ?thesis using c ctx1 1 by (simp add: md5_absorb_abs)
  next
    case 2
    then have up: "md5_update ctx d = ctx1\<lparr>md_in := overwrite (md_in ctx1) n d, md_datalen := n + length d\<rparr>"
      using ctx1 by (simp add: md5_update_def ctx1_def [symmetric] c(2) MD5_CHUNKSIZE_def)
    obtain k where k: "length whole = 64 * k" using m(3) by (auto elim: dvdE)
    have len: "length (m @ d) mod 64 = n + length d" "length (m @ d) div 64 * 64 = length whole"
      using 2 m(1,2) k by simp_all
    have "md5_update_block md5_initial (m @ d) = md_buf ctx"
      using 2 m bufw by (simp add: md5_update_block_append md5_update_block_short)
    moreover have "take (n + length d) (overwrite (md_in ctx) n d) = tail' @ d"
      using c(1,3) n by (simp add: take_overwrite tail'_def)
    ultimately show ?thesis
      unfolding md5_abs_def up len using 2 c ctx1 m by (simp add: length_overwrite)
  next
    case 3
    define l where "l = 64 - n"
    define ctx2 where "ctx2 = ctx1\<lparr>md_in := overwrite (md_in ctx1) n (take l d)\<rparr>"
    define ctx3 where "ctx3 = ctx2\<lparr>md_buf := md5_transform (md_buf ctx2) (chunk_words (md_in ctx2)), md_datalen := 0\<rparr>"
    have up: "md5_update ctx d = md5_absorb ctx3 (drop l d)"
      using 3 by (simp add: md5_update_def ctx1_def [symmetric] c(2) MD5_CHUNKSIZE_def ctx2_def ctx3_def l_def Let_def)
    have in2: "md_in ctx2 = tail' @ take l d"
      using 3 n c(1) c(3) ctx1 by (simp add: ctx2_def overwrite_def l_def tail'_def)
    have chunk: "length (tail' @ take l d) = 64" using 3 m(2) n by (simp add: l_def)
    have "md_buf ctx3 = md5_transform (md_buf ctx) (chunk_words (tail' @ take l d))"
      using in2 ctx1 by (simp add: ctx3_def ctx2_def)
    also have "\<dots> = md5_update_block (md_buf ctx) ((tail' @ take l d) @ [])"
      by (simp only: md5_update_block_chunk [OF chunk]) (simp add: md5_update_block_short)
    also have "\<dots> = md5_update_block md5_initial (whole @ (tail' @ take l d))"
      using m(3) bufw by (simp add: md5_update_block_append)
    finally have buf3: "md_buf ctx3 = md5_update_block md5_initial (m @ take l d)" using m(1) by simp
    have "64 dvd length (m @ take l d)" using chunk m(1,3) by (simp add: dvd_add)
    from md5_absorb_abs [of ctx3 "m @ take l d" "drop l d"] this buf3 chunk in2 ctx1
    show ?thesis unfolding up by (simp add: ctx3_def ctx2_def)
  qed
qed

subsection \<open>The digest\<close>

lemma chunk_words_length [simp]: "length (chunk_words b) = 16"
  by (simp add: chunk_words_def)

lemma chunk_words_patch:
  assumes "length x = 56" "take 56 b = x" "length b = 64"
  shows "(chunk_words b)[14 := u, 15 := v] = chunk_words (x @ le_bytes 4 (unat u) @ le_bytes 4 (unat v))"
proof (rule nth_equalityI)
  fix i assume "i < length ((chunk_words b)[14 := u, 15 := v])"
  then have i: "i < 16" by simp
  have lv: "le_value (le_bytes 4 (unat w)) = unat w" for w :: u32
    using unsigned_less [of w, where 'a = nat] by simp
  consider "i = 15" | "i = 14" | "i < 14" using i by linarith
  then show "(chunk_words b)[14 := u, 15 := v] ! i
    = chunk_words (x @ le_bytes 4 (unat u) @ le_bytes 4 (unat v)) ! i"
  proof cases
    case 3
    then have "take 4 (drop (4 * i) b) = take 4 (drop (4 * i) x)"
    proof -
      have "take 4 (drop (4 * i) (take 56 b)) = take (min 4 (56 - 4 * i)) (drop (4 * i) b)"
        by (simp add: drop_take)
      moreover have "min 4 (56 - 4 * i) = 4" using 3 by linarith
      ultimately show ?thesis using assms(2) by simp
    qed
    with 3 i assms show ?thesis by (simp add: chunk_words_def)
  qed (use assms lv in \<open>simp_all add: chunk_words_def\<close>)
qed simp

lemma bit_count_words:
  "le_bytes 8 (8 * n) = le_bytes 4 (unat (push_bit 3 (of_nat n :: u32)))
     @ le_bytes 4 (unat (push_bit 3 (of_nat (n div 2 ^ 32)) OR drop_bit 29 (of_nat n) :: u32))"
proof -
  have "(push_bit 3 (of_nat n) :: u32) = of_nat (8 * n)"
    by (simp add: push_bit_eq_mult)
  then have lo: "unat (push_bit 3 (of_nat n) :: u32) = 8 * n mod 256 ^ 4"
    by (simp only: unat_of_nat) simp
  have low: "unat (drop_bit 29 (of_nat n :: u32)) = n mod 2 ^ 32 div 2 ^ 29"
    by (simp add: drop_bit_eq_div unat_div unat_of_nat)
  have "push_bit 3 w AND drop_bit 29 v = 0" for w v :: u32
    by (rule bit_eqI) (auto simp: bit_simps dest: bit_imp_le_length)
  then have "push_bit 3 (of_nat (n div 2 ^ 32)) OR drop_bit 29 (of_nat n)
      = push_bit 3 (of_nat (n div 2 ^ 32)) + (of_nat (n mod 2 ^ 32 div 2 ^ 29) :: u32)"
    unfolding low [symmetric] by (simp add: disjunctive_add_eq_or)
  also have "push_bit 3 (of_nat (n div 2 ^ 32)) + of_nat (n mod 2 ^ 32 div 2 ^ 29)
      = (of_nat (8 * (n div 2 ^ 32) + n mod 2 ^ 32 div 2 ^ 29) :: u32)"
    by (simp add: push_bit_eq_mult)
  also have "8 * (n div 2 ^ 32) + n mod 2 ^ 32 div 2 ^ 29 = 8 * n div 2 ^ 32"
  proof -
    have "n mod (2 ^ 29 * 8) div 2 ^ 29 = n div 2 ^ 29 mod 8"
      unfolding mod_mult2_eq by simp
    moreover have "n div (2 ^ 29 * 8) = n div 2 ^ 29 div 8" by (rule div_mult2_eq)
    moreover have "(8 * n) div (8 * 2 ^ 29) = n div 2 ^ 29" by (rule div_mult_mult1) simp
    moreover have "8 * (k div 8) + k mod 8 = k" for k :: nat by simp
    ultimately show ?thesis by simp
  qed
  finally have hi: "unat (push_bit 3 (of_nat (n div 2 ^ 32)) OR drop_bit 29 (of_nat n) :: u32)
    = (8 * n div 2 ^ 32) mod 256 ^ 4" by (simp only: unat_of_nat) simp
  show ?thesis
    unfolding lo hi le_bytes_mod using le_bytes_add [of 4 4 "8 * n"] by simp
qed

lemma md5_pad_length: "(n + Suc ((119 - n mod 64) mod 64)) mod 64 = (56::nat)"
proof -
  define q r where "q = n div 64" and "r = n mod 64"
  have n: "n = q * 64 + r" "r < 64" by (simp_all add: q_def r_def)
  consider "r < 56" | "56 \<le> r" by linarith
  then show ?thesis
  proof cases
    case 1
    then have "(119 - r) mod 64 = 55 - r" by (simp add: mod_if)
    with 1 show ?thesis unfolding r_def [symmetric] using n by simp
  next
    case 2
    then have "(119 - r) mod 64 = 119 - r" using n by simp
    with 2 show ?thesis unfolding r_def [symmetric] using n by simp
  qed
qed

lemma md5_final_abs:
  assumes "md5_abs ctx m"
  shows "md_digest (md5_final ctx) = md5_spec m"
proof -
  define left where "left = md_datalen ctx"
  define pad where "pad = take (if left < 64 - 8 then 64 - 8 - left else 128 - 8 - left) md5_padding"
  define ctx' where "ctx' = md5_update ctx pad"
  have left: "left = length m mod 64" using assms by (simp add: left_def md5_abs_def)
  then have l64: "left < 64" by simp
  have pad: "pad = CHR 0x80 # replicate ((119 - length m mod 64) mod 64) NUL"
  proof (cases "left < 56")
    case True
    then have "(119 - left) mod 64 = 55 - left" by (simp add: mod_if)
    with True left show ?thesis by (simp add: pad_def md5_padding_def take_Cons' min_def)
  next
    case False
    then have "(119 - left) mod 64 = 119 - left" using l64 by simp
    with False l64 show ?thesis
      unfolding left [symmetric] by (simp add: pad_def md5_padding_def take_Cons' min_def)
  qed
  have len: "length (m @ pad) mod 64 = 56"
    unfolding pad using md5_pad_length [of "length m"] by simp
  have abs': "md5_abs ctx' (m @ pad)" unfolding ctx'_def using assms by (rule md5_update_abs)
  let ?k = "length (m @ pad) div 64 * 64"
  let ?rest' = "drop ?k (m @ pad)"
  have in': "take 56 (md_in ctx') = ?rest'" "length (md_in ctx') = 64"
    and buf': "md_buf ctx' = md5_update_block md5_initial (take ?k (m @ pad))"
    using abs' len unfolding md5_abs_def md5_update_block_whole [of _ "m @ pad"] by simp_all
  have r: "length ?rest' = 56" using len by (simp only: length_drop minus_div_mult_eq_mod)
  define w where "w = (chunk_words (md_in ctx'))[14 := push_bit 3 (md_count0 ctx),
     15 := push_bit 3 (md_count1 ctx) OR drop_bit 29 (md_count0 ctx)]"
  have "w = chunk_words (?rest' @ le_bytes 8 (8 * length m))"
    unfolding w_def chunk_words_patch [OF r in'(1,2)] bit_count_words
    using assms by (simp add: md5_abs_def)
  then have "md5_transform (md_buf ctx') w
      = md5_update_block (md_buf ctx') ((?rest' @ le_bytes 8 (8 * length m)) @ [])"
    using r by (simp only: md5_update_block_chunk length_append length_le_bytes) (simp add: md5_update_block_short)
  also have "\<dots> = md5_update_block md5_initial (take ?k (m @ pad) @ (?rest' @ le_bytes 8 (8 * length m)))"
  proof -
    have "?k \<le> length (m @ pad)" by (rule div_times_less_eq_dividend)
    then have "64 dvd length (take ?k (m @ pad))" by (simp only: length_take min_absorb2 dvd_triv_right)
    from md5_update_block_append [OF this] show ?thesis unfolding buf' append_Nil2 by simp
  qed
  also have "take ?k (m @ pad) @ (?rest' @ le_bytes 8 (8 * length m)) = md5_pad m"
    unfolding append.assoc [symmetric] append_take_drop_id by (simp add: md5_pad_def pad)
  finally show ?thesis
    unfolding md5_final_def Let_def left_def [symmetric] pad_def [symmetric]
      ctx'_def [symmetric] w_def [symmetric] by (simp add: md5_spec_def)
qed

lemma md5_hash_spec: "length (md_in ctx) = 64 \<Longrightarrow> md5_hash ctx d = md5_spec d"
  unfolding md5_hash_def using md5_update_abs [OF md5_abs_init] md5_final_abs by (metis append_Nil)

lemma length_md5_spec: "length (md5_spec m) = 16"
  by (simp add: md5_spec_def encode_state_def words_chunk_def split: prod.split)

subsection \<open>The hash of a message identifier\<close>

definition blank_context :: md5_context where
  "blank_context = \<lparr>md_count0 = 0, md_count1 = 0, md_buf = (0, 0, 0, 0), md_in = replicate 64 NUL,
     md_datalen = 0, md_digest = replicate 16 NUL\<rparr>"

definition Hash :: "string \<Rightarrow> hash" where
  "Hash v = md5_hash blank_context v"

text \<open>\<open>strncasecmp (a, b, n) = 0\<close>, and the index of the first \<open>@\<close>.\<close>

definition same_nocase :: "string \<Rightarrow> string \<Rightarrow> nat \<Rightarrow> bool" where
  "same_nocase a b n \<longleftrightarrow> map tolower (take n a) = map tolower (take n b)"

definition find_at :: "string \<Rightarrow> nat option" where
  "find_at s = (let k = length (takeWhile (\<lambda>c. c \<noteq> CHR ''@'') s) in
     if k < length s then Some k else None)"

definition cipoint :: "string \<Rightarrow> nat option" where
  "cipoint s =
     (case find_at s of None \<Rightarrow> None
      | Some p \<Rightarrow> if int p - 1 = 10 \<and> same_nocase ''postmaster'' (tl s) 10 then Some 0 else Some p)"

text \<open>The loop looks for an octet that is not lower case behind the point; only then the identifier
  is copied and lower-cased from that octet on.\<close>

definition HashMessageID :: "string \<Rightarrow> hash" where
  "HashMessageID mid =
     (case cipoint mid of None \<Rightarrow> Hash mid
      | Some cip \<Rightarrow>
        let p = cip + 1 + length (takeWhile islower (drop (cip + 1) mid)) in
        if p < length mid then Hash (take p mid @ map tolower (drop p mid)) else Hash mid)"

text \<open>The canonical form of RFC 822: the domain, and the whole of a postmaster's address, ignore
  case.\<close>

definition canonical_id :: "string \<Rightarrow> string" where
  "canonical_id mid =
     (case cipoint mid of None \<Rightarrow> mid
      | Some cip \<Rightarrow> take (cip + 1) mid @ map tolower (drop (cip + 1) mid))"

lemma map_tolower_id: "\<forall>c \<in> set s. islower c \<Longrightarrow> map tolower s = s"
  by (induction s) (auto simp: tolower_islower)

lemma HashMessageID_canonical: "HashMessageID mid = Hash (canonical_id mid)"
proof (cases "cipoint mid")
  case (Some cip)
  define r where "r = drop (cip + 1) mid"
  define low where "low = takeWhile islower r"
  define p where "p = cip + 1 + length low"
  have low: "map tolower low = low" unfolding low_def by (intro map_tolower_id) (auto dest: set_takeWhileD)
  have r: "r = low @ drop (length low) r" unfolding low_def by (metis takeWhile_eq_take append_take_drop_id)
  have "take p mid = take (cip + 1) mid @ low"
    using r by (metis append_eq_conv_conj p_def r_def take_add)
  moreover have "drop p mid = drop (length low) r" by (simp add: p_def r_def add.commute)
  ultimately have "take p mid @ map tolower (drop p mid) = take (cip + 1) mid @ map tolower r"
    using r low by (metis append.assoc map_append)
  moreover have "take p mid @ map tolower (drop p mid) = mid" if "\<not> p < length mid"
    using that by simp
  ultimately have "(if p < length mid then Hash (take p mid @ map tolower (drop p mid)) else Hash mid)
      = Hash (take (cip + 1) mid @ map tolower r)"
    by (metis (no_types, lifting))
  then show ?thesis
    unfolding HashMessageID_def canonical_id_def Some option.case Let_def r_def [symmetric]
      low_def [symmetric] p_def [symmetric] by simp
qed (simp add: HashMessageID_def canonical_id_def)

subsection \<open>Properties\<close>

text \<open>C8: however a message is cut into updates, the context represents the octets absorbed so far:
  chunk buffer, chaining state and the 64-bit count with its carry refine appending to the
  message.\<close>

theorem md5_update_refines_append:
  assumes "md5_abs ctx m"
  shows "md5_abs (md5_update ctx d) (m @ d)
    \<and> md_digest (md5_final (md5_update (md5_update ctx d) e)) = md_digest (md5_final (md5_update ctx (d @ e)))"
  using assms md5_update_abs md5_final_abs by (metis append.assoc)

theorem md5_update_refines_append_witness:
  "md5_abs (md5_update (md5_init blank_context) ''ab'') ''ab''"
  using md5_update_refines_append [OF md5_abs_init, of blank_context "''ab''" "''c''"]
  by (simp add: blank_context_def)

text \<open>C7: \<open>md5_hash\<close> computes the digest of RFC 1321 for messages of every length: the compression
  function folded over the message padded with one bit, zeros and the 64-bit length in bits,
  whatever the uninitialised context held.\<close>

theorem md5_hash_is_rfc1321:
  assumes "length (md_in context') = 64"
  shows "md5_hash context' m = encode_state (md5_update_block md5_initial (md5_pad m))
    \<and> 64 dvd length (md5_pad m)"
proof -
  have "(length m + Suc ((119 - length m mod 64) mod 64) + 8) mod 64 = (56 + 8) mod 64"
    using md5_pad_length [of "length m"] by (metis mod_add_left_eq)
  moreover have "length (md5_pad m) = length m + Suc ((119 - length m mod 64) mod 64) + 8"
    by (simp add: md5_pad_def)
  ultimately have "length (md5_pad m) mod 64 = (56 + 8) mod 64" by (simp only:)
  then have "64 dvd length (md5_pad m)" by (intro mod_0_imp_dvd) (simp only:, simp)
  then show ?thesis using md5_hash_spec [OF assms] by (simp add: md5_spec_def)
qed

theorem md5_hash_is_rfc1321_witness:
  "md5_hash blank_context ''abc'' = encode_state (md5_update_block md5_initial (md5_pad ''abc''))"
  using md5_hash_is_rfc1321 [of blank_context "''abc''"] by (simp add: blank_context_def)



end
