(* ===== verification/MessageId.thy ===== *)
theory MessageId
  imports Encode
begin

text \<open>
  Message identifiers (\<^verbatim>\<open>lib/messageid.c\<close>): the character classes, the strict and the lax
  syntax check, the check of a domain, and the generation of new identifiers. The scanners work on
  suffixes of the string; the grammar they recognise is stated independently with
  \<open>dot_atom\<close> and \<open>no_fold_literal\<close> (RFC 5322, RFC 5536).
\<close>

subsection \<open>Character classes\<close>

definition msgid_atom_chars :: string where
  "msgid_atom_chars = ''abcdefghijklmnopqrstuvwxyzABCDEFGHIJKLMNOPQRSTUVWXYZ0123456789''
     @ ''!#$%&'' @ [CHR 0x27] @ ''*+-/=?^_`{|}~''"

definition msgid_norm_chars :: string where
  "msgid_norm_chars = DQUOTE # ''(),.:;<@''"

definition midatomchar :: "char \<Rightarrow> bool" where
  "midatomchar c \<longleftrightarrow> c \<in> set msgid_atom_chars"

definition midnormchar :: "char \<Rightarrow> bool" where
  "midnormchar c \<longleftrightarrow> c \<in> set msgid_atom_chars \<or> c \<in> set msgid_norm_chars"

lemma atom_facts [simp]:
  "\<not> midatomchar NUL" "\<not> midatomchar CHR ''.''" "\<not> midatomchar CHR ''@''" "\<not> midatomchar CHR ''<''"
  "\<not> midatomchar CHR ''>''" "\<not> midatomchar CHR ''[''" "\<not> midatomchar CHR '']''" "\<not> midatomchar SP"
  "midatomchar CHR ''$''"
  by (simp_all add: midatomchar_def msgid_atom_chars_def)

lemma norm_facts [simp]:
  "\<not> midnormchar NUL" "midnormchar CHR ''.''" "midnormchar CHR ''@''" "\<not> midnormchar CHR ''>''"
  "\<not> midnormchar CHR ''[''" "\<not> midnormchar CHR '']''" "midatomchar c \<Longrightarrow> midnormchar c"
  by (simp_all add: midnormchar_def midatomchar_def msgid_norm_chars_def msgid_atom_chars_def)

subsection \<open>The scanners\<close>

text \<open>The local part, up to the octet that ends it; \<open>None\<close> is a rejected octet.\<close>

function local_loop :: "bool \<Rightarrow> string \<Rightarrow> string option" where
  "local_loop laxsyntax p =
     (if midatomchar (peek p) then
        let p' = dropWhile midatomchar (tl p) in
        if laxsyntax \<and> (midnormchar (peek p') \<or> peek p' = CHR ''['' \<or> peek p' = CHR '']'')
        then local_loop laxsyntax (tl p')
        else if peek p' \<noteq> CHR ''.'' then Some p' else local_loop laxsyntax (tl p')
      else if laxsyntax \<and> (midnormchar (peek p) \<or> peek p = CHR ''['' \<or> peek p = CHR '']'')
      then local_loop laxsyntax (tl p)
      else if laxsyntax \<and> peek p = CHR ''>'' then Some p
      else None)"
  by pat_completeness auto
termination
proof (relation "measure (\<lambda>(l, p). length p)", goal_cases)
  case (2 l p p')
  then show ?case
    using length_dropWhile_le [of midatomchar "tl p"] by (cases p) auto
next
  case (3 l p p')
  then show ?case
    using length_dropWhile_le [of midatomchar "tl p"] by (cases p) auto
next
  case (4 l p)
  then show ?case by (cases p) auto
qed simp

declare local_loop.simps [simp del]

definition literal_part :: "string \<Rightarrow> string option" where
  "literal_part p =
     (let p' = dropWhile midnormchar p in
      if peek p' = CHR '']'' then Some (tl p') else None)"

function right_loop :: "bool \<Rightarrow> string \<Rightarrow> string option" where
  "right_loop firstchar p =
     (if midatomchar (peek p) then
        let p' = dropWhile midatomchar (tl p) in
        if peek p' \<noteq> CHR ''.'' then Some p' else right_loop False (tl p')
      else if \<not> firstchar \<or> peek p \<noteq> CHR ''['' then None
      else literal_part (tl p))"
  by pat_completeness auto
termination
proof (relation "measure (\<lambda>(f, p). length p)", goal_cases)
  case (2 f p p')
  then show ?case
    using length_dropWhile_le [of midatomchar "tl p"] by (cases p) auto
qed simp

declare right_loop.simps [simp del]

definition skip_white :: "string \<Rightarrow> string" where
  "skip_white p = dropWhile iswhite p"

definition IsValidRightPartMessageID :: "string option \<Rightarrow> bool \<Rightarrow> bool \<Rightarrow> bool" where
  "IsValidRightPartMessageID domain stripspaces bracket =
     (case domain of None \<Rightarrow> False
      | Some d \<Rightarrow>
        (case right_loop True d of None \<Rightarrow> False
         | Some p \<Rightarrow>
           if bracket \<and> peek p \<noteq> CHR ''>'' then False
           else let p = (if bracket then tl p else p);
                    p = (if stripspaces then skip_white p else p)
                in p = []))"

definition IsValidDomain :: "string option \<Rightarrow> bool" where
  "IsValidDomain domain = IsValidRightPartMessageID domain False False"

definition NNTP_MAXLEN_MSGID :: nat where "NNTP_MAXLEN_MSGID = 250"

definition IsValidMessageID :: "string option \<Rightarrow> bool \<Rightarrow> bool \<Rightarrow> bool" where
  "IsValidMessageID MessageID stripspaces laxsyntax =
     (case MessageID of None \<Rightarrow> False
      | Some m \<Rightarrow>
        let p = (if stripspaces then skip_white m else m);
            q = length (takeWhile (\<lambda>c. c \<noteq> CHR ''>'') p)
        in if q = length p \<or> q + 1 > NNTP_MAXLEN_MSGID then False
           else if peek p \<noteq> CHR ''<'' then False
           else if peek (tl p) = CHR ''>'' then False
           else (case local_loop laxsyntax (tl p) of None \<Rightarrow> False
                 | Some p \<Rightarrow>
                   if laxsyntax then
                     peek p = CHR ''>'' \<and> (if stripspaces then skip_white (tl p) else tl p) = []
                   else if peek p \<noteq> CHR ''@'' then False
                   else IsValidRightPartMessageID (Some (tl p)) stripspaces True))"

subsection \<open>The grammar\<close>

definition atom :: "string \<Rightarrow> bool" where
  "atom w \<longleftrightarrow> w \<noteq> [] \<and> (\<forall>c \<in> set w. midatomchar c)"

inductive dot_atom :: "string \<Rightarrow> bool" where
  one: "atom w \<Longrightarrow> dot_atom w"
| more: "atom w \<Longrightarrow> dot_atom d \<Longrightarrow> dot_atom (w @ CHR ''.'' # d)"

definition no_fold_literal :: "string \<Rightarrow> bool" where
  "no_fold_literal d \<longleftrightarrow> (\<exists>t. d = CHR ''['' # t @ '']'' \<and> (\<forall>c \<in> set t. midnormchar c))"

definition id_right :: "string \<Rightarrow> bool" where
  "id_right d \<longleftrightarrow> dot_atom d \<or> no_fold_literal d"

definition lax_char :: "char \<Rightarrow> bool" where
  "lax_char c \<longleftrightarrow> midnormchar c \<or> c = CHR ''['' \<or> c = CHR '']''"

text \<open>What may surround the identifier.\<close>

definition pad_ok :: "bool \<Rightarrow> string \<Rightarrow> bool" where
  "pad_ok stripspaces w \<longleftrightarrow> (if stripspaces then \<forall>c \<in> set w. iswhite c else w = [])"

lemma dropWhile_peek: "\<not> P (peek r) \<Longrightarrow> \<forall>c \<in> set w. P c \<Longrightarrow> dropWhile P (w @ r) = r"
  by (cases r) (simp_all add: dropWhile_append2)

lemma peek_dropWhile: "\<not> P NUL \<Longrightarrow> \<not> P (peek (dropWhile P s))"
  by (induction s) auto

lemma split_while: "\<exists>w. s = w @ dropWhile P s \<and> (\<forall>c \<in> set w. P c)"
  by (metis set_takeWhileD takeWhile_dropWhile_id)

lemma atom_peek: "midatomchar (peek p) \<Longrightarrow> dropWhile midatomchar (tl p) = dropWhile midatomchar p"
  by (cases p) auto

lemma atom_split:
  assumes "midatomchar (peek p)"
  obtains w where "atom w" "p = w @ dropWhile midatomchar (tl p)"
proof -
  obtain w where w: "p = w @ dropWhile midatomchar p" "\<forall>c \<in> set w. midatomchar c"
    using split_while by metis
  moreover have "w \<noteq> []" using assms w(1) peek_dropWhile [of midatomchar p] by auto
  ultimately show ?thesis using that atom_peek [OF assms] by (auto simp: atom_def)
qed

lemma atom_head: "atom w \<Longrightarrow> w \<noteq> [] \<and> midatomchar (peek (w @ r))"
  by (cases w) (auto simp: atom_def)

lemma dot_atom_peek: "dot_atom d \<Longrightarrow> d \<noteq> [] \<and> midatomchar (peek (d @ r))"
  by (induction rule: dot_atom.induct) (auto simp: atom_head)

lemma dot_atom_cases:
  assumes "dot_atom d" "\<not> midatomchar (peek r)"
  shows "\<exists>w. atom w \<and> ((d = w \<and> dropWhile midatomchar (tl (d @ r)) = r)
    \<or> (\<exists>d'. dot_atom d' \<and> d = w @ CHR ''.'' # d' \<and> dropWhile midatomchar (tl (d @ r)) = CHR ''.'' # d' @ r))"
proof -
  have tl: "dropWhile midatomchar (tl (d @ r)) = dropWhile midatomchar (d @ r)"
    using dot_atom_peek [OF assms(1)] by (intro atom_peek) auto
  show ?thesis
    using assms(1)
  proof (cases rule: dot_atom.cases)
    case one
    then have "dropWhile midatomchar (d @ r) = r"
      using assms(2) by (intro dropWhile_peek) (auto simp: atom_def)
    with one tl show ?thesis by metis
  next
    case (more w d')
    then have "dropWhile midatomchar (d @ r) = CHR ''.'' # d' @ r"
      by (simp add: atom_def dropWhile_peek)
    with more tl show ?thesis by metis
  qed
qed

lemma local_loop_strict:
  "local_loop False p = Some r \<longleftrightarrow>
     (\<exists>d. dot_atom d \<and> p = d @ r) \<and> \<not> midatomchar (peek r) \<and> peek r \<noteq> CHR ''.''"
  (is "?L p \<longleftrightarrow> ?R p")
proof
  assume "?L p"
  then show "?R p"
  proof (induction "False" p rule: local_loop.induct)
    case (1 p)
    from 1(4) have at: "midatomchar (peek p)" by (subst (asm) local_loop.simps) (auto split: if_splits)
    let ?p' = "dropWhile midatomchar (tl p)"
    obtain w where w: "atom w" "p = w @ ?p'" using at by (rule atom_split)
    show ?case
    proof (cases "peek ?p' = CHR ''.''")
      case True
      with 1(4) at have "local_loop False (tl ?p') = Some r" by (subst (asm) local_loop.simps) simp
      with 1(2) at True obtain d where "dot_atom d" "tl ?p' = d @ r"
        "\<not> midatomchar (peek r)" "peek r \<noteq> CHR ''.''" by auto
      moreover have "?p' = CHR ''.'' # tl ?p'" using True by (cases ?p') auto
      ultimately show ?thesis using w dot_atom.more [OF w(1), of d]
        by (metis append.assoc append_Cons)
    next
      case False
      with 1(4) at have "?p' = r" by (subst (asm) local_loop.simps) simp
      with w False peek_dropWhile [of midatomchar "tl p"] show ?thesis using dot_atom.one by auto
    qed
  qed
next
  assume "?R p"
  then obtain d where d: "dot_atom d" "p = d @ r" and r: "\<not> midatomchar (peek r)" "peek r \<noteq> CHR ''.''"
    by blast
  from d show "?L p"
  proof (induction "length d" arbitrary: d p rule: less_induct)
    case less
    note at = dot_atom_peek [OF less.prems(1), of r]
    from dot_atom_cases [OF less.prems(1) r(1)] obtain w where w: "atom w"
      and "(d = w \<and> dropWhile midatomchar (tl (d @ r)) = r)
        \<or> (\<exists>d'. dot_atom d' \<and> d = w @ CHR ''.'' # d' \<and> dropWhile midatomchar (tl (d @ r)) = CHR ''.'' # d' @ r)"
      by blast
    then show ?case
    proof (elim disjE exE conjE)
      assume "dropWhile midatomchar (tl (d @ r)) = r"
      then show ?thesis using at r less.prems(2) by (subst local_loop.simps) simp
    next
      fix d' assume "dot_atom d'" "d = w @ CHR ''.'' # d'"
        "dropWhile midatomchar (tl (d @ r)) = CHR ''.'' # d' @ r"
      then show ?thesis using at less by (subst local_loop.simps) simp
    qed
  qed
qed

lemma literal_part_iff:
  "literal_part p = Some r \<longleftrightarrow> (\<exists>t. p = t @ CHR '']'' # r \<and> (\<forall>c \<in> set t. midnormchar c))"
proof
  let ?p' = "dropWhile midnormchar p"
  assume "literal_part p = Some r"
  then have "peek ?p' = CHR '']''" "r = tl ?p'" by (auto simp: literal_part_def Let_def split: if_splits)
  then have "?p' = CHR '']'' # r" by (cases ?p') auto
  then show "\<exists>t. p = t @ CHR '']'' # r \<and> (\<forall>c \<in> set t. midnormchar c)"
    using split_while [of p midnormchar] by metis
next
  assume "\<exists>t. p = t @ CHR '']'' # r \<and> (\<forall>c \<in> set t. midnormchar c)"
  then obtain t where "p = t @ CHR '']'' # r" "\<forall>c \<in> set t. midnormchar c" by blast
  then have "dropWhile midnormchar p = CHR '']'' # r"
    by (simp add: dropWhile_peek del: dropWhile_append2 dropWhile_append)
  then show "literal_part p = Some r" by (simp add: literal_part_def)
qed

text \<open>On a component list the domain scanner is the strict scanner of the local part.\<close>

lemma right_loop_atoms:
  "midatomchar (peek p) \<or> \<not> firstchar \<Longrightarrow> right_loop firstchar p = local_loop False p"
proof (induction firstchar p rule: right_loop.induct)
  case (1 firstchar p)
  show ?case
  proof (cases "midatomchar (peek p)")
    case True
    with 1(1) [OF True refl] show ?thesis
      by (subst right_loop.simps, subst local_loop.simps) (simp add: Let_def)
  qed (use 1(2) in \<open>subst right_loop.simps, subst local_loop.simps, simp\<close>)
qed

lemma right_loop_iff:
  "right_loop True p = Some r \<longleftrightarrow>
     (\<exists>d. dot_atom d \<and> p = d @ r) \<and> \<not> midatomchar (peek r) \<and> peek r \<noteq> CHR ''.''
     \<or> (\<exists>d. no_fold_literal d \<and> p = d @ r)"
proof (cases "midatomchar (peek p)")
  case True
  then have "\<not> (\<exists>d. no_fold_literal d \<and> p = d @ r)" by (auto simp: no_fold_literal_def)
  with True show ?thesis using local_loop_strict [of p r] by (simp only: right_loop_atoms simp_thms)
next
  case False
  then have no: "\<not> (\<exists>d. dot_atom d \<and> p = d @ r)" using dot_atom_peek by blast
  have "right_loop True p = (if peek p = CHR ''['' then literal_part (tl p) else None)"
    using False by (subst right_loop.simps) simp
  also have "\<dots> = Some r \<longleftrightarrow> (\<exists>d. no_fold_literal d \<and> p = d @ r)"
    by (cases p) (auto simp: literal_part_iff no_fold_literal_def)
  finally show ?thesis using no by blast
qed

lemma pad_ok_end:
  "(if s then skip_white p else p) = [] \<longleftrightarrow> pad_ok s p"
  by (auto simp: skip_white_def pad_ok_def dropWhile_eq_Nil_conv)

lemma IsValidRightPart_bracket:
  "IsValidRightPartMessageID (Some p) s True \<longleftrightarrow>
     (\<exists>d post. id_right d \<and> p = d @ CHR ''>'' # post \<and> pad_ok s post)"
  (is "?L \<longleftrightarrow> ?R")
proof -
  have "?L \<longleftrightarrow> (\<exists>post. right_loop True p = Some (CHR ''>'' # post) \<and> pad_ok s post)"
  proof (cases "right_loop True p")
    case (Some r)
    then show ?thesis
      by (cases r) (auto simp: IsValidRightPartMessageID_def pad_ok_end [symmetric] split: if_splits)
  qed (simp add: IsValidRightPartMessageID_def)
  then show ?thesis by (auto simp: right_loop_iff id_right_def)
qed

lemma IsValidDomain_iff: "IsValidDomain (Some d) \<longleftrightarrow> id_right d"
proof -
  have "IsValidDomain (Some d) \<longleftrightarrow> right_loop True d = Some []"
    by (simp add: IsValidDomain_def IsValidRightPartMessageID_def split: option.split)
  then show ?thesis by (simp add: right_loop_iff id_right_def)
qed

text \<open>The lax scanner.\<close>

lemma dropWhile_lax:
  "lax_char (peek p) \<Longrightarrow> dropWhile lax_char p = dropWhile lax_char (tl p)"
  "\<not> lax_char (peek p) \<Longrightarrow> dropWhile lax_char p = p"
  by (cases p; simp add: lax_char_def)+

lemma dropWhile_lax_atoms: "dropWhile lax_char (dropWhile midatomchar p) = dropWhile lax_char p"
  by (induction p) (auto simp: lax_char_def)

lemma local_loop_lax:
  "(local_loop True p = Some r \<longrightarrow> r = dropWhile lax_char p) \<and>
   (peek (dropWhile lax_char p) = CHR ''>'' \<longrightarrow> local_loop True p = Some (dropWhile lax_char p))"
proof (induction True p rule: local_loop.induct)
  case (1 p)
  let ?p' = "dropWhile midatomchar (tl p)"
  have step: "local_loop True p =
     (if midatomchar (peek p) then
        if lax_char (peek ?p') then local_loop True (tl ?p')
        else if peek ?p' \<noteq> CHR ''.'' then Some ?p' else local_loop True (tl ?p')
      else if lax_char (peek p) then local_loop True (tl p)
      else if peek p = CHR ''>'' then Some p else None)"
    unfolding lax_char_def by (subst local_loop.simps) (simp only: Let_def simp_thms)
  consider "midatomchar (peek p)" "lax_char (peek ?p')"
    | "midatomchar (peek p)" "\<not> lax_char (peek ?p')"
    | "\<not> midatomchar (peek p)" "lax_char (peek p)" | "\<not> midatomchar (peek p)" "\<not> lax_char (peek p)"
    by blast
  then show ?case
  proof cases
    case 1
    then have "local_loop True p = local_loop True (tl ?p')" by (simp add: step)
    moreover have "dropWhile lax_char p = dropWhile lax_char (tl ?p')"
      using 1 dropWhile_lax(1) [of ?p'] dropWhile_lax_atoms [of p] atom_peek [of p] by simp
    ultimately show ?thesis
      by (simp only:) (rule "1.hyps"(1), use 1 in \<open>simp_all add: lax_char_def\<close>)
  next
    case 2
    then have "peek ?p' \<noteq> CHR ''.''" by (auto simp: lax_char_def)
    with 2 have "local_loop True p = Some ?p'" by (simp add: step)
    moreover have "dropWhile lax_char p = ?p'"
      using 2 dropWhile_lax(2) [of ?p'] dropWhile_lax_atoms [of p] atom_peek [of p] by simp
    ultimately show ?thesis by simp
  next
    case 3
    then have "local_loop True p = local_loop True (tl p)" by (simp add: step)
    moreover have "dropWhile lax_char p = dropWhile lax_char (tl p)" using 3 by (simp add: dropWhile_lax)
    ultimately show ?thesis
      by (simp only:) (rule "1.hyps"(3), use 3 in \<open>simp_all add: lax_char_def\<close>)
  next
    case 4
    moreover have "\<not> lax_char CHR ''>''" by (simp add: lax_char_def)
    ultimately show ?thesis by (auto simp: step dropWhile_lax)
  qed
qed

text \<open>Leading whitespace.\<close>

lemma pad_front:
  "peek (if s then skip_white m else m) = CHR ''<'' \<and> Q (if s then skip_white m else m)
    \<longleftrightarrow> (\<exists>pre p. m = pre @ p \<and> pad_ok s pre \<and> peek p = CHR ''<'' \<and> Q p)"
proof (cases s)
  case True
  have "\<exists>pre. m = pre @ skip_white m \<and> (\<forall>c \<in> set pre. iswhite c)"
    unfolding skip_white_def by (rule split_while)
  moreover have "skip_white (pre @ p) = p" if "\<forall>c \<in> set pre. iswhite c" "peek p = CHR ''<''" for pre p
    unfolding skip_white_def using that by (intro dropWhile_peek) (simp_all add: iswhite_def)
  ultimately show ?thesis using True unfolding pad_ok_def by auto
next
  case False
  then show ?thesis by (auto simp: pad_ok_def)
qed

lemma norm_no_close: "\<forall>c \<in> set x. midnormchar c \<Longrightarrow> CHR ''>'' \<notin> set x"
  by (metis norm_facts(4))

lemma dot_atom_chars: "dot_atom d \<Longrightarrow> c \<in> set d \<Longrightarrow> midnormchar c"
  by (induction rule: dot_atom.induct) (auto simp: atom_def)

lemma id_right_chars: "id_right d \<Longrightarrow> c \<in> set d \<Longrightarrow> lax_char c"
  by (auto simp: id_right_def no_fold_literal_def lax_char_def dest: dot_atom_chars)

lemma lax_no_close: "\<forall>c \<in> set x. lax_char c \<Longrightarrow> CHR ''>'' \<notin> set x"
  by (auto simp: lax_char_def)

lemma id_right_nonempty: "id_right d \<Longrightarrow> d \<noteq> []"
  by (auto simp: id_right_def no_fold_literal_def dest: dot_atom_peek)

lemma close_index:
  "CHR ''>'' \<notin> set x \<Longrightarrow> length (takeWhile (\<lambda>c. c \<noteq> CHR ''>'') (x @ CHR ''>'' # post)) = length x"
  using takeWhile_append2 [of x "\<lambda>c. c \<noteq> CHR ''>''" "CHR ''>'' # post"] by fastforce

definition strict_core :: "string \<Rightarrow> bool" where
  "strict_core core \<longleftrightarrow>
     (\<exists>l d. core = CHR ''<'' # l @ CHR ''@'' # d @ ''>'' \<and> dot_atom l \<and> id_right d)"

definition lax_core :: "string \<Rightarrow> bool" where
  "lax_core core \<longleftrightarrow> (\<exists>x. core = CHR ''<'' # x @ ''>'' \<and> x \<noteq> [] \<and> (\<forall>c \<in> set x. lax_char c))"

lemma strict_core_lax: "strict_core core \<Longrightarrow> lax_core core"
  unfolding strict_core_def lax_core_def
proof (elim exE conjE)
  fix l d assume c: "core = CHR ''<'' # l @ CHR ''@'' # d @ ''>''" "dot_atom l" "id_right d"
  then have "\<forall>c \<in> set (l @ CHR ''@'' # d). lax_char c"
    by (auto simp: lax_char_def [of "CHR ''@''"] intro: id_right_chars dest: dot_atom_chars simp: id_right_def)
  with c show "\<exists>x. core = CHR ''<'' # x @ ''>'' \<and> x \<noteq> [] \<and> (\<forall>c \<in> set x. lax_char c)"
    by (intro exI [of _ "l @ CHR ''@'' # d"]) simp
qed

lemma core_index:
  assumes "lax_core core"
  shows "length (takeWhile (\<lambda>c. c \<noteq> CHR ''>'') (core @ post)) + 1 = length core"
    "peek (core @ post) = CHR ''<''" "peek (tl (core @ post)) \<noteq> CHR ''>''"
proof -
  from assms obtain x where x: "core = CHR ''<'' # x @ ''>''" "x \<noteq> []" "\<forall>c \<in> set x. lax_char c"
    unfolding lax_core_def by blast
  then have "CHR ''>'' \<notin> set (CHR ''<'' # x)" using lax_no_close by auto
  from close_index [OF this, of post] x(1)
  show "length (takeWhile (\<lambda>c. c \<noteq> CHR ''>'') (core @ post)) + 1 = length core" by simp
  show "peek (core @ post) = CHR ''<''" using x(1) by simp
  from x show "peek (tl (core @ post)) \<noteq> CHR ''>''" by (cases x) (auto simp: lax_char_def)
qed

text \<open>The test behind the length check, as a predicate on the string from the \<open><\<close> on.\<close>

lemma scan_iff:
  assumes "peek p = CHR ''<''"
  shows "peek (tl p) \<noteq> CHR ''>'' \<and>
      (case local_loop lax (tl p) of None \<Rightarrow> False
       | Some p \<Rightarrow> if lax then peek p = CHR ''>'' \<and> (if s then skip_white (tl p) else tl p) = []
           else if peek p \<noteq> CHR ''@'' then False
           else IsValidRightPartMessageID (Some (tl p)) s True)
    \<longleftrightarrow> (\<exists>core post. p = core @ post \<and> pad_ok s post \<and> (if lax then lax_core core else strict_core core))"
    (is "_ \<and> ?scan \<longleftrightarrow> ?R")
proof -
  obtain x where p: "p = CHR ''<'' # x" using assms by (cases p) auto
  have "(peek x \<noteq> CHR ''>'' \<and> ?scan) \<longleftrightarrow> ?R"
  proof (cases lax)
    case False
    have "?scan \<longleftrightarrow> (\<exists>q. local_loop False x = Some (CHR ''@'' # q) \<and> IsValidRightPartMessageID (Some q) s True)"
    proof (cases "local_loop False x")
      case (Some r)
      with False p show ?thesis by (cases r) auto
    qed (use False p in simp)
    also have "\<dots> \<longleftrightarrow> (\<exists>l d post. dot_atom l \<and> id_right d \<and> pad_ok s post \<and> x = l @ CHR ''@'' # d @ CHR ''>'' # post)"
      by (auto simp: local_loop_strict IsValidRightPart_bracket)
    also have "\<dots> \<longleftrightarrow> (\<exists>core post. p = core @ post \<and> pad_ok s post \<and> strict_core core)"
    proof (safe, goal_cases)
      case (1 l d post)
      then show ?case
        using p by (intro exI [of _ "CHR ''<'' # l @ CHR ''@'' # d @ ''>''"] exI [of _ post])
          (auto simp: strict_core_def)
    next
      case (2 core post)
      then show ?case using p by (auto simp: strict_core_def, blast)
    qed
    also have "\<dots> \<longleftrightarrow> ?R" using False by simp
    finally have "?scan \<longleftrightarrow> ?R" .
    moreover have "peek x \<noteq> CHR ''>''" if r: ?R
    proof -
      from r obtain core post where "p = core @ post" "lax_core core"
        using strict_core_lax by (auto split: if_splits)
      moreover from this(1) have "tl (core @ post) = x" using p by (metis list.sel(3))
      ultimately show ?thesis using core_index(3) [of core post] by simp
    qed
    ultimately show ?thesis by blast
  next
    case True
    define r where "r = dropWhile lax_char x"
    obtain w where w: "x = w @ r" "\<forall>c \<in> set w. lax_char c" unfolding r_def using split_while by metis
    have "?scan \<longleftrightarrow> peek r = CHR ''>'' \<and> pad_ok s (tl r)"
    proof (cases "local_loop True x")
      case None
      then have "peek r \<noteq> CHR ''>''" using local_loop_lax [of x] unfolding r_def by auto
      with None True p show ?thesis by simp
    next
      case (Some r')
      then have "r' = r" using local_loop_lax [of x r'] unfolding r_def by blast
      with Some True p show ?thesis by (simp add: pad_ok_end)
    qed
    moreover have "peek x \<noteq> CHR ''>'' \<longleftrightarrow> w \<noteq> []" if "peek r = CHR ''>''"
      using w that by (cases w) (auto simp: lax_char_def)
    moreover have "peek r = CHR ''>'' \<and> pad_ok s (tl r) \<and> w \<noteq> [] \<longleftrightarrow> ?R"
    proof
      assume "peek r = CHR ''>'' \<and> pad_ok s (tl r) \<and> w \<noteq> []"
      moreover from this have "r = CHR ''>'' # tl r" by (cases r) auto
      ultimately have "p = (CHR ''<'' # w @ ''>'') @ tl r" "lax_core (CHR ''<'' # w @ ''>'')" "pad_ok s (tl r)"
        using w p by (auto simp: lax_core_def)
      with True show ?R by (metis (full_types))
    next
      assume ?R
      with True p obtain y post where y: "x = y @ CHR ''>'' # post" "y \<noteq> []" "\<forall>c \<in> set y. lax_char c" "pad_ok s post"
        by (auto simp: lax_core_def)
      then have "r = CHR ''>'' # post"
        using dropWhile_peek [of lax_char "CHR ''>'' # post" y] unfolding r_def by (simp add: lax_char_def)
      with w y show "peek r = CHR ''>'' \<and> pad_ok s (tl r) \<and> w \<noteq> []" by auto
    qed
    ultimately show ?thesis by blast
  qed
  with p show ?thesis by simp
qed

theorem IsValidMessageID_grammar:
  "IsValidMessageID (Some m) s lax \<longleftrightarrow>
     (\<exists>pre core post. m = pre @ core @ post \<and> pad_ok s pre \<and> pad_ok s post \<and> length core \<le> 250
        \<and> (if lax then lax_core core else strict_core core))"
proof -
  let ?core = "\<lambda>core. if lax then lax_core core else strict_core core"
  let ?Q = "\<lambda>p. \<exists>core post. p = core @ post \<and> pad_ok s post \<and> length core \<le> 250 \<and> ?core core"
  let ?q = "\<lambda>p. length (takeWhile (\<lambda>c. c \<noteq> CHR ''>'') p)"
  have lax: "?core core \<Longrightarrow> lax_core core" for core using strict_core_lax by (auto split: if_splits)
  have k: "?q (core @ post) + 1 = length core" "?q (core @ post) \<noteq> length (core @ post)"
    if "?core core" for core post
    using core_index(1) [OF lax [OF that], of post] by auto
  have Q: "?Q p \<longleftrightarrow> \<not> (?q p = length p \<or> ?q p + 1 > 250)
      \<and> (\<exists>core post. p = core @ post \<and> pad_ok s post \<and> ?core core)" for p
    using k by (metis (no_types, lifting) not_less)
  have "IsValidMessageID (Some m) s lax \<longleftrightarrow>
      peek (if s then skip_white m else m) = CHR ''<'' \<and> ?Q (if s then skip_white m else m)"
    using scan_iff [of "if s then skip_white m else m" lax s] Q [of "if s then skip_white m else m"]
    unfolding IsValidMessageID_def option.case Let_def NNTP_MAXLEN_MSGID_def by argo
  also have "\<dots> \<longleftrightarrow> (\<exists>pre p. m = pre @ p \<and> pad_ok s pre \<and> peek p = CHR ''<'' \<and> ?Q p)" by (rule pad_front)
  also have "\<dots> \<longleftrightarrow> (\<exists>pre core post. m = pre @ core @ post \<and> pad_ok s pre \<and> pad_ok s post \<and> length core \<le> 250
        \<and> ?core core)"
  proof -
    have "?Q p \<Longrightarrow> peek p = CHR ''<''" for p using lax core_index(2) by blast
    then show ?thesis by blast
  qed
  finally show ?thesis .
qed

subsection \<open>Generation\<close>

text \<open>The time, the process, the post counter and the server's name are arguments; \<open>count\<close> is the
  number of identifiers generated before. The buffer has 256 octets.\<close>

definition OFFSET :: u64 where "OFFSET = 673416000"

definition SMBUF :: nat where "SMBUF = 256"

definition GenerateMessageID ::
    "u64 \<Rightarrow> u64 \<Rightarrow> nat \<Rightarrow> string option \<Rightarrow> string option \<Rightarrow> (string \<times> nat) option" where
  "GenerateMessageID now pid count inn_fqdn domain =
     (let sec32 = Radix32 (now - OFFSET); pid32 = Radix32 pid;
          finish = (\<lambda>p. Some (take (SMBUF - 1)
             (''<'' @ sec32 @ ''$'' @ pid32 @ ''$'' @ show_nat (count + 1) @ ''@'' @ p @ ''>''), count + 1))
      in case domain of
           Some p \<Rightarrow> finish p
         | None \<Rightarrow>
           if \<not> IsValidDomain inn_fqdn then None
           else finish (case inn_fqdn of None \<Rightarrow> [] | Some p \<Rightarrow> p))"

lemma alphabet_atom: "c \<in> set radix_alphabet \<Longrightarrow> midatomchar c \<and> c \<noteq> CHR ''$'' \<and> c \<noteq> CHR ''@''"
  by (auto simp: radix_alphabet_def midatomchar_def msgid_atom_chars_def)

lemma digit_atom:
  assumes "isdigit c"
  shows "midatomchar c \<and> c \<noteq> CHR ''@''"
proof -
  from assms have "byte c - 48 < 16" "byte c = 48 + (byte c - 48)" "byte c - 48 \<le> 9"
    unfolding isdigit_def by linarith+
  then obtain k where k: "k \<le> 9" "byte c = 48 + k" by metis
  then have "k < 16" by simp
  from less_16_cases [OF this] k have "\<exists>d \<in> set ''0123456789''. byte c = byte d"
    by (elim disjE) simp_all
  then have "c \<in> set ''0123456789''" by auto
  then show ?thesis by (auto simp: midatomchar_def msgid_atom_chars_def)
qed

definition id_local :: "u64 \<Rightarrow> u64 \<Rightarrow> nat \<Rightarrow> string" where
  "id_local now pid n = Radix32 (now - OFFSET) @ ''$'' @ Radix32 pid @ ''$'' @ show_nat n"

lemma id_local_atom: "atom (id_local now pid n)"
  using Radix32_correct alphabet_atom show_nat_facts(2) [of _ n] digit_atom
  by (fastforce simp: atom_def id_local_def)

lemma id_local_length: "n < 10 ^ 10 \<Longrightarrow> length (id_local now pid n) \<le> 26"
  using Radix32_correct [of "now - OFFSET"] Radix32_correct [of pid] length_show_nat [of n 9]
  by (simp add: id_local_def)

lemma Generate_text:
  assumes "GenerateMessageID now pid count fqdn domain = Some (mid, count')" "count < 10 ^ 10 - 1"
  defines "d \<equiv> (case domain of Some p \<Rightarrow> p | None \<Rightarrow> the fqdn)"
  assumes "length d \<le> 221"
  shows "mid = ''<'' @ id_local now pid (count + 1) @ ''@'' @ d @ ''>'' \<and> count' = count + 1"
proof -
  have "length (''<'' @ id_local now pid (count + 1) @ ''@'' @ d @ ''>'') \<le> SMBUF - 1"
    using id_local_length [of "count + 1" now pid] assms(2,4) by (simp add: SMBUF_def)
  from take_all [OF this] assms(1) show ?thesis
    by (auto simp: GenerateMessageID_def Let_def d_def id_local_def IsValidDomain_def
        IsValidRightPartMessageID_def split: option.splits if_splits)
qed

lemma dollar_cut:
  assumes "a @ CHR ''$'' # x = b @ CHR ''$'' # y" "CHR ''$'' \<notin> set a" "CHR ''$'' \<notin> set b"
  shows "a = b \<and> x = y"
proof -
  have "takeWhile (\<lambda>c. c \<noteq> CHR ''$'') (s @ CHR ''$'' # z) = s" if "CHR ''$'' \<notin> set s" for s z
    using that takeWhile_append2 [of s "\<lambda>c. c \<noteq> CHR ''$''" "CHR ''$'' # z"] by fastforce
  with assms have "a = b" by metis
  with assms(1) show ?thesis by simp
qed

lemma id_local_inject:
  assumes "id_local now pid n = id_local now' pid' n'"
  shows "unat ((now - OFFSET) AND 0xFFFFFFFF) = unat ((now' - OFFSET) AND 0xFFFFFFFF)
    \<and> unat (pid AND 0xFFFFFFFF) = unat (pid' AND 0xFFFFFFFF) \<and> n = n'"
proof -
  have no: "CHR ''$'' \<notin> set (Radix32 l)" for l using Radix32_correct [of l] alphabet_atom by blast
  have 1: "Radix32 (now - OFFSET) = Radix32 (now' - OFFSET)
      \<and> Radix32 pid @ ''$'' @ show_nat n = Radix32 pid' @ ''$'' @ show_nat n'"
    using assms no by (intro dollar_cut) (simp_all add: id_local_def)
  then have 2: "Radix32 pid = Radix32 pid' \<and> show_nat n = show_nat n'"
    using no by (intro dollar_cut) simp_all
  from 1 have "unat ((now - OFFSET) AND 0xFFFFFFFF) = unat ((now' - OFFSET) AND 0xFFFFFFFF)"
    using Radix32_correct [of "now - OFFSET"] Radix32_correct [of "now' - OFFSET"] by simp
  moreover from 2 have "unat (pid AND 0xFFFFFFFF) = unat (pid' AND 0xFFFFFFFF)"
    using Radix32_correct [of pid] Radix32_correct [of pid'] by simp
  moreover from 2 have "n = n'" by (metis show_nat_facts(1))
  ultimately show ?thesis by simp
qed

subsection \<open>Properties\<close>

text \<open>C12: the strict check accepts exactly the identifiers of RFC 5536 of at most 250 octets: between
  angle brackets a dot-atom, an at sign, and a dot-atom or no-fold literal; only whitespace, and only
  where it may be stripped, surrounds it; the lax check accepts every identifier the strict one does,
  and exactly those whose octets are allowed, in any order.\<close>

theorem IsValidMessageID_decides_grammar:
  "(IsValidMessageID (Some m) s False \<longleftrightarrow>
     (\<exists>pre l d post. m = pre @ CHR ''<'' # l @ CHR ''@'' # d @ CHR ''>'' # post
        \<and> pad_ok s pre \<and> pad_ok s post \<and> length l + length d + 3 \<le> 250 \<and> dot_atom l \<and> id_right d))
   \<and> (IsValidMessageID (Some m) s True \<longleftrightarrow>
     (\<exists>pre x post. m = pre @ CHR ''<'' # x @ CHR ''>'' # post
        \<and> pad_ok s pre \<and> pad_ok s post \<and> length x + 2 \<le> 250 \<and> x \<noteq> [] \<and> (\<forall>c \<in> set x. lax_char c)))
   \<and> (\<not> IsValidMessageID (Some m) s False \<or> IsValidMessageID (Some m) s True)"
proof (intro conjI)
  show "\<not> IsValidMessageID (Some m) s False \<or> IsValidMessageID (Some m) s True"
    unfolding IsValidMessageID_grammar using strict_core_lax by auto
  show "IsValidMessageID (Some m) s False \<longleftrightarrow>
     (\<exists>pre l d post. m = pre @ CHR ''<'' # l @ CHR ''@'' # d @ CHR ''>'' # post
        \<and> pad_ok s pre \<and> pad_ok s post \<and> length l + length d + 3 \<le> 250 \<and> dot_atom l \<and> id_right d)"
  proof -
    have "IsValidMessageID (Some m) s False \<longleftrightarrow>
       (\<exists>pre l d post. m = pre @ (CHR ''<'' # l @ CHR ''@'' # d @ ''>'') @ post \<and> pad_ok s pre \<and> pad_ok s post
          \<and> length (CHR ''<'' # l @ CHR ''@'' # d @ ''>'') \<le> 250 \<and> dot_atom l \<and> id_right d)"
      unfolding IsValidMessageID_grammar strict_core_def if_False by blast
    then show ?thesis by simp
  qed
  show "IsValidMessageID (Some m) s True \<longleftrightarrow>
     (\<exists>pre x post. m = pre @ CHR ''<'' # x @ CHR ''>'' # post
        \<and> pad_ok s pre \<and> pad_ok s post \<and> length x + 2 \<le> 250 \<and> x \<noteq> [] \<and> (\<forall>c \<in> set x. lax_char c))"
  proof -
    have "IsValidMessageID (Some m) s True \<longleftrightarrow>
       (\<exists>pre x post. m = pre @ (CHR ''<'' # x @ ''>'') @ post \<and> pad_ok s pre \<and> pad_ok s post
          \<and> length (CHR ''<'' # x @ ''>'') \<le> 250 \<and> x \<noteq> [] \<and> (\<forall>c \<in> set x. lax_char c))"
      unfolding IsValidMessageID_grammar lax_core_def if_True by blast
    then show ?thesis by simp
  qed
qed

theorem IsValidMessageID_decides_grammar_witness:
  "IsValidMessageID (Some '' <a@b> '') True False \<and> IsValidMessageID (Some '' <a@b> '') True True"
proof -
  have d: "dot_atom ''a''" "dot_atom ''b''"
    by (rule dot_atom.one, simp add: atom_def midatomchar_def msgid_atom_chars_def)+
  have "'' <a@b> '' = '' '' @ CHR ''<'' # ''a'' @ CHR ''@'' # ''b'' @ CHR ''>'' # '' ''" by simp
  moreover have "pad_ok True '' ''" by (simp add: pad_ok_def iswhite_def)
  ultimately have "IsValidMessageID (Some '' <a@b> '') True False"
    using IsValidMessageID_decides_grammar [of "'' <a@b> ''" True] d
    unfolding id_right_def by fastforce
  then show ?thesis using IsValidMessageID_decides_grammar by blast
qed

text \<open>C13: the domain check accepts exactly the dot-atoms and no-fold literals.\<close>

theorem IsValidDomain_decides_grammar:
  "IsValidDomain (Some d) \<longleftrightarrow> dot_atom d \<or> no_fold_literal d"
  by (simp add: IsValidDomain_iff id_right_def)



end
