(* ===== verification/Headers.thy ===== *)
theory Headers
  imports Wildmat MessageId
begin

text \<open>
  Header fields (\<^verbatim>\<open>lib/headers.c\<close>) and the extraction of an address from a From field
  (\<^verbatim>\<open>lib/cleanfrom.c\<close>): validity of names, bodies and whole fields, skipping of folding
  whitespace and nested comments, and the documented rewriting of the three forms of an address.
\<close>

subsection \<open>Validity\<close>

fun header_name_loop :: "string \<Rightarrow> bool" where
  "header_name_loop [] = True"
| "header_name_loop (c # p) = (if \<not> isgraph c \<or> c = CHR '':'' then False else header_name_loop p)"

definition IsValidHeaderName :: "string option \<Rightarrow> bool" where
  "IsValidHeaderName s = (case s of None \<Rightarrow> False | Some p \<Rightarrow> if p = [] then False else header_name_loop p)"

text \<open>A \<open>CR\<close> is consumed together with the test for its \<open>LF\<close>: when that fails, the octet behind it
  sees \<open>p[-1] = CR\<close> and the body is refused.\<close>

fun header_body_loop :: "bool \<Rightarrow> string \<Rightarrow> bool" where
  "header_body_loop emptycontentline [] = (\<not> emptycontentline)"
| "header_body_loop emptycontentline (c # p) =
     (if iswhite c then header_body_loop emptycontentline p
      else if c = LF then
        if emptycontentline \<or> \<not> iswhite (peek p) then False else header_body_loop True p
      else if c = CR then
        (case p of [] \<Rightarrow> False
         | d # p' \<Rightarrow>
           if d = LF then
             if emptycontentline \<or> \<not> iswhite (peek p') then False else header_body_loop True p'
           else False)
      else header_body_loop False p)"

definition IsValidHeaderBody :: "string option \<Rightarrow> bool" where
  "IsValidHeaderBody s =
     (case s of None \<Rightarrow> False
      | Some p \<Rightarrow> if p = [] then False else if \<not> is_valid_utf8 p then False else header_body_loop True p)"

text \<open>The scan of the name; the result is the string behind the colon.\<close>

fun header_field_loop :: "string \<Rightarrow> string option" where
  "header_field_loop [] = Some []"
| "header_field_loop (c # p) =
     (if \<not> isgraph c then None else if c = CHR '':'' then Some p else header_field_loop p)"

definition IsValidHeaderField :: "string option \<Rightarrow> bool" where
  "IsValidHeaderField s =
     (case s of None \<Rightarrow> False
      | Some p \<Rightarrow>
        if p = [] \<or> peek p = CHR '':'' then False
        else (case header_field_loop p of None \<Rightarrow> False
              | Some p \<Rightarrow>
                if p = [] then False
                else if peek p \<noteq> SP then False
                else IsValidHeaderBody (Some (tl p))))"

text \<open>The unfolded grammar of a body: content lines, each with something visible on it, joined by
  CRLF or LF in front of whitespace.\<close>

definition content_line :: "string \<Rightarrow> bool" where
  "content_line l \<longleftrightarrow> CR \<notin> set l \<and> LF \<notin> set l \<and> (\<exists>c \<in> set l. \<not> iswhite c)"

inductive folded_body :: "string \<Rightarrow> bool" where
  last_line: "content_line l \<Longrightarrow> folded_body l"
| fold_LF: "content_line l \<Longrightarrow> iswhite (peek r) \<Longrightarrow> folded_body r \<Longrightarrow> folded_body (l @ LF # r)"
| fold_CRLF: "content_line l \<Longrightarrow> iswhite (peek r) \<Longrightarrow> folded_body r \<Longrightarrow> folded_body (l @ CR # LF # r)"

lemma white_facts [simp]: "\<not> iswhite LF" "\<not> iswhite CR" "iswhite SP" "iswhite HT"
  by (simp_all add: iswhite_def)

lemma body_loop_line:
  "CR \<notin> set l \<Longrightarrow> LF \<notin> set l \<Longrightarrow>
   header_body_loop e (l @ r) = header_body_loop (e \<and> (\<forall>c \<in> set l. iswhite c)) r"
  by (induction l arbitrary: e) auto

lemma body_loop_content: "content_line l \<Longrightarrow> header_body_loop e (l @ r) = header_body_loop False r"
proof -
  assume l: "content_line l"
  then have "\<not> (\<forall>c \<in> set l. iswhite c)" by (auto simp: content_line_def)
  with l show ?thesis using body_loop_line [of l e r] by (simp only: content_line_def simp_thms)
qed

lemma folded_body_loop: "folded_body s \<Longrightarrow> header_body_loop True s"
proof (induction rule: folded_body.induct)
  case (last_line l)
  then show ?case using body_loop_content [of l True "[]"] by simp
qed (simp_all add: body_loop_content)

lemma loop_folded_body: "header_body_loop True s \<Longrightarrow> folded_body s"
proof (induction "length s" arbitrary: s rule: less_induct)
  case less
  define P where "P = (\<lambda>c. c \<noteq> CR \<and> c \<noteq> LF)"
  define l where "l = takeWhile P s"
  define r where "r = dropWhile P s"
  have s: "s = l @ r" by (simp add: l_def r_def)
  have l: "CR \<notin> set l" "LF \<notin> set l" unfolding l_def by (auto dest: set_takeWhileD simp: P_def)
  define e where "e \<longleftrightarrow> (\<forall>c \<in> set l. iswhite c)"
  have go: "header_body_loop e r"
    using less.prems l body_loop_line [of l True r] by (simp add: s e_def)
  show ?case
  proof (cases r)
    case Nil
    then have "content_line s" using go l s by (auto simp: e_def content_line_def)
    then show ?thesis by (rule folded_body.last_line)
  next
    case (Cons c r')
    have "dropWhile P s \<noteq> []" using Cons by (simp add: r_def)
    from hd_dropWhile [OF this] have "\<not> P c" using Cons by (simp add: r_def)
    then consider "c = LF" | "c = CR" by (auto simp: P_def)
    then show ?thesis
    proof cases
      case 1
      with go Cons have "\<not> e" "iswhite (peek r')" "header_body_loop True r'" by (auto split: if_splits)
      moreover from this(3) have "folded_body r'" using less.hyps s Cons by simp
      ultimately show ?thesis
        using 1 s Cons l folded_body.fold_LF [of l r'] by (auto simp: e_def content_line_def)
    next
      case 2
      with go Cons obtain r'' where r'': "r' = LF # r''" "\<not> e" "iswhite (peek r'')" "header_body_loop True r''"
        by (auto split: if_splits list.splits)
      moreover from this(4) have "folded_body r''" using less.hyps s Cons r''(1) by simp
      ultimately show ?thesis
        using 2 s Cons l folded_body.fold_CRLF [of l r''] by (auto simp: e_def content_line_def)
    qed
  qed
qed

lemma folded_body_nonempty: "folded_body s \<Longrightarrow> s \<noteq> []"
  by (cases rule: folded_body.cases) (auto simp: content_line_def)

lemma IsValidHeaderBody_iff: "IsValidHeaderBody (Some s) \<longleftrightarrow> is_valid_utf8 s \<and> folded_body s"
  using folded_body_loop loop_folded_body folded_body_nonempty by (auto simp: IsValidHeaderBody_def)

lemma IsValidHeaderName_iff:
  "IsValidHeaderName (Some s) \<longleftrightarrow> s \<noteq> [] \<and> (\<forall>c \<in> set s. isgraph c \<and> c \<noteq> CHR '':'')"
proof -
  have "header_name_loop s \<longleftrightarrow> (\<forall>c \<in> set s. isgraph c \<and> c \<noteq> CHR '':'')" by (induction s) auto
  then show ?thesis by (simp add: IsValidHeaderName_def)
qed

lemma header_field_loop_iff:
  "header_field_loop s = Some (SP # b) \<longleftrightarrow>
     (\<exists>n. s = n @ CHR '':'' # SP # b \<and> (\<forall>c \<in> set n. isgraph c \<and> c \<noteq> CHR '':''))"
proof (induction s)
  case (Cons c s)
  show ?case
  proof (cases "isgraph c \<and> c \<noteq> CHR '':''")
    case True
    have "(\<exists>n. c # s = n @ CHR '':'' # SP # b \<and> (\<forall>c \<in> set n. isgraph c \<and> c \<noteq> CHR '':''))
      \<longleftrightarrow> (\<exists>n. s = n @ CHR '':'' # SP # b \<and> (\<forall>c \<in> set n. isgraph c \<and> c \<noteq> CHR '':''))"
      (is "?L = ?R")
    proof
      assume ?L
      then obtain n where n: "c # s = n @ CHR '':'' # SP # b" "\<forall>c \<in> set n. isgraph c \<and> c \<noteq> CHR '':''"
        by blast
      with True obtain n' where "n = c # n'" by (cases n) auto
      with n show ?R by auto
    next
      assume ?R
      then obtain n where "s = n @ CHR '':'' # SP # b" "\<forall>c \<in> set n. isgraph c \<and> c \<noteq> CHR '':''" by blast
      with True show ?L by (intro exI [of _ "c # n"]) simp
    qed
    with Cons.IH True show ?thesis by simp
  next
    case False
    have g: "isgraph CHR '':''" by (simp add: isgraph_def)
    have "(\<exists>n. c # s = n @ CHR '':'' # SP # b \<and> (\<forall>c \<in> set n. isgraph c \<and> c \<noteq> CHR '':''))
      \<longleftrightarrow> c = CHR '':'' \<and> s = SP # b" (is "?L = ?R")
    proof
      assume ?L
      then obtain n where n: "c # s = n @ CHR '':'' # SP # b" "\<forall>c \<in> set n. isgraph c \<and> c \<noteq> CHR '':''"
        by blast
      with False show ?R by (cases n) auto
    next
      assume ?R
      then show ?L by (intro exI [of _ "[]"]) simp
    qed
    with False g show ?thesis by auto
  qed
qed simp

lemma IsValidHeaderField_iff:
  "IsValidHeaderField (Some s) \<longleftrightarrow>
     (\<exists>n b. s = n @ '': '' @ b \<and> IsValidHeaderName (Some n) \<and> IsValidHeaderBody (Some b))"
proof -
  have "IsValidHeaderField (Some s) \<longleftrightarrow>
     peek s \<noteq> CHR '':'' \<and> (\<exists>b. header_field_loop s = Some (SP # b) \<and> IsValidHeaderBody (Some b))"
  proof (cases "s = [] \<or> header_field_loop s = None")
    case False
    then obtain p where "header_field_loop s = Some p" "s \<noteq> []" by auto
    then show ?thesis by (cases p) (auto simp: IsValidHeaderField_def)
  qed (auto simp: IsValidHeaderField_def)
  also have "\<dots> \<longleftrightarrow> (\<exists>n b. s = n @ '': '' @ b \<and> IsValidHeaderName (Some n) \<and> IsValidHeaderBody (Some b))"
  proof -
    have "peek (n @ CHR '':'' # SP # b) \<noteq> CHR '':'' \<longleftrightarrow> n \<noteq> []"
      if "\<forall>c \<in> set n. isgraph c \<and> c \<noteq> CHR '':''" for n b
      using that by (cases n) auto
    note pk = this
    show ?thesis
      unfolding header_field_loop_iff IsValidHeaderName_iff append_Cons append_Nil
    proof (intro iffI; elim exE conjE)
      fix b n
      assume "s = n @ CHR '':'' # SP # b" "peek s \<noteq> CHR '':''" "IsValidHeaderBody (Some b)"
        "\<forall>c \<in> set n. isgraph c \<and> c \<noteq> CHR '':''"
      then show "\<exists>n b. s = n @ CHR '':'' # SP # b \<and> (n \<noteq> [] \<and> (\<forall>c \<in> set n. isgraph c \<and> c \<noteq> CHR '':''))
          \<and> IsValidHeaderBody (Some b)"
        using pk [of n b] by (intro exI [of _ n] exI [of _ b]) simp
    next
      fix n b
      assume "s = n @ CHR '':'' # SP # b" "n \<noteq> []" "IsValidHeaderBody (Some b)"
        "\<forall>c \<in> set n. isgraph c \<and> c \<noteq> CHR '':''"
      then show "peek s \<noteq> CHR '':'' \<and> (\<exists>b. (\<exists>n. s = n @ CHR '':'' # SP # b
          \<and> (\<forall>c \<in> set n. isgraph c \<and> c \<noteq> CHR '':'')) \<and> IsValidHeaderBody (Some b))"
        using pk [of n b] by (intro conjI exI [of _ b] exI [of _ n]) simp_all
    qed
  qed
  finally show ?thesis .
qed

subsection \<open>Folding whitespace and comments\<close>

fun skip_cfws_loop :: "nat \<Rightarrow> string \<Rightarrow> string" where
  "skip_cfws_loop nesting [] = []"
| "skip_cfws_loop nesting (c # p) =
     (if c = SP \<or> c = HT \<or> c = LF then skip_cfws_loop nesting p
      else if c = CR then
        if peek p \<noteq> LF \<and> nesting = 0 then c # p else skip_cfws_loop nesting p
      else if c = CHR ''('' then skip_cfws_loop (nesting + 1) p
      else if c = CHR '')'' then
        if nesting = 0 then c # p else skip_cfws_loop (nesting - 1) p
      else if c = BACKSLASH then
        (case p of [] \<Rightarrow> c # p
         | _ # p' \<Rightarrow> if nesting = 0 then c # p else skip_cfws_loop nesting p')
      else if nesting = 0 then c # p else skip_cfws_loop nesting p)"

definition skip_cfws :: "string \<Rightarrow> string" where
  "skip_cfws p = skip_cfws_loop 0 p"

fun skip_fws :: "string \<Rightarrow> string" where
  "skip_fws [] = []"
| "skip_fws (c # p) =
     (if c = SP \<or> c = HT \<or> c = LF then skip_fws p
      else if c = CR then if peek p \<noteq> LF then c # p else skip_fws p
      else c # p)"

lemma skip_cfws_length: "length (skip_cfws_loop n p) \<le> length p"
proof (induction "length p" arbitrary: n p rule: less_induct)
  case less
  show ?case
  proof (cases p)
    case (Cons c q)
    have "length (skip_cfws_loop m q) \<le> length q" for m using less [of q m] Cons by simp
    then have a: "length (skip_cfws_loop m q) \<le> Suc (length q)" for m by (rule le_SucI)
    have b: "length (skip_cfws_loop m q') \<le> Suc (length q)" if "q = d # q'" for d q' m
      using less [of q' m] Cons that by simp
    show ?thesis
      unfolding Cons
      by (subst skip_cfws_loop.simps(2)) (use a b in \<open>auto split: list.split simp del: skip_cfws_loop.simps\<close>)
  qed simp
qed

lemma skip_cfws_shorter: "skip_cfws p = c # p' \<Longrightarrow> length p' < length p"
  using skip_cfws_length [of 0 p] by (simp add: skip_cfws_def)

function spaced_loop :: "string \<Rightarrow> string \<Rightarrow> bool \<Rightarrow> string \<times> bool" where
  "spaced_loop p buff trailingspace =
     (if p = [] then (buff, trailingspace)
      else
        (case skip_cfws p of
           [] \<Rightarrow> spaced_loop [] buff trailingspace
         | c # p' \<Rightarrow>
           if peek p' = SP \<or> peek p' = HT \<or> peek p' = CR \<or> peek p' = LF \<or> peek p' = CHR ''(''
           then spaced_loop p' (buff @ [c, SP]) True
           else spaced_loop p' (buff @ [c]) False))"
  by pat_completeness auto
termination
  by (relation "measure (\<lambda>(p, b, t). length p)") (auto dest: skip_cfws_shorter)

declare spaced_loop.simps [simp del]

definition spaced_words_without_cfws :: "string option \<Rightarrow> string option" where
  "spaced_words_without_cfws p =
     (case p of None \<Rightarrow> None
      | Some s \<Rightarrow>
        (case spaced_loop s [] False of (buff, trailingspace) \<Rightarrow>
           Some (if trailingspace then butlast buff else buff)))"

text \<open>The grammar of comments, with quoted pairs and nesting, and of CFWS.\<close>

inductive comment_text :: "string \<Rightarrow> bool" where
  nil: "comment_text []"
| char: "c \<notin> {CHR ''('', CHR '')'', BACKSLASH} \<Longrightarrow> comment_text b \<Longrightarrow> comment_text (c # b)"
| quoted: "comment_text b \<Longrightarrow> comment_text (BACKSLASH # c # b)"
| nested: "comment_text a \<Longrightarrow> comment_text b \<Longrightarrow> comment_text (CHR ''('' # a @ CHR '')'' # b)"

inductive cfws :: "string \<Rightarrow> bool" where
  nil: "cfws []"
| white: "c \<in> {SP, HT, LF} \<Longrightarrow> cfws b \<Longrightarrow> cfws (c # b)"
| crlf: "cfws b \<Longrightarrow> cfws (CR # LF # b)"
| comment: "comment_text a \<Longrightarrow> cfws b \<Longrightarrow> cfws (CHR ''('' # a @ CHR '')'' # b)"

definition visible :: "string \<Rightarrow> bool" where
  "visible r \<longleftrightarrow> peek r \<notin> {SP, HT, LF, CHR ''(''} \<and> \<not> (peek r = CR \<and> peek (tl r) = LF)"

lemma skip_comment_text:
  "comment_text b \<Longrightarrow> skip_cfws_loop (Suc n) (b @ r) = skip_cfws_loop (Suc n) r"
proof (induction arbitrary: n r rule: comment_text.induct)
  case (nested a b)
  then show ?case by simp
qed auto

lemma skip_cfws_prefix: "cfws w \<Longrightarrow> skip_cfws (w @ r) = skip_cfws r"
  unfolding skip_cfws_def
  by (induction rule: cfws.induct) (auto simp: skip_comment_text)

lemma skip_cfws_visible: "visible r \<Longrightarrow> skip_cfws r = r"
  unfolding skip_cfws_def by (cases r) (auto simp: visible_def split: list.split)

definition at_word :: "string \<Rightarrow> bool" where
  "at_word r \<longleftrightarrow> skip_cfws r = r"

lemma at_wordI:
  "at_word []" "peek p \<noteq> LF \<Longrightarrow> at_word (CR # p)" "at_word (CHR '')'' # p)" "at_word (BACKSLASH # p)"
  "c \<notin> {SP, HT, LF, CR, CHR ''(''} \<Longrightarrow> at_word (c # p)"
  by (auto simp: at_word_def skip_cfws_def split: list.split)

lemma skip_cfws_stop: "at_word (skip_cfws_loop n p)"
proof (induction "length p" arbitrary: n p rule: less_induct)
  case less
  show ?case
  proof (cases p)
    case (Cons c q)
    have a: "at_word (skip_cfws_loop m q)" for m using less Cons by simp
    have b: "at_word (skip_cfws_loop m q')" if "q = d # q'" for d q' m using less Cons that by simp
    show ?thesis
      unfolding Cons
      by (subst skip_cfws_loop.simps(2))
        (use a b in \<open>auto split: list.split simp: at_wordI simp del: skip_cfws_loop.simps\<close>)
  qed (simp add: at_wordI)
qed

subsection \<open>The address of a From field\<close>

text \<open>The folded field is joined in place. \<open>prev\<close> is the octet before \<open>p\<close> in the field, \<open>out\<close> what
  has been written. When everything was folding the buffer keeps the stale octets behind the last
  white one.\<close>

fun unfold_loop :: "char \<Rightarrow> string \<Rightarrow> string \<Rightarrow> string \<Rightarrow> string" where
  "unfold_loop prev [] out stale = (if out = [] then stale else out)"
| "unfold_loop prev (c # p) out stale =
     (if c = LF then
        (case p of [] \<Rightarrow> out
         | w # p' \<Rightarrow>
           if \<not> iswhite w then out
           else if prev = CR then unfold_loop w p' (butlast out) (w # tl stale)
           else unfold_loop c p out (if out = [] then w # tl stale else stale))
      else unfold_loop c p (out @ [c]) stale)"

definition drop_span :: "char \<Rightarrow> char \<Rightarrow> string \<Rightarrow> string option" where
  "drop_span open_c close_c s =
     (let a = takeWhile (\<lambda>c. c \<noteq> open_c) s; p = dropWhile (\<lambda>c. c \<noteq> open_c) s;
          e = dropWhile (\<lambda>c. c \<noteq> close_c) p
      in if p = [] \<or> e = [] then None else Some (a @ tl e))"

lemma drop_span_shorter: "drop_span a b s = Some s' \<Longrightarrow> length s' < length s"
proof -
  let ?p = "dropWhile (\<lambda>c. c \<noteq> a) s"
  let ?e = "dropWhile (\<lambda>c. c \<noteq> b) ?p"
  assume "drop_span a b s = Some s'"
  then have s': "s' = takeWhile (\<lambda>c. c \<noteq> a) s @ tl ?e" "?e \<noteq> []"
    by (auto simp: drop_span_def Let_def split: if_splits)
  have "length s = length (takeWhile (\<lambda>c. c \<noteq> a) s) + length ?p"
    by (metis length_append takeWhile_dropWhile_id)
  moreover have "length ?e \<le> length ?p" by (rule length_dropWhile_le)
  ultimately show ?thesis using s' by (cases ?e) auto
qed

function drop_spans :: "char \<Rightarrow> char \<Rightarrow> string \<Rightarrow> string" where
  "drop_spans open_c close_c s =
     (case drop_span open_c close_c s of None \<Rightarrow> s | Some s' \<Rightarrow> drop_spans open_c close_c s')"
  by pat_completeness auto
termination by (relation "measure (\<lambda>(a, b, s). length s)") (auto dest: drop_span_shorter)

declare drop_spans.simps [simp del]

definition after_last :: "char \<Rightarrow> string \<Rightarrow> string" where
  "after_last x s = rev (takeWhile (\<lambda>c. c \<noteq> x) (rev s))"

definition angle_part :: "string \<Rightarrow> string" where
  "angle_part s =
     (if CHR ''<'' \<in> set s \<and> CHR ''>'' \<in> set (after_last CHR ''<'' s)
      then rev (tl (dropWhile (\<lambda>c. c \<noteq> CHR ''>'') (rev (after_last CHR ''<'' s))))
      else s)"

definition HeaderCleanFrom :: "string \<Rightarrow> string" where
  "HeaderCleanFrom from0 =
     (if from0 = [] then []
      else let s = unfold_loop NUL from0 [] from0;
               s = drop_spans CHR ''('' CHR '')'' s;
               s = drop_spans DQUOTE DQUOTE s;
               s = angle_part s;
               out = filter (\<lambda>c. \<not> iswhite c) s
           in if out = [] then s else out)"

lemma unfold_loop_plain: "LF \<notin> set s \<Longrightarrow> out @ s \<noteq> [] \<Longrightarrow> unfold_loop prev s out stale = out @ s"
  by (induction s arbitrary: prev out) auto

lemma drop_spans_plain:
  "open_c \<notin> set s \<Longrightarrow> drop_spans open_c close_c s = s"
proof -
  assume "open_c \<notin> set s"
  then have "dropWhile (\<lambda>c. c \<noteq> open_c) s = []" by (auto simp: dropWhile_eq_Nil_conv)
  then have "drop_span open_c close_c s = None" by (simp add: drop_span_def)
  then show ?thesis by (subst drop_spans.simps) simp
qed

lemma drop_spans_once:
  assumes "open_c \<notin> set a" "close_c \<notin> set b" "open_c \<noteq> close_c"
    "open_c \<notin> set r"
  shows "drop_spans open_c close_c (a @ open_c # b @ close_c # r) = a @ r"
proof -
  have "takeWhile (\<lambda>c. c \<noteq> open_c) (a @ open_c # b @ close_c # r) = a"
    "dropWhile (\<lambda>c. c \<noteq> open_c) (a @ open_c # b @ close_c # r) = open_c # b @ close_c # r"
    "dropWhile (\<lambda>c. c \<noteq> close_c) (open_c # b @ close_c # r) = close_c # r"
    using assms drop_until [of close_c "open_c # b" r] by auto
  then have "drop_span open_c close_c (a @ open_c # b @ close_c # r) = Some (a @ r)"
    by (simp add: drop_span_def)
  then show ?thesis
    using assms(1,4) by (subst drop_spans.simps) (simp add: drop_spans_plain)
qed

text \<open>An address is made of octets that none of the rewritings looks for.\<close>

definition plain_address :: "string \<Rightarrow> bool" where
  "plain_address a \<longleftrightarrow> a \<noteq> [] \<and> (\<forall>c \<in> set a. \<not> iswhite c
      \<and> c \<notin> {LF, CHR ''('', CHR '')'', DQUOTE, CHR ''<'', CHR ''>''})"

definition plain_words :: "string \<Rightarrow> bool" where
  "plain_words w \<longleftrightarrow> (\<forall>c \<in> set w. c \<notin> {LF, CHR ''('', CHR '')'', DQUOTE, CHR ''<'', CHR ''>''})"

lemma angle_part_plain: "CHR ''<'' \<notin> set s \<Longrightarrow> angle_part s = s"
  by (simp add: angle_part_def)

lemma angle_part_address:
  assumes "plain_address a"
  shows "angle_part (w @ CHR ''<'' # a @ ''>'') = a"
proof -
  have a: "CHR ''<'' \<notin> set a" "CHR ''>'' \<notin> set a" using assms by (auto simp: plain_address_def)
  have "takeWhile (\<lambda>c. c \<noteq> CHR ''<'') (CHR ''>'' # rev a @ CHR ''<'' # rev w) = CHR ''>'' # rev a"
    using a take_until [of "CHR ''<''" "CHR ''>'' # rev a" "rev w"] by simp
  then have "after_last CHR ''<'' (w @ CHR ''<'' # a @ ''>'') = a @ ''>''"
    by (simp add: after_last_def)
  then show ?thesis by (simp add: angle_part_def)
qed

lemma filter_address: "plain_address a \<Longrightarrow> filter (\<lambda>c. \<not> iswhite c) a = a"
  by (simp add: plain_address_def)

lemma filter_blank: "\<forall>c \<in> set w. iswhite c \<Longrightarrow> filter (\<lambda>c. \<not> iswhite c) w = []"
  by simp

lemma HeaderCleanFrom_forms:
  assumes a: "plain_address a" and w: "plain_words w" and b: "\<forall>c \<in> set b. iswhite c"
  shows "HeaderCleanFrom a = a" "HeaderCleanFrom (a @ b @ CHR ''('' # w @ '')'') = a"
    "HeaderCleanFrom (w @ CHR ''<'' # a @ ''>'') = a"
proof -
  have ne: "a \<noteq> []" using a by (simp add: plain_address_def)
  have no: "LF \<notin> set a" "CHR ''('' \<notin> set a" "DQUOTE \<notin> set a" "CHR ''<'' \<notin> set a"
    "LF \<notin> set w" "CHR ''('' \<notin> set w" "CHR '')'' \<notin> set w" "DQUOTE \<notin> set w"
    "LF \<notin> set b" "CHR ''('' \<notin> set b" "DQUOTE \<notin> set b" "CHR ''<'' \<notin> set b"
  proof -
    have "x \<notin> set a" if "x \<in> {LF, CHR ''('', CHR '')'', DQUOTE, CHR ''<'', CHR ''>''}" for x
      using a that unfolding plain_address_def by blast
    then show "LF \<notin> set a" "CHR ''('' \<notin> set a" "DQUOTE \<notin> set a" "CHR ''<'' \<notin> set a" by blast+
    have "x \<notin> set w" if "x \<in> {LF, CHR ''('', CHR '')'', DQUOTE, CHR ''<'', CHR ''>''}" for x
      using w that unfolding plain_words_def by blast
    then show "LF \<notin> set w" "CHR ''('' \<notin> set w" "CHR '')'' \<notin> set w" "DQUOTE \<notin> set w" by blast+
    have "x \<notin> set b" if "\<not> iswhite x" for x using b that by blast
    then show "LF \<notin> set b" "CHR ''('' \<notin> set b" "DQUOTE \<notin> set b" "CHR ''<'' \<notin> set b"
      by (simp_all add: iswhite_def)
  qed
  have out: "HeaderCleanFrom s = filter (\<lambda>c. \<not> iswhite c) t"
    if "LF \<notin> set s" "s \<noteq> []" "angle_part (drop_spans DQUOTE DQUOTE (drop_spans CHR ''('' CHR '')'' s)) = t"
      "filter (\<lambda>c. \<not> iswhite c) t \<noteq> []" for s t
  proof -
    have "unfold_loop NUL s [] s = s" using that(1,2) unfold_loop_plain [of s "[]"] by simp
    then show ?thesis using that(2-4) unfolding HeaderCleanFrom_def Let_def by simp
  qed
  note ft = filter_address [OF a]
  have "drop_spans CHR ''('' CHR '')'' ((a @ b) @ CHR ''('' # w @ CHR '')'' # []) = (a @ b) @ []"
    by (rule drop_spans_once) (use no in auto)
  then have 2: "angle_part (drop_spans DQUOTE DQUOTE (drop_spans CHR ''('' CHR '')'' (a @ b @ CHR ''('' # w @ '')''))) = a @ b"
    using no by (simp add: drop_spans_plain angle_part_plain)
  show "HeaderCleanFrom a = a"
    using out [of a a] no ne ft by (simp add: drop_spans_plain angle_part_plain)
  show "HeaderCleanFrom (a @ b @ CHR ''('' # w @ '')'') = a"
    using out [OF _ _ 2] no ne ft filter_blank [OF b] by simp
  have "drop_spans DQUOTE DQUOTE (drop_spans CHR ''('' CHR '')'' (w @ CHR ''<'' # a @ ''>'')) = w @ CHR ''<'' # a @ ''>''"
    using no by (simp add: drop_spans_plain)
  then show "HeaderCleanFrom (w @ CHR ''<'' # a @ ''>'') = a"
    using out [of "w @ CHR ''<'' # a @ ''>''" a] angle_part_address [OF a, of w] no ne ft by simp
qed

subsection \<open>Properties\<close>

text \<open>C15: a header field is accepted exactly when it is a name of printable octets without colon, a
  colon and a space, and a body that is well-formed UTF-8 and consists of content lines, each with a
  visible octet, joined by CRLF or LF in front of whitespace.\<close>

theorem IsValidHeaderField_decides_grammar:
  "IsValidHeaderField (Some s) \<longleftrightarrow>
     (\<exists>n b. s = n @ '': '' @ b \<and> n \<noteq> [] \<and> (\<forall>c \<in> set n. isgraph c \<and> c \<noteq> CHR '':'')
        \<and> is_valid_utf8 b \<and> folded_body b)"
  unfolding IsValidHeaderField_iff IsValidHeaderName_iff IsValidHeaderBody_iff by blast

theorem IsValidHeaderField_decides_grammar_witness:
  "IsValidHeaderField (Some (''To: a'' @ [CR, LF] @ '' b''))"
proof -
  have "content_line ''a''" "content_line '' b''" by (auto simp: content_line_def iswhite_def)
  then have f: "folded_body (''a'' @ CR # LF # '' b'')"
    by (intro folded_body.fold_CRLF folded_body.last_line) simp_all
  have u: "is_valid_utf8 (''a'' @ CR # LF # '' b'')" by code_simp
  have n: "\<forall>c \<in> set ''To''. isgraph c \<and> c \<noteq> CHR '':''" by (simp add: isgraph_def)
  show ?thesis
    unfolding IsValidHeaderField_decides_grammar
    using f u n by (intro exI [of _ "''To''"] exI [of _ "''a'' @ CR # LF # '' b''"]) simp
qed

text \<open>C16: \<open>skip_cfws\<close> skips any sequence of whitespace, line ends and nested comments with quoted pairs
  and stops at the first visible octet behind it; wherever it stops, a second call stays there.\<close>

theorem skip_cfws_skips_grammar:
  assumes "cfws w" "visible r"
  shows "skip_cfws (w @ r) = r \<and> skip_cfws (skip_cfws p) = skip_cfws p"
  using skip_cfws_prefix [OF assms(1)] skip_cfws_visible [OF assms(2)] skip_cfws_stop [of 0 p]
  by (simp add: at_word_def skip_cfws_def)

theorem skip_cfws_skips_grammar_witness:
  "skip_cfws ('' (a(b)) x'') = ''x''"
proof -
  have "comment_text ''b''" by (auto intro: comment_text.char comment_text.nil)
  then have "comment_text (CHR ''('' # ''b'' @ CHR '')'' # [])"
    by (rule comment_text.nested) (rule comment_text.nil)
  then have "comment_text (''a'' @ CHR ''('' # ''b'' @ CHR '')'' # [])"
    using comment_text.char [of "CHR ''a''"] by simp
  then have "cfws (SP # CHR ''('' # (''a'' @ CHR ''('' # ''b'' @ CHR '')'' # []) @ CHR '')'' # SP # [])"
    by (intro cfws.intros) auto
  moreover have "visible ''x''" by (simp add: visible_def)
  ultimately show ?thesis using skip_cfws_skips_grammar [where r = "''x''"] by fastforce
qed



end
