(* ===== verification/MapADT.thy ===== *)
theory MapADT
  imports Inn_Prelude
begin

text \<open>
  The contract of a dictionary, as the clients of \<^verbatim>\<open>lib/tst.c\<close> and \<^verbatim>\<open>lib/hashtab.c\<close> rely
  on it: what a lookup returns after an insertion and a deletion, and the representation invariant
  every operation keeps. The consequence proved here once, for every implementation, is that any
  sequence of operations answers lookups as the finite map built by the same sequence does.
\<close>

datatype ('k, 'v) map_op = Insert 'k 'v | Delete 'k

fun op_key :: "('k, 'v) map_op \<Rightarrow> 'k" where
  "op_key (Insert k v) = k"
| "op_key (Delete k) = k"

fun map_step :: "('k, 'v) map_op \<Rightarrow> ('k \<Rightarrow> 'v option) \<Rightarrow> ('k \<Rightarrow> 'v option)" where
  "map_step (Insert k v) m = m(k \<mapsto> v)"
| "map_step (Delete k) m = m(k := None)"

definition map_run :: "('k, 'v) map_op list \<Rightarrow> 'k \<Rightarrow> 'v option" where
  "map_run ops = fold map_step ops (\<lambda>_. None)"

locale map_adt =
  fixes empty :: 's
    and lookup :: "'s \<Rightarrow> 'k \<Rightarrow> 'v option"
    and insert :: "'k \<Rightarrow> 'v \<Rightarrow> 's \<Rightarrow> 's"
    and delete :: "'k \<Rightarrow> 's \<Rightarrow> 's"
    and invar :: "'s \<Rightarrow> bool"
    and okkey :: "'k \<Rightarrow> bool"
  assumes lookup_empty: "okkey k \<Longrightarrow> lookup empty k = None"
    and invar_empty: "invar empty"
    and lookup_insert: "invar s \<Longrightarrow> okkey k \<Longrightarrow> okkey k' \<Longrightarrow>
      lookup (insert k v s) k' = (if k' = k then Some v else lookup s k')"
    and invar_insert: "invar s \<Longrightarrow> okkey k \<Longrightarrow> invar (insert k v s)"
    and lookup_delete: "invar s \<Longrightarrow> okkey k \<Longrightarrow> okkey k' \<Longrightarrow>
      lookup (delete k s) k' = (if k' = k then None else lookup s k')"
    and invar_delete: "invar s \<Longrightarrow> okkey k \<Longrightarrow> invar (delete k s)"
begin

fun step :: "('k, 'v) map_op \<Rightarrow> 's \<Rightarrow> 's" where
  "step (Insert k v) s = insert k v s"
| "step (Delete k) s = delete k s"

lemma fold_step:
  "invar s \<Longrightarrow> \<forall>op \<in> set ops. okkey (op_key op) \<Longrightarrow> \<forall>k. okkey k \<longrightarrow> lookup s k = m k \<Longrightarrow>
   invar (fold step ops s) \<and> (\<forall>k. okkey k \<longrightarrow> lookup (fold step ops s) k = fold map_step ops m k)"
proof (induction ops arbitrary: s m)
  case (Cons op ops)
  show ?case
  proof (cases op)
    case (Insert k v)
    then show ?thesis
      using Cons.prems Cons.IH [of "insert k v s" "m(k \<mapsto> v)"]
      by (simp add: invar_insert lookup_insert fun_upd_def)
  next
    case (Delete k)
    then show ?thesis
      using Cons.prems Cons.IH [of "delete k s" "m(k := None)"]
      by (simp add: invar_delete lookup_delete fun_upd_def)
  qed
qed simp

theorem run_refines_map:
  assumes "\<forall>op \<in> set ops. okkey (op_key op)" "okkey k"
  shows "lookup (fold step ops empty) k = map_run ops k \<and> invar (fold step ops empty)"
  using fold_step [of empty ops "\<lambda>_. None"] assms by (simp add: invar_empty lookup_empty map_run_def)

end

end
