(* ===== verification/Tst.thy ===== *)
theory Tst
  imports MapADT
begin

text \<open>
  The ternary search trie of \<^verbatim>\<open>lib/tst.c\<close>. A terminal node of the C structure (value zero,
  \<open>middle\<close> points at the data) is \<open>Term\<close>, any other node is \<open>Node\<close>; \<open>tst_head\<close> is the array of
  first letters. Deletion is the code's: the descent remembers the last node with a branch, and
  the surgery is done there on the path back to the root; it is proved equal to a recursive deletion,
  and the trie to implement a dictionary. The free list of nodes is not modelled.
\<close>

datatype 'a tnode =
    Null
  | Term (left_of: "'a tnode") 'a "'a tnode"
  | Node char "'a tnode" "'a tnode" "'a tnode"

record 'a tst =
  tst_head :: "char \<Rightarrow> 'a tnode"

datatype tst_status = TST_OK | TST_NULL_KEY | TST_NULL_DATA | TST_DUPLICATE_KEY

definition tst_init :: "'a tst" where
  "tst_init = \<lparr>tst_head = (\<lambda>_. Null)\<rparr>"

definition LEFTP :: "char \<Rightarrow> char \<Rightarrow> bool" where
  "LEFTP v c = (if v = NUL then byte c < 64 else byte c < byte v)"

subsection \<open>Insertion and search\<close>

text \<open>The new nodes of an insertion.\<close>

fun chain :: "string \<Rightarrow> 'a \<Rightarrow> 'a tnode" where
  "chain [] d = Term Null d Null"
| "chain (c # k) d = Node c Null (chain k d) Null"

fun insert_node :: "'a tnode \<Rightarrow> string \<Rightarrow> 'a \<Rightarrow> bool \<Rightarrow> tst_status \<times> 'a option \<times> 'a tnode" where
  "insert_node Null k d replace = (TST_OK, None, chain k d)"
| "insert_node (Term l e r) k d replace =
     (if k = [] then
        if replace then (TST_OK, Some e, Term l d r) else (TST_DUPLICATE_KEY, Some e, Term l e r)
      else if LEFTP NUL (peek k) then
        (case insert_node l k d replace of (s, x, l') \<Rightarrow> (s, x, Term l' e r))
      else (case insert_node r k d replace of (s, x, r') \<Rightarrow> (s, x, Term l e r')))"
| "insert_node (Node v l m r) k d replace =
     (if peek k = v then
        (case insert_node m (tl k) d replace of (s, x, m') \<Rightarrow> (s, x, Node v l m' r))
      else if LEFTP v (peek k) then
        (case insert_node l k d replace of (s, x, l') \<Rightarrow> (s, x, Node v l' m r))
      else (case insert_node r k d replace of (s, x, r') \<Rightarrow> (s, x, Node v l m r')))"

definition tst_insert ::
    "'a tst \<Rightarrow> string option \<Rightarrow> 'a option \<Rightarrow> bool \<Rightarrow> tst_status \<times> 'a option \<times> 'a tst" where
  "tst_insert t key data replace =
     (case data of None \<Rightarrow> (TST_NULL_DATA, None, t)
      | Some d \<Rightarrow>
        (case key of None \<Rightarrow> (TST_NULL_KEY, None, t)
         | Some [] \<Rightarrow> (TST_NULL_KEY, None, t)
         | Some (c # k) \<Rightarrow>
           (case insert_node (tst_head t c) k d replace of
              (s, x, n) \<Rightarrow> (s, x, t\<lparr>tst_head := (tst_head t)(c := n)\<rparr>))))"

fun search_node :: "'a tnode \<Rightarrow> string \<Rightarrow> 'a option" where
  "search_node Null k = None"
| "search_node (Term l d r) k =
     (if k = [] then Some d
      else if LEFTP NUL (peek k) then search_node l k else search_node r k)"
| "search_node (Node v l m r) k =
     (if peek k = v then search_node m (tl k)
      else if LEFTP v (peek k) then search_node l k else search_node r k)"

definition tst_search :: "'a tst \<Rightarrow> string option \<Rightarrow> 'a option" where
  "tst_search t key =
     (case key of None \<Rightarrow> None | Some [] \<Rightarrow> None | Some (c # k) \<Rightarrow> search_node (tst_head t c) k)"

subsection \<open>Deletion\<close>

text \<open>The path back to the head: the parent of the current node, which child it is, and the parent's
  other parts.\<close>

datatype 'a frame =
    InLeftT 'a "'a tnode" | InRightT "'a tnode" 'a
  | InLeft char "'a tnode" "'a tnode" | InMiddle char "'a tnode" "'a tnode"
  | InRight char "'a tnode" "'a tnode"

fun fill :: "'a frame \<Rightarrow> 'a tnode \<Rightarrow> 'a tnode" where
  "fill (InLeftT d r) t = Term t d r"
| "fill (InRightT l d) t = Term l d t"
| "fill (InLeft v m r) t = Node v t m r"
| "fill (InMiddle v l r) t = Node v l t r"
| "fill (InRight v l m) t = Node v l m t"

definition plug :: "'a frame list \<Rightarrow> 'a tnode \<Rightarrow> 'a tnode" where
  "plug path t = fold fill path t"

fun branches :: "'a tnode \<Rightarrow> bool" where
  "branches Null = False"
| "branches (Term l d r) = (l \<noteq> Null \<or> r \<noteq> Null)"
| "branches (Node v l m r) = (l \<noteq> Null \<or> r \<noteq> Null)"

type_synonym 'a place = "'a tnode \<times> 'a frame list"

text \<open>The descent: \<open>last_branch\<close> with its path, and \<open>None\<close> when the key is not there.\<close>

fun delete_find :: "'a tnode \<Rightarrow> 'a frame list \<Rightarrow> 'a place option \<Rightarrow> string \<Rightarrow> 'a place option option" where
  "delete_find Null path last_branch k = None"
| "delete_find (Term l d r) path last_branch k =
     (if k = [] then
        Some (if l \<noteq> Null \<or> r \<noteq> Null then Some (Term l d r, path) else last_branch)
      else if LEFTP NUL (peek k) then
        delete_find l (InLeftT d r # path) (Some (l, InLeftT d r # path)) k
      else delete_find r (InRightT l d # path) (Some (r, InRightT l d # path)) k)"
| "delete_find (Node v l m r) path last_branch k =
     (if peek k = v then
        delete_find m (InMiddle v l r # path)
          (if l \<noteq> Null \<or> r \<noteq> Null then Some (Node v l m r, path) else last_branch) (tl k)
      else if LEFTP v (peek k) then
        delete_find l (InLeft v m r # path) (Some (l, InLeft v m r # path)) k
      else delete_find r (InRight v l m # path) (Some (r, InRight v l m # path)) k)"

fun attach_left :: "'a tnode \<Rightarrow> 'a tnode \<Rightarrow> 'a tnode" where
  "attach_left Null x = x"
| "attach_left (Term l d r) x = Term (attach_left l x) d r"
| "attach_left (Node v l m r) x = Node v (attach_left l x) m r"

definition replacement :: "'a tnode \<Rightarrow> 'a tnode \<Rightarrow> 'a tnode" where
  "replacement l r =
     (if l \<noteq> Null \<and> r \<noteq> Null then attach_left r l else if r \<noteq> Null then r else l)"

fun node_replacement :: "'a tnode \<Rightarrow> 'a tnode" where
  "node_replacement Null = Null"
| "node_replacement (Term l d r) = replacement l r"
| "node_replacement (Node v l m r) = replacement l r"

text \<open>The loop that returns the removed nodes to the free list ends at the terminal node and returns
  its data.\<close>

fun chain_data :: "'a tnode \<Rightarrow> 'a option" where
  "chain_data Null = None"
| "chain_data (Term l d r) = Some d"
| "chain_data (Node v l m r) = chain_data m"

definition delete_node :: "'a tnode \<Rightarrow> string \<Rightarrow> 'a option \<times> 'a tnode" where
  "delete_node head k =
     (case delete_find head [] None k of
        None \<Rightarrow> (None, head)
      | Some None \<Rightarrow> (chain_data head, Null)
      | Some (Some (n, path)) \<Rightarrow> (chain_data n, plug path (node_replacement n)))"

definition tst_delete :: "'a tst \<Rightarrow> string option \<Rightarrow> 'a option \<times> 'a tst" where
  "tst_delete t key =
     (case key of None \<Rightarrow> (None, t) | Some [] \<Rightarrow> (None, t)
      | Some (c # k) \<Rightarrow>
        if tst_head t c = Null then (None, t)
        else (case delete_node (tst_head t c) k of
                (x, n) \<Rightarrow> (x, t\<lparr>tst_head := (tst_head t)(c := n)\<rparr>)))"

subsection \<open>The representation invariant\<close>

fun letters :: "'a tnode \<Rightarrow> char set" where
  "letters Null = {}"
| "letters (Term l d r) = {NUL} \<union> letters l \<union> letters r"
| "letters (Node v l m r) = {v} \<union> letters l \<union> letters r"

fun ok_node :: "'a tnode \<Rightarrow> bool" where
  "ok_node Null = True"
| "ok_node (Term l d r) \<longleftrightarrow> ok_node l \<and> ok_node r \<and>
     (\<forall>c \<in> letters l. c \<noteq> NUL \<and> LEFTP NUL c) \<and> (\<forall>c \<in> letters r. c \<noteq> NUL \<and> \<not> LEFTP NUL c)"
| "ok_node (Node v l m r) \<longleftrightarrow> v \<noteq> NUL \<and> ok_node l \<and> ok_node m \<and> m \<noteq> Null \<and> ok_node r \<and>
     (\<forall>c \<in> letters l. LEFTP v c) \<and> (\<forall>c \<in> letters r. c \<noteq> v \<and> \<not> LEFTP v c)"

definition nul_free :: "string \<Rightarrow> bool" where
  "nul_free k \<longleftrightarrow> NUL \<notin> set k"

lemma nul_free_simps [simp]:
  "nul_free (c # k) \<longleftrightarrow> c \<noteq> NUL \<and> nul_free k" "nul_free k \<Longrightarrow> nul_free (tl k)"
  "nul_free k \<Longrightarrow> peek k = NUL \<longleftrightarrow> k = []" "nul_free []"
  by (cases k; auto simp: nul_free_def)+

lemma LEFTP_irrefl [simp]: "v \<noteq> NUL \<Longrightarrow> \<not> LEFTP v v"
  by (simp add: LEFTP_def)

lemma search_outside: "nul_free k \<Longrightarrow> peek k \<notin> letters t \<Longrightarrow> search_node t k = None"
  by (induction t) auto

lemma chain_facts [simp]:
  "chain k d \<noteq> Null" "letters (chain k d) = {peek k}" "nul_free k \<Longrightarrow> ok_node (chain k d)"
  by (induction k) auto

lemma search_chain: "nul_free k \<Longrightarrow> nul_free k' \<Longrightarrow> search_node (chain k d) k' = (if k' = k then Some d else None)"
proof (induction k arbitrary: k')
  case (Cons c k)
  then show ?case by (cases k') auto
qed (simp)

lemma insert_node_facts:
  assumes "nul_free k" "insert_node t k d replace = (s, x, t')" "ok_node t"
  shows "x = search_node t k" "letters t' = letters t \<union> {peek k}" "t' \<noteq> Null" "ok_node t'"
    "s = (if x = None \<or> replace then TST_OK else TST_DUPLICATE_KEY)"
    "nul_free k' \<Longrightarrow> search_node t' k'
       = (if k' = k \<and> (x = None \<or> replace) then Some d else search_node t k')"
proof -
  have "x = search_node t k \<and> letters t' = letters t \<union> {peek k} \<and> t' \<noteq> Null \<and> ok_node t'
    \<and> s = (if x = None \<or> replace then TST_OK else TST_DUPLICATE_KEY)
    \<and> (\<forall>k'. nul_free k' \<longrightarrow> search_node t' k'
       = (if k' = k \<and> (x = None \<or> replace) then Some d else search_node t k'))"
    using assms
  proof (induction t arbitrary: k s x t')
    case (Term l e r)
    note ok = Term.prems(3)
    consider "k = []" | "k \<noteq> []" "LEFTP NUL (peek k)" | "k \<noteq> []" "\<not> LEFTP NUL (peek k)" by blast
    then show ?case
    proof cases
      case 1
      with Term.prems(2) have "s = (if replace then TST_OK else TST_DUPLICATE_KEY)" "x = Some e"
        "t' = Term l (if replace then d else e) r" by (auto split: if_splits)
      with 1 ok show ?thesis by auto
    next
      case 2
      then obtain l' where i: "insert_node l k d replace = (s, x, l')" "t' = Term l' e r"
        using Term.prems(2) by (auto split: prod.splits)
      from Term.IH(1) [OF Term.prems(1) i(1)] ok 2 i(2) Term.prems(1) show ?thesis by auto
    next
      case 3
      then obtain r' where i: "insert_node r k d replace = (s, x, r')" "t' = Term l e r'"
        using Term.prems(2) by (auto split: prod.splits)
      from Term.IH(2) [OF Term.prems(1) i(1)] ok 3 i(2) Term.prems(1) show ?thesis by auto
    qed
  next
    case (Node v l m r)
    note ok = Node.prems(3)
    consider "peek k = v" | "peek k \<noteq> v" "LEFTP v (peek k)" | "peek k \<noteq> v" "\<not> LEFTP v (peek k)" by blast
    then show ?case
    proof cases
      case 1
      with ok obtain k1 where k: "k = v # k1" by (cases k) auto
      obtain m' where i: "insert_node m k1 d replace = (s, x, m')" "t' = Node v l m' r"
        using Node.prems(2) 1 k by (auto split: prod.splits)
      have "nul_free k1" using Node.prems(1) k by simp
      from Node.IH(2) [OF this i(1)] ok i(2) k Node.prems(1)
      have "search_node t' k' = (if k' = k \<and> (x = None \<or> replace) then Some d else search_node (Node v l m r) k')"
        if "nul_free k'" for k' using that by (cases k') auto
      with Node.IH(2) [OF \<open>nul_free k1\<close> i(1)] ok i(2) k show ?thesis by simp
    next
      case 2
      then obtain l' where i: "insert_node l k d replace = (s, x, l')" "t' = Node v l' m r"
        using Node.prems(2) by (auto split: prod.splits)
      from Node.IH(1) [OF Node.prems(1) i(1)] ok 2 i(2) show ?thesis by auto
    next
      case 3
      then obtain r' where i: "insert_node r k d replace = (s, x, r')" "t' = Node v l m r'"
        using Node.prems(2) by (auto split: prod.splits)
      from Node.IH(3) [OF Node.prems(1) i(1)] ok 3 i(2) show ?thesis by auto
    qed
  qed (auto simp: search_chain)
  then show "x = search_node t k" "letters t' = letters t \<union> {peek k}" "t' \<noteq> Null" "ok_node t'"
    "s = (if x = None \<or> replace then TST_OK else TST_DUPLICATE_KEY)"
    "nul_free k' \<Longrightarrow> search_node t' k'
       = (if k' = k \<and> (x = None \<or> replace) then Some d else search_node t k')"
    by blast+
qed

subsection \<open>Recursive deletion\<close>

fun del_node :: "'a tnode \<Rightarrow> string \<Rightarrow> 'a tnode" where
  "del_node Null k = Null"
| "del_node (Term l d r) k =
     (if k = [] then replacement l r
      else if LEFTP NUL (peek k) then Term (del_node l k) d r else Term l d (del_node r k))"
| "del_node (Node v l m r) k =
     (if peek k = v then
        (if del_node m (tl k) = Null then replacement l r else Node v l (del_node m (tl k)) r)
      else if LEFTP v (peek k) then Node v (del_node l k) m r else Node v l m (del_node r k))"

lemma letters_attach: "letters (attach_left r x) = letters r \<union> letters x"
  by (induction r) auto

lemma letters_replacement [simp]: "letters (replacement l r) = letters l \<union> letters r"
  by (auto simp: replacement_def letters_attach)

lemma letters_del: "letters (del_node t k) \<subseteq> letters t"
proof (induction t arbitrary: k)
  case (Term l d r)
  from Term.IH(1) [of k] Term.IH(2) [of k] show ?case by auto
next
  case (Node v l m r)
  have "letters (del_node (Node v l m r) k) \<subseteq> {v} \<union> letters l \<union> letters r
      \<or> letters (del_node (Node v l m r) k) \<subseteq> {v} \<union> letters (del_node l k) \<union> letters r
      \<or> letters (del_node (Node v l m r) k) \<subseteq> {v} \<union> letters l \<union> letters (del_node r k)"
    by (cases "peek k = v"; cases "LEFTP v (peek k)"; cases "del_node m (tl k) = Null") auto
  with Node.IH(1) [of k] Node.IH(3) [of k] show ?case by fastforce
qed simp

lemma attach_left_facts:
  assumes "ok_node r" "ok_node x" "\<forall>w \<in> letters r. \<forall>c \<in> letters x. c \<noteq> w \<and> LEFTP w c"
  shows "ok_node (attach_left r x)"
    "nul_free k \<Longrightarrow> search_node (attach_left r x) k
       = (if peek k \<in> letters x then search_node x k else search_node r k)"
proof -
  have "ok_node (attach_left r x) \<and> (\<forall>k. nul_free k \<longrightarrow> search_node (attach_left r x) k
       = (if peek k \<in> letters x then search_node x k else search_node r k))"
    using assms
  proof (induction r)
    case Null
    then show ?case using search_outside [of _ x] by auto
  next
    case (Term l d r)
    then have x: "\<forall>c \<in> letters x. c \<noteq> NUL \<and> LEFTP NUL c"
      and ih: "ok_node (attach_left l x)" "\<And>k. nul_free k \<Longrightarrow> search_node (attach_left l x) k
       = (if peek k \<in> letters x then search_node x k else search_node l k)"
      by simp_all
    have "search_node (attach_left (Term l d r) x) k
       = (if peek k \<in> letters x then search_node x k else search_node (Term l d r) k)" if "nul_free k" for k
    proof -
      have "peek k \<in> letters x \<longrightarrow> peek k \<noteq> NUL \<and> LEFTP NUL (peek k)" using x by blast
      moreover have "peek k \<noteq> NUL \<longrightarrow> k \<noteq> []" by (cases k) simp_all
      ultimately show ?thesis using ih(2) [OF that] by simp
    qed
    moreover have "ok_node (attach_left (Term l d r) x)"
      using ih(1) x Term.prems(1) by (simp add: letters_attach ball_Un)
    ultimately show ?case by blast
  next
    case (Node v l m r)
    then have x: "\<forall>c \<in> letters x. c \<noteq> v \<and> LEFTP v c"
      and ih: "ok_node (attach_left l x)" "\<And>k. nul_free k \<Longrightarrow> search_node (attach_left l x) k
       = (if peek k \<in> letters x then search_node x k else search_node l k)"
      by simp_all
    have "search_node (attach_left (Node v l m r) x) k
       = (if peek k \<in> letters x then search_node x k else search_node (Node v l m r) k)" if "nul_free k" for k
    proof -
      have "peek k \<in> letters x \<longrightarrow> peek k \<noteq> v \<and> LEFTP v (peek k)" using x by blast
      then show ?thesis using ih(2) [OF that] by simp
    qed
    moreover have "ok_node (attach_left (Node v l m r) x)"
      using ih(1) x Node.prems(1) by (simp add: letters_attach ball_Un)
    ultimately show ?case by blast
  qed
  then show "ok_node (attach_left r x)"
    "nul_free k \<Longrightarrow> search_node (attach_left r x) k
       = (if peek k \<in> letters x then search_node x k else search_node r k)" by blast+
qed

lemma LEFTP_across:
  assumes "LEFTP v c" "c \<noteq> v" "\<not> LEFTP v w" "w \<noteq> v"
  shows "c \<noteq> w \<and> LEFTP w c"
proof -
  have "w \<noteq> NUL"
    using assms(3,4) byte_inject [of v NUL] by (auto simp: LEFTP_def split: if_splits)
  moreover have "byte c < byte w"
    using assms byte_inject [of v w] by (auto simp: LEFTP_def split: if_splits) 
  ultimately show ?thesis by (auto simp: LEFTP_def)
qed

lemma replacement_facts:
  assumes "ok_node l" "ok_node r"
    "\<forall>c \<in> letters l. c \<noteq> v \<and> LEFTP v c" "\<forall>c \<in> letters r. c \<noteq> v \<and> \<not> LEFTP v c"
  shows "ok_node (replacement l r)"
    "nul_free k \<Longrightarrow> search_node (replacement l r) k
       = (if peek k = v then None else if LEFTP v (peek k) then search_node l k else search_node r k)"
proof -
  have sep: "\<forall>w \<in> letters r. \<forall>c \<in> letters l. c \<noteq> w \<and> LEFTP w c"
    using assms(3,4) LEFTP_across by blast
  note at = attach_left_facts [OF assms(2,1) sep]
  show "ok_node (replacement l r)" using at(1) assms(1,2) by (simp add: replacement_def)
  assume k: "nul_free k"
  have "search_node (replacement l r) k = (if peek k \<in> letters l then search_node l k else search_node r k)"
    using at(2) [OF k] search_outside [OF k, of l] by (auto simp: replacement_def)
  also have "\<dots> = (if peek k = v then None else if LEFTP v (peek k) then search_node l k else search_node r k)"
    using assms(3,4) search_outside [OF k, of l] search_outside [OF k, of r] by auto
  finally show "search_node (replacement l r) k
       = (if peek k = v then None else if LEFTP v (peek k) then search_node l k else search_node r k)" .
qed

lemma del_node_facts:
  assumes "nul_free k" "ok_node t"
  shows "ok_node (del_node t k)"
    "nul_free k' \<Longrightarrow> search_node (del_node t k) k' = (if k' = k then None else search_node t k')"
proof -
  have "ok_node (del_node t k) \<and> (\<forall>k'. nul_free k' \<longrightarrow>
      search_node (del_node t k) k' = (if k' = k then None else search_node t k'))"
    using assms
  proof (induction t arbitrary: k)
    case (Term l d r)
    have rf: "ok_node (replacement l r)" "\<And>k'. nul_free k' \<Longrightarrow> search_node (replacement l r) k'
       = (if peek k' = NUL then None else if LEFTP NUL (peek k') then search_node l k' else search_node r k')"
      using Term.prems replacement_facts [of l r NUL] by auto
    show ?case
    proof (cases "k = []")
      case True
      with rf show ?thesis by auto
    next
      case False
      have "letters (del_node l k) \<subseteq> letters l" "letters (del_node r k) \<subseteq> letters r" by (rule letters_del)+
      with False Term show ?thesis by auto
    qed
  next
    case (Node v l m r)
    note ok = Node.prems(2)
    have "v \<noteq> NUL" using ok by simp
    have "\<forall>c \<in> letters l. c \<noteq> v \<and> LEFTP v c" "\<forall>c \<in> letters r. c \<noteq> v \<and> \<not> LEFTP v c"
      using ok LEFTP_irrefl [of v] by auto
    from replacement_facts [OF _ _ this] ok
    have rf: "ok_node (replacement l r)" "\<And>k'. nul_free k' \<Longrightarrow> search_node (replacement l r) k'
       = (if peek k' = v then None else if LEFTP v (peek k') then search_node l k' else search_node r k')"
      by auto
    show ?case
    proof (cases "peek k = v")
      case True
      with \<open>v \<noteq> NUL\<close> obtain k1 where k: "k = v # k1" by (cases k) auto
      with Node have ih: "ok_node (del_node m k1)" "\<And>k'. nul_free k' \<Longrightarrow>
          search_node (del_node m k1) k' = (if k' = k1 then None else search_node m k')" by auto
      define D where "D = (if del_node m k1 = Null then replacement l r else Node v l (del_node m k1) r)"
      have D: "del_node (Node v l m r) k = D" by (simp add: k D_def)
      have "search_node D k' = (if k' = k then None else search_node (Node v l m r) k')" if "nul_free k'" for k'
      proof (cases "peek k' = v")
        case True
        with \<open>v \<noteq> NUL\<close> obtain k1' where k': "k' = v # k1'" by (cases k') auto
        have "search_node D k' = search_node (del_node m k1) k1'"
          using rf(2) [of k'] that k' by (simp add: D_def)
        also have "\<dots> = (if k1' = k1 then None else search_node m k1')" using ih(2) [of k1'] that k' by simp
        finally show ?thesis by (simp add: k k')
      next
        case False
        with rf(2) [of k'] that k show ?thesis by (auto simp: D_def)
      qed
      moreover have "ok_node D" using ih(1) rf(1) ok by (simp add: D_def)
      ultimately show ?thesis unfolding D by blast
    next
      case False
      have "letters (del_node l k) \<subseteq> letters l" "letters (del_node r k) \<subseteq> letters r" by (rule letters_del)+
      with False Node show ?thesis by auto
    qed
  qed auto
  then show "ok_node (del_node t k)"
    "nul_free k' \<Longrightarrow> search_node (del_node t k) k' = (if k' = k then None else search_node t k')" by blast+
qed

lemma del_node_absent: "ok_node t \<Longrightarrow> search_node t k = None \<Longrightarrow> del_node t k = t"
  by (induction t arbitrary: k) (auto split: if_splits)

subsection \<open>The surgery is the recursive deletion\<close>

text \<open>\<open>collapse\<close> carries an emptied subtree up the path, as the recursion does.\<close>

fun collapse :: "'a frame list \<Rightarrow> 'a tnode \<Rightarrow> 'a tnode" where
  "collapse [] t = t"
| "collapse (InMiddle v l r # path) t = collapse path (if t = Null then replacement l r else Node v l t r)"
| "collapse (f # path) t = collapse path (fill f t)"

fun side :: "'a frame list \<Rightarrow> bool" where
  "side [] = False"
| "side (InMiddle v l r # path) = False"
| "side (f # path) = True"

fun narrow_frame :: "'a frame \<Rightarrow> bool" where
  "narrow_frame (InMiddle v l r) = (l = Null \<and> r = Null)"
| "narrow_frame f = False"

definition narrow :: "'a frame list \<Rightarrow> bool" where
  "narrow path \<longleftrightarrow> (\<forall>f \<in> set path. narrow_frame f)"

lemma narrow_simps [simp]:
  "narrow []" "narrow (InMiddle v l r # path) \<longleftrightarrow> l = Null \<and> r = Null \<and> narrow path"
  by (auto simp: narrow_def)

lemma narrow_ConsD: "narrow (f # path) \<Longrightarrow> narrow path \<and> (\<exists>v. f = InMiddle v Null Null)"
  by (cases f) (auto simp: narrow_def)

lemma plug_simps [simp]: "plug [] t = t" "plug (f # path) t = plug path (fill f t)"
  "plug (p @ q) t = plug q (plug p t)"
  by (simp_all add: plug_def)

lemma fill_nonnull [simp]: "fill f t \<noteq> Null"
  by (cases f) auto

lemma attach_left_nonnull: "t \<noteq> Null \<Longrightarrow> attach_left t x \<noteq> Null"
  by (cases t) auto

lemma replacement_Null [simp]: "replacement Null Null = Null" "replacement l r = Null \<longleftrightarrow> l = Null \<and> r = Null"
  by (auto simp: replacement_def attach_left_nonnull)

lemma collapse_plug: "t \<noteq> Null \<or> side path \<Longrightarrow> collapse path t = plug path t"
proof (induction path arbitrary: t)
  case (Cons f path)
  from Cons.IH [of "fill f t"] Cons.prems show ?case by (cases f) auto
qed simp

lemma collapse_append: "collapse (p @ q) t = collapse q (collapse p t)"
  by (induction p t rule: collapse.induct) auto

lemma collapse_narrow: "narrow path \<Longrightarrow> collapse path Null = Null"
  by (induction path) (auto dest!: narrow_ConsD)

lemma chain_data_narrow: "narrow path \<Longrightarrow> chain_data (plug path t) = chain_data t"
  by (induction path arbitrary: t) (auto dest!: narrow_ConsD)

text \<open>What \<open>last_branch\<close> is during the descent.\<close>

definition last_branch_ok :: "'a tnode \<Rightarrow> 'a frame list \<Rightarrow> 'a place option \<Rightarrow> bool" where
  "last_branch_ok cur path last_branch =
     (case last_branch of
        None \<Rightarrow> narrow path
      | Some (n, p) \<Rightarrow> n = cur \<and> p = path \<and> side p
        \<or> (\<exists>inner v l r. n = Node v l (plug inner cur) r \<and> path = inner @ InMiddle v l r # p
             \<and> narrow inner \<and> (l \<noteq> Null \<or> r \<noteq> Null \<or> side p)))"

lemma last_branch_middle:
  assumes "last_branch_ok (Node v l m r) path lb"
  shows "last_branch_ok m (InMiddle v l r # path)
     (if l \<noteq> Null \<or> r \<noteq> Null then Some (Node v l m r, path) else lb)"
proof (cases "l \<noteq> Null \<or> r \<noteq> Null")
  case True
  then show ?thesis by (auto simp: last_branch_ok_def intro!: exI [of _ "[]"])
next
  case False
  show ?thesis
  proof (cases lb)
    case None
    with False assms show ?thesis by (simp add: last_branch_ok_def)
  next
    case (Some np)
    obtain n p where np: "lb = Some (n, p)" using Some by (cases np) auto
    with assms consider "n = Node v l m r" "p = path" "side p"
      | inner v' l' r' where "n = Node v' l' (plug inner (Node v l m r)) r'"
          "path = inner @ InMiddle v' l' r' # p" "narrow inner" "l' \<noteq> Null \<or> r' \<noteq> Null \<or> side p"
      by (auto simp: last_branch_ok_def)
    then show ?thesis
    proof cases
      case 1
      with False np show ?thesis
        by (auto simp: last_branch_ok_def intro!: exI [of _ "[]"])
    next
      case 2
      with False np show ?thesis
        by (auto simp: last_branch_ok_def intro!: exI [of _ "InMiddle v Null Null # inner"])
    qed
  qed
qed

lemma last_branch_side: "side (f # path) \<Longrightarrow> last_branch_ok t (f # path) (Some (t, f # path))"
  by (simp add: last_branch_ok_def)

definition surgery :: "'a tnode \<Rightarrow> 'a place option \<Rightarrow> 'a option \<times> 'a tnode" where
  "surgery head last_branch =
     (case last_branch of None \<Rightarrow> (chain_data head, Null)
      | Some (n, path) \<Rightarrow> (chain_data n, plug path (node_replacement n)))"

lemma surgery_Term:
  assumes "last_branch_ok (Term l d r) path lb"
  shows "surgery (plug path (Term l d r)) (if l \<noteq> Null \<or> r \<noteq> Null then Some (Term l d r, path) else lb)
    = (Some d, collapse path (replacement l r))"
proof (cases "l \<noteq> Null \<or> r \<noteq> Null")
  case True
  then show ?thesis by (auto simp: surgery_def collapse_plug)
next
  case False
  show ?thesis
  proof (cases lb)
    case None
    with False assms show ?thesis
      by (simp add: surgery_def last_branch_ok_def collapse_narrow chain_data_narrow)
  next
    case (Some np)
    obtain n p where np: "lb = Some (n, p)" using Some by (cases np) auto
    with assms consider "n = Term l d r" "p = path" "side p"
      | inner v' l' r' where "n = Node v' l' (plug inner (Term l d r)) r'"
          "path = inner @ InMiddle v' l' r' # p" "narrow inner" "l' \<noteq> Null \<or> r' \<noteq> Null \<or> side p"
      by (auto simp: last_branch_ok_def)
    then show ?thesis
    proof cases
      case 1
      with False np show ?thesis by (simp add: surgery_def collapse_plug)
    next
      case 2
      with False np show ?thesis
        by (auto simp: surgery_def collapse_append collapse_narrow chain_data_narrow collapse_plug)
    qed
  qed
qed

lemma delete_find_correct:
  "last_branch_ok cur path lb \<Longrightarrow>
   (case delete_find cur path lb k of
      None \<Rightarrow> search_node cur k = None
    | Some lb' \<Rightarrow> search_node cur k \<noteq> None \<and>
        surgery (plug path cur) lb' = (search_node cur k, collapse path (del_node cur k)))"
proof (induction cur path lb k rule: delete_find.induct)
  case (2 l d r path lb k)
  note s = last_branch_side
  consider "k = []" | "k \<noteq> []" "LEFTP NUL (peek k)" | "k \<noteq> []" "\<not> LEFTP NUL (peek k)" by blast
  then show ?case
  proof cases
    case 1
    with surgery_Term [OF 2(3)] show ?thesis by simp
  next
    case 2
    with "2.IH"(1) [OF 2 s] show ?thesis by (simp split: option.splits)
  next
    case 3
    with "2.IH"(2) [OF 3 s] show ?thesis by (simp split: option.splits)
  qed
next
  case (3 v l m r path lb k)
  note s = last_branch_side
  consider "peek k = v" | "peek k \<noteq> v" "LEFTP v (peek k)" | "peek k \<noteq> v" "\<not> LEFTP v (peek k)" by blast
  then show ?case
  proof cases
    case 1
    define lb1 where "lb1 = (if l \<noteq> Null \<or> r \<noteq> Null then Some (Node v l m r, path) else lb)"
    from "3.IH"(1) [OF 1 last_branch_middle [OF 3(4)]] 1 show ?thesis
      unfolding lb1_def [symmetric] delete_find.simps by (simp split: option.splits)
  next
    case 2
    with "3.IH"(2) [OF 2 s] show ?thesis by (simp split: option.splits)
  next
    case 3
    with "3.IH"(3) [OF 3 s] show ?thesis by (simp split: option.splits)
  qed
qed simp

lemma delete_node_correct:
  assumes "ok_node t"
  shows "delete_node t k = (search_node t k, del_node t k)"
proof -
  have "last_branch_ok t [] None" by (simp add: last_branch_ok_def)
  from delete_find_correct [OF this, of k] show ?thesis
    using del_node_absent [OF assms, of k]
    by (auto simp: delete_node_def surgery_def split: option.splits prod.splits)
qed

subsection \<open>The trie is a dictionary\<close>

definition ok_tst :: "'a tst \<Rightarrow> bool" where
  "ok_tst t \<longleftrightarrow> (\<forall>c. ok_node (tst_head t c))"

definition tst_key :: "string \<Rightarrow> bool" where
  "tst_key k \<longleftrightarrow> k \<noteq> [] \<and> nul_free k"

definition tst_lookup :: "'a tst \<Rightarrow> string \<Rightarrow> 'a option" where
  "tst_lookup t k = tst_search t (Some k)"

definition tst_put :: "string \<Rightarrow> 'a \<Rightarrow> 'a tst \<Rightarrow> 'a tst" where
  "tst_put k d t = snd (snd (tst_insert t (Some k) (Some d) True))"

definition tst_remove :: "string \<Rightarrow> 'a tst \<Rightarrow> 'a tst" where
  "tst_remove k t = snd (tst_delete t (Some k))"

lemma tst_insert_correct:
  assumes "ok_tst t" "tst_key k" "tst_key k'"
  shows "case tst_insert t (Some k) (Some d) replace of (s, x, t') \<Rightarrow>
     ok_tst t' \<and> x = tst_lookup t k
     \<and> s = (if x = None \<or> replace then TST_OK else TST_DUPLICATE_KEY)
     \<and> tst_lookup t' k' = (if k' = k \<and> s = TST_OK then Some d else tst_lookup t k')"
proof -
  obtain c k1 where k: "k = c # k1" "nul_free k1" using assms(2) by (cases k) (auto simp: tst_key_def)
  obtain c' k1' where k': "k' = c' # k1'" "nul_free k1'" using assms(3) by (cases k') (auto simp: tst_key_def)
  obtain s x n where i: "insert_node (tst_head t c) k1 d replace = (s, x, n)" by (metis prod_cases3)
  have ok: "ok_node (tst_head t c)" using assms(1) by (simp add: ok_tst_def)
  note f = insert_node_facts [OF k(2) i ok]
  show ?thesis
    using f(1,4,5) f(6) [OF k'(2)] assms(1) k k' i
    by (auto simp: tst_insert_def tst_lookup_def tst_search_def ok_tst_def)
qed

lemma tst_delete_correct:
  assumes "ok_tst t" "tst_key k" "tst_key k'"
  shows "case tst_delete t (Some k) of (x, t') \<Rightarrow>
     ok_tst t' \<and> x = tst_lookup t k \<and> tst_lookup t' k' = (if k' = k then None else tst_lookup t k')"
proof -
  obtain c k1 where k: "k = c # k1" "nul_free k1" using assms(2) by (cases k) (auto simp: tst_key_def)
  obtain c' k1' where k': "k' = c' # k1'" "nul_free k1'" using assms(3) by (cases k') (auto simp: tst_key_def)
  have ok: "ok_node (tst_head t c)" using assms(1) by (simp add: ok_tst_def)
  note f = del_node_facts [OF k(2) ok] delete_node_correct [OF ok, of k1]
  show ?thesis
    using f(1,3) f(2) [OF k'(2)] assms(1) k k'
    by (auto simp: tst_delete_def tst_lookup_def tst_search_def ok_tst_def)
qed

interpretation trie: map_adt tst_init tst_lookup tst_put tst_remove ok_tst tst_key
proof
  fix t :: "'a tst" and k k' d
  show "tst_key k \<Longrightarrow> tst_lookup (tst_init :: 'a tst) k = None"
    by (auto simp: tst_lookup_def tst_search_def tst_init_def split: list.split)
  show "ok_tst (tst_init :: 'a tst)" by (simp add: ok_tst_def tst_init_def)
  assume t: "ok_tst t" "tst_key k"
  from tst_insert_correct [OF t t(2), where d = d and replace = True] show "ok_tst (tst_put k d t)"
    by (auto simp: tst_put_def split: prod.splits)
  from tst_delete_correct [OF t t(2)] show "ok_tst (tst_remove k t)"
    by (auto simp: tst_remove_def split: prod.splits)
  assume k': "tst_key k'"
  from tst_insert_correct [OF t k', where d = d and replace = True]
  show "tst_lookup (tst_put k d t) k' = (if k' = k then Some d else tst_lookup t k')"
    by (auto simp: tst_put_def split: prod.splits)
  from tst_delete_correct [OF t k']
  show "tst_lookup (tst_remove k t) k' = (if k' = k then None else tst_lookup t k')"
    by (auto simp: tst_remove_def split: prod.splits)
qed

subsection \<open>Properties\<close>

text \<open>C21: after any sequence of insertions and deletions of non-empty keys the trie answers every search
  as the finite map built by the same sequence does, and each level is still ordered for the search:
  the surgery of a deletion loses no other key.\<close>

theorem tst_implements_map:
  assumes "\<forall>op \<in> set ops. tst_key (op_key op)" "tst_key k"
  shows "tst_lookup (fold (\<lambda>op t. case op of Insert k d \<Rightarrow> tst_put k d t | Delete k \<Rightarrow> tst_remove k t) ops tst_init) k
      = (map_run ops k :: 'a option)"
proof -
  have "trie.step op t = (case op of Insert k d \<Rightarrow> tst_put k d t | Delete k \<Rightarrow> tst_remove k t)"
    for op and t :: "'a tst" by (cases op) auto
  then have "(trie.step :: _ \<Rightarrow> 'a tst \<Rightarrow> _)
      = (\<lambda>op t. case op of Insert k d \<Rightarrow> tst_put k d t | Delete k \<Rightarrow> tst_remove k t)"
    by (intro ext)
  then show ?thesis using trie.run_refines_map [OF assms] by simp
qed

theorem tst_implements_map_witness:
  "tst_lookup (tst_remove ''ab'' (tst_put ''ac'' 2 (tst_put ''ab'' (1::nat) tst_init))) ''ac'' = Some 2"
proof -
  have "map_run [Insert ''ab'' (1::nat), Insert ''ac'' 2, Delete ''ab''] ''ac'' = Some 2"
    by (simp add: map_run_def)
  then show ?thesis
    using tst_implements_map [of "[Insert ''ab'' (1::nat), Insert ''ac'' 2, Delete ''ab'']" "''ac''"]
    by (simp add: tst_key_def)
qed

text \<open>C22: an insertion reports a duplicate exactly when the key is there and is not to be replaced,
  returns the old data, and changes only its own key; a deletion returns the data it removed; a null
  key, an empty key or null data changes nothing.\<close>

theorem tst_insert_and_delete_results:
  assumes "ok_tst t" "tst_key k" "tst_key k'"
  shows "case tst_insert t (Some k) (Some d) replace of (s, x, t') \<Rightarrow>
     ok_tst t' \<and> x = tst_lookup t k
     \<and> s = (if x = None \<or> replace then TST_OK else TST_DUPLICATE_KEY)
     \<and> tst_lookup t' k' = (if k' = k \<and> s = TST_OK then Some d else tst_lookup t k')
     \<and> fst (tst_delete t' (Some k)) = tst_lookup t' k
     \<and> tst_insert t None (Some d) replace = (TST_NULL_KEY, None, t)
     \<and> tst_insert t (Some []) (Some d) replace = (TST_NULL_KEY, None, t)
     \<and> tst_insert t (Some k) None replace = (TST_NULL_DATA, None, t)"
proof -
  obtain s x t' where i: "tst_insert t (Some k) (Some d) replace = (s, x, t')" by (metis prod_cases3)
  from tst_insert_correct [OF assms, where d = d and replace = replace] i have c: "ok_tst t'" "x = tst_lookup t k"
    "s = (if x = None \<or> replace then TST_OK else TST_DUPLICATE_KEY)"
    "tst_lookup t' k' = (if k' = k \<and> s = TST_OK then Some d else tst_lookup t k')" by auto
  from tst_delete_correct [OF c(1) assms(2,2)] have "fst (tst_delete t' (Some k)) = tst_lookup t' k"
    by (auto split: prod.splits)
  with c i show ?thesis by (simp add: tst_insert_def)
qed

theorem tst_insert_and_delete_results_witness:
  "fst (tst_insert tst_init (Some ''x'') (Some (1::nat)) False) = TST_OK"
  using tst_insert_and_delete_results [of "tst_init :: nat tst" "''x''" "''x''", where d = 1 and replace = False]
  by (auto simp: ok_tst_def tst_key_def tst_init_def tst_lookup_def tst_search_def split: prod.splits)

end
