(* ===== verification/Hashtab.thy ===== *)
theory Hashtab
  imports Inn_Prelude
begin

text \<open>
  The generic hash table of \<^verbatim>\<open>lib/hashtab.c\<close>: linear probing with tombstones, expansion at
  three quarters, and the LOOKUP2 hash function. The callbacks of the table (hash of a key, key of an
  element, equality) are arguments of the operations; the locale \<open>hash_callbacks\<close> is what the table
  requires of them. A probe that has seen every slot repeats itself, so the loops carry the number of
  slots left as fuel, and not returning is \<open>None\<close>: the invariant, which keeps one slot empty, excludes
  it. Sizes are unbounded naturals.
\<close>

unbundle bit_operations_syntax

subsection \<open>The table\<close>

datatype 'e slot = HASH_EMPTY | HASH_DELETED | Entry 'e

record 'e hashtab =
  ht_size :: nat
  ht_mask :: nat
  ht_nelements :: nat
  ht_ndeleted :: nat
  ht_searches :: nat
  ht_collisions :: nat
  ht_expansions :: nat
  ht_table :: "'e slot list"

fun size_bits :: "nat \<Rightarrow> nat" where
  "size_bits s = (if s > 0 then Suc (size_bits (s div 2)) else 0)"

declare size_bits.simps [simp del]

definition hash_size :: "nat \<Rightarrow> nat" where
  "hash_size target =
     (if target = 0 then 4
      else let n = size_bits (target - 1); sz = push_bit n 1 in if sz < 4 then 4 else sz)"

definition hash_create :: "nat \<Rightarrow> 'e hashtab" where
  "hash_create sz =
     \<lparr>ht_size = hash_size sz, ht_mask = hash_size sz - 1, ht_nelements = 0, ht_ndeleted = 0,
      ht_searches = 0, ht_collisions = 0, ht_expansions = 0,
      ht_table = replicate (hash_size sz) HASH_EMPTY\<rparr>"

definition next_slot :: "nat \<Rightarrow> nat \<Rightarrow> nat" where
  "next_slot sz slot = (let slot = slot + 1 in if slot \<ge> sz then slot - sz else slot)"

fun find_empty_loop :: "'e slot list \<Rightarrow> nat \<Rightarrow> nat \<Rightarrow> nat \<Rightarrow> nat option" where
  "find_empty_loop table sz slot 0 = None"
| "find_empty_loop table sz slot (Suc fuel) =
     (case table ! slot of HASH_EMPTY \<Rightarrow> Some slot
      | _ \<Rightarrow> find_empty_loop table sz (next_slot sz slot) fuel)"

definition hash_find_empty :: "('k \<Rightarrow> nat) \<Rightarrow> 'e hashtab \<Rightarrow> 'k \<Rightarrow> nat option" where
  "hash_find_empty hashf ht key =
     find_empty_loop (ht_table ht) (ht_size ht) (hashf key AND ht_mask ht) (ht_size ht)"

fun expand_loop :: "('k \<Rightarrow> nat) \<Rightarrow> ('e \<Rightarrow> 'k) \<Rightarrow> 'e slot list \<Rightarrow> 'e hashtab \<Rightarrow> 'e hashtab option" where
  "expand_loop hashf keyf [] ht = Some ht"
| "expand_loop hashf keyf (Entry e # old) ht =
     (case hash_find_empty hashf ht (keyf e) of
        None \<Rightarrow> None
      | Some slot \<Rightarrow>
          expand_loop hashf keyf old
            (ht\<lparr>ht_table := (ht_table ht)[slot := Entry e], ht_nelements := ht_nelements ht + 1\<rparr>))"
| "expand_loop hashf keyf (_ # old) ht = expand_loop hashf keyf old ht"

definition hash_expand :: "('k \<Rightarrow> nat) \<Rightarrow> ('e \<Rightarrow> 'k) \<Rightarrow> 'e hashtab \<Rightarrow> 'e hashtab option" where
  "hash_expand hashf keyf ht =
     (let sz = hash_size ((ht_nelements ht - ht_ndeleted ht) * 2);
          ht' = ht\<lparr>ht_size := sz, ht_mask := sz - 1, ht_table := replicate sz HASH_EMPTY,
                   ht_nelements := 0, ht_ndeleted := 0\<rparr>
      in case expand_loop hashf keyf (ht_table ht) ht' of
           None \<Rightarrow> None
         | Some ht'' \<Rightarrow> Some (ht''\<lparr>ht_expansions := ht_expansions ht'' + 1\<rparr>))"

text \<open>What the probing loop of \<open>hash_find_slot\<close> ends with: an empty slot, together with the last
  deleted slot it passed when inserting, or the slot of the element; and the collisions counted.\<close>

datatype probe = ProbeEmpty nat "nat option" | ProbeFound nat

fun probe_loop ::
    "('k \<Rightarrow> 'e \<Rightarrow> bool) \<Rightarrow> 'e slot list \<Rightarrow> nat \<Rightarrow> 'k \<Rightarrow> bool \<Rightarrow> nat \<Rightarrow> nat option \<Rightarrow> nat \<Rightarrow> nat
      \<Rightarrow> (probe \<times> nat) option" where
  "probe_loop equal table sz key ins slot deleted_slot collisions 0 = None"
| "probe_loop equal table sz key ins slot deleted_slot collisions (Suc fuel) =
     (case table ! slot of
        HASH_EMPTY \<Rightarrow> Some (ProbeEmpty slot deleted_slot, collisions)
      | HASH_DELETED \<Rightarrow>
          probe_loop equal table sz key ins (next_slot sz slot)
            (if ins then Some slot else deleted_slot) (collisions + 1) fuel
      | Entry e \<Rightarrow>
          if equal key e then Some (ProbeFound slot, collisions)
          else probe_loop equal table sz key ins (next_slot sz slot) deleted_slot
                 (collisions + 1) fuel)"

text \<open>\<open>Some (None, _)\<close> is a NULL result.\<close>

definition hash_find_slot ::
    "('k \<Rightarrow> nat) \<Rightarrow> ('e \<Rightarrow> 'k) \<Rightarrow> ('k \<Rightarrow> 'e \<Rightarrow> bool) \<Rightarrow> 'e hashtab \<Rightarrow> 'k \<Rightarrow> bool
      \<Rightarrow> (nat option \<times> 'e hashtab) option" where
  "hash_find_slot hashf keyf equal ht0 key ins =
     (case (if ins \<and> ht_nelements ht0 * 4 \<ge> ht_size ht0 * 3 then hash_expand hashf keyf ht0
            else Some ht0) of
        None \<Rightarrow> None
      | Some ht1 \<Rightarrow>
        let ht = ht1\<lparr>ht_searches := ht_searches ht1 + 1\<rparr> in
        (case probe_loop equal (ht_table ht) (ht_size ht) key ins (hashf key AND ht_mask ht) None
                (ht_collisions ht) (ht_size ht) of
           None \<Rightarrow> None
         | Some (r, collisions) \<Rightarrow>
           let ht = ht\<lparr>ht_collisions := collisions\<rparr> in
           (case r of
              ProbeFound slot \<Rightarrow> Some (Some slot, ht)
            | ProbeEmpty slot deleted_slot \<Rightarrow>
                if \<not> ins then Some (None, ht)
                else (case deleted_slot of
                        Some d \<Rightarrow> Some (Some d, ht\<lparr>ht_table := (ht_table ht)[d := HASH_EMPTY],
                                                  ht_ndeleted := ht_ndeleted ht - 1\<rparr>)
                      | None \<Rightarrow> Some (Some slot, ht\<lparr>ht_nelements := ht_nelements ht + 1\<rparr>)))))"

fun slot_entry :: "'e slot \<Rightarrow> 'e option" where
  "slot_entry (Entry e) = Some e"
| "slot_entry _ = None"

definition hash_lookup ::
    "('k \<Rightarrow> nat) \<Rightarrow> ('e \<Rightarrow> 'k) \<Rightarrow> ('k \<Rightarrow> 'e \<Rightarrow> bool) \<Rightarrow> 'e hashtab \<Rightarrow> 'k \<Rightarrow> ('e option \<times> 'e hashtab) option" where
  "hash_lookup hashf keyf equal ht key =
     (case hash_find_slot hashf keyf equal ht key False of
        None \<Rightarrow> None
      | Some (None, ht') \<Rightarrow> Some (None, ht')
      | Some (Some slot, ht') \<Rightarrow> Some (slot_entry (ht_table ht' ! slot), ht'))"

definition hash_insert ::
    "('k \<Rightarrow> nat) \<Rightarrow> ('e \<Rightarrow> 'k) \<Rightarrow> ('k \<Rightarrow> 'e \<Rightarrow> bool) \<Rightarrow> 'e hashtab \<Rightarrow> 'k \<Rightarrow> 'e \<Rightarrow> (bool \<times> 'e hashtab) option" where
  "hash_insert hashf keyf equal ht key datum =
     (case hash_find_slot hashf keyf equal ht key True of
        Some (Some slot, ht') \<Rightarrow>
          if ht_table ht' ! slot \<noteq> HASH_EMPTY then Some (False, ht')
          else Some (True, ht'\<lparr>ht_table := (ht_table ht')[slot := Entry datum]\<rparr>)
      | _ \<Rightarrow> None)"

text \<open>The middle result is the element given to the delete callback.\<close>

definition hash_replace ::
    "('k \<Rightarrow> nat) \<Rightarrow> ('e \<Rightarrow> 'k) \<Rightarrow> ('k \<Rightarrow> 'e \<Rightarrow> bool) \<Rightarrow> 'e hashtab \<Rightarrow> 'k \<Rightarrow> 'e slot
      \<Rightarrow> (bool \<times> 'e option \<times> 'e hashtab) option" where
  "hash_replace hashf keyf equal ht key datum =
     (case hash_find_slot hashf keyf equal ht key False of
        None \<Rightarrow> None
      | Some (None, ht') \<Rightarrow> Some (False, None, ht')
      | Some (Some slot, ht') \<Rightarrow>
          Some (True, slot_entry (ht_table ht' ! slot), ht'\<lparr>ht_table := (ht_table ht')[slot := datum]\<rparr>))"

definition hash_delete ::
    "('k \<Rightarrow> nat) \<Rightarrow> ('e \<Rightarrow> 'k) \<Rightarrow> ('k \<Rightarrow> 'e \<Rightarrow> bool) \<Rightarrow> 'e hashtab \<Rightarrow> 'k \<Rightarrow> (bool \<times> 'e option \<times> 'e hashtab) option" where
  "hash_delete hashf keyf equal ht key =
     (case hash_replace hashf keyf equal ht key HASH_DELETED of
        None \<Rightarrow> None
      | Some (result, e, ht') \<Rightarrow>
          Some (result, e, if result then ht'\<lparr>ht_ndeleted := ht_ndeleted ht' + 1\<rparr> else ht'))"

text \<open>The elements in the order \<open>hash_traverse\<close> hands them to its callback, and \<open>hash_free\<close> to the
  delete function.\<close>

definition hash_traverse :: "('e \<Rightarrow> 'd \<Rightarrow> 'd) \<Rightarrow> 'e hashtab \<Rightarrow> 'd \<Rightarrow> 'd" where
  "hash_traverse callback ht d =
     fold (\<lambda>s d. case s of Entry e \<Rightarrow> callback e d | _ \<Rightarrow> d) (ht_table ht) d"

definition hash_free :: "'e hashtab \<Rightarrow> 'e list" where
  "hash_free ht = List.map_filter slot_entry (ht_table ht)"

definition hash_count :: "'e hashtab \<Rightarrow> nat" where
  "hash_count ht = ht_nelements ht - ht_ndeleted ht"

subsection \<open>Sizes and probing order\<close>

lemma size_bits_power: "s < 2 ^ size_bits s"
proof (induction s rule: size_bits.induct)
  case (1 s)
  show ?case
  proof (cases "s > 0")
    case True
    with 1 have "s div 2 < 2 ^ size_bits (s div 2)" by simp
    with True show ?thesis by (subst size_bits.simps) simp
  qed simp
qed

lemma hash_size_facts: "\<exists>n. hash_size t = 2 ^ n" "t \<le> hash_size t" "4 \<le> hash_size t"
proof -
  define n where "n = size_bits (t - 1)"
  have t: "t \<le> 2 ^ n" using size_bits_power [of "t - 1"] unfolding n_def by linarith
  have h: "hash_size t = (if t = 0 then 4 else if 2 ^ n < (4::nat) then 4 else 2 ^ n)"
    by (simp add: hash_size_def n_def Let_def push_bit_eq_mult)
  show "t \<le> hash_size t" "4 \<le> hash_size t" using t unfolding h by auto
  have "(4::nat) = 2 ^ 2" by simp
  then show "\<exists>n. hash_size t = 2 ^ n" unfolding h by metis
qed

lemma mask_mod: "m = 2 ^ n \<Longrightarrow> h AND (m - 1) = h mod (m::nat)"
  using take_bit_eq_mask [of n h] by (simp add: take_bit_eq_mod mask_eq_exp_minus_1)

lemma next_slot_mod: "0 < sz \<Longrightarrow> next_slot sz ((h + i) mod sz) = (h + Suc i) mod sz"
proof -
  assume "0 < sz"
  then have "(h + i) mod sz < sz" by simp
  then show ?thesis
    by (cases "Suc ((h + i) mod sz) = sz") (simp_all add: next_slot_def Let_def mod_Suc)
qed

lemma probe_covers: "s < sz \<Longrightarrow> \<exists>j < sz. s = (h + j) mod (sz::nat)"
proof -
  assume s: "s < sz"
  define r where "r = h mod sz"
  have r: "r < sz" using s by (simp add: r_def)
  have hm: "(h + j) mod sz = (r + j) mod sz" for j by (simp add: r_def mod_add_left_eq)
  show ?thesis
  proof (cases "r \<le> s")
    case True
    then have "s - r < sz" "(h + (s - r)) mod sz = s" using s hm [of "s - r"] by simp_all
    then show ?thesis by metis
  next
    case False
    then have "r + (sz - r + s) = sz + s" using r by simp
    then have "sz - r + s < sz" "(h + (sz - r + s)) mod sz = s"
      using s r False hm [of "sz - r + s"] by simp_all
    then show ?thesis by metis
  qed
qed

subsection \<open>The loops\<close>

lemma find_empty_loop_Some:
  assumes "0 < sz" "j < i + fuel" "i \<le> j" "table ! ((h + j) mod sz) = HASH_EMPTY"
    "\<forall>i' < j. i \<le> i' \<longrightarrow> table ! ((h + i') mod sz) \<noteq> HASH_EMPTY"
  shows "find_empty_loop table sz ((h + i) mod sz) fuel = Some ((h + j) mod sz)"
  using assms(2-5)
proof (induction fuel arbitrary: i)
  case (Suc fuel)
  show ?case
  proof (cases "i = j")
    case False
    then have "table ! ((h + i) mod sz) \<noteq> HASH_EMPTY" using Suc.prems by auto
    moreover have "find_empty_loop table sz ((h + Suc i) mod sz) fuel = Some ((h + j) mod sz)"
      using Suc.prems False by (intro Suc.IH) auto
    ultimately show ?thesis
      using next_slot_mod [OF assms(1), of h i] by (auto split: slot.split)
  qed (use Suc.prems in simp)
qed simp

text \<open>The last deleted slot between two probes.\<close>

fun last_deleted :: "'e slot list \<Rightarrow> nat \<Rightarrow> nat \<Rightarrow> nat \<Rightarrow> nat \<Rightarrow> nat option \<Rightarrow> nat option" where
  "last_deleted table h sz i 0 d = d"
| "last_deleted table h sz i (Suc n) d =
     last_deleted table h sz (Suc i) n
       (if table ! ((h + i) mod sz) = HASH_DELETED then Some ((h + i) mod sz) else d)"

lemma last_deleted_Some:
  "last_deleted table h sz i n d = Some s \<Longrightarrow>
     d = Some s \<or> (\<exists>i'. i \<le> i' \<and> i' < i + n \<and> s = (h + i') mod sz \<and> table ! s = HASH_DELETED)"
proof (induction n arbitrary: i d)
  case (Suc n)
  let ?d = "if table ! ((h + i) mod sz) = HASH_DELETED then Some ((h + i) mod sz) else d"
  from Suc.IH [of "Suc i" ?d] Suc.prems consider "?d = Some s"
    | i' where "Suc i \<le> i'" "i' < Suc i + n" "s = (h + i') mod sz" "table ! s = HASH_DELETED" by auto
  then show ?case
  proof cases
    case 1
    show ?thesis
    proof (cases "table ! ((h + i) mod sz) = HASH_DELETED")
      case True
      with 1 have "s = (h + i) mod sz" by simp
      with True show ?thesis by (intro disjI2 exI [of _ i]) simp
    qed (use 1 in simp)
  next
    case 2
    then show ?thesis by (intro disjI2 exI [of _ i']) simp
  qed
qed simp

definition stop_here :: "('k \<Rightarrow> 'e \<Rightarrow> bool) \<Rightarrow> 'k \<Rightarrow> 'e slot \<Rightarrow> bool" where
  "stop_here equal key s = (case s of HASH_EMPTY \<Rightarrow> True | HASH_DELETED \<Rightarrow> False | Entry e \<Rightarrow> equal key e)"

lemma probe_loop_Some:
  assumes "0 < sz" "j < i + fuel" "i \<le> j" "stop_here equal key (table ! ((h + j) mod sz))"
    "\<forall>i' < j. i \<le> i' \<longrightarrow> \<not> stop_here equal key (table ! ((h + i') mod sz))"
  shows "\<exists>c'. probe_loop equal table sz key ins ((h + i) mod sz) d c fuel =
    Some (if table ! ((h + j) mod sz) = HASH_EMPTY
          then ProbeEmpty ((h + j) mod sz) (if ins then last_deleted table h sz i (j - i) d else d)
          else ProbeFound ((h + j) mod sz), c')"
  using assms(2-5)
proof (induction fuel arbitrary: i d c)
  case (Suc fuel)
  show ?case
  proof (cases "i = j")
    case True
    then show ?thesis using Suc.prems(3) by (auto simp: stop_here_def split: slot.splits)
  next
    case False
    define s where "s = table ! ((h + i) mod sz)"
    have ns: "\<not> stop_here equal key s" using Suc.prems False by (auto simp: s_def)
    have ji: "j - i = Suc (j - Suc i)" using False Suc.prems(2) by simp
    have IH: "\<exists>c'. probe_loop equal table sz key ins ((h + Suc i) mod sz) d' c'' fuel =
      Some (if table ! ((h + j) mod sz) = HASH_EMPTY
          then ProbeEmpty ((h + j) mod sz) (if ins then last_deleted table h sz (Suc i) (j - Suc i) d' else d')
          else ProbeFound ((h + j) mod sz), c')" for d' c''
      using Suc.prems False by (intro Suc.IH) auto
    show ?thesis
    proof (cases s)
      case HASH_EMPTY
      with ns show ?thesis by (simp add: stop_here_def)
    next
      case HASH_DELETED
      with IH [of "if ins then Some ((h + i) mod sz) else d" "c + 1"] show ?thesis
        using next_slot_mod [OF assms(1), of h i] by (auto simp: s_def ji)
    next
      case (Entry e)
      with ns have "\<not> equal key e" by (simp add: stop_here_def)
      with Entry IH [of d "c + 1"] show ?thesis
        using next_slot_mod [OF assms(1), of h i] by (auto simp: s_def ji)
    qed
  qed
qed simp

subsection \<open>Counting slots\<close>

definition slots :: "('e slot \<Rightarrow> bool) \<Rightarrow> 'e slot list \<Rightarrow> nat" where
  "slots P table = length (filter P table)"

lemma slots_update:
  "i < length table \<Longrightarrow> slots P (table[i := x]) + of_bool (P (table ! i)) = slots P table + of_bool (P x)"
proof (induction table arbitrary: i)
  case (Cons s table)
  then show ?case by (cases i) (auto simp: slots_def)
qed simp

lemma slots_positive: "i < length table \<Longrightarrow> P (table ! i) \<Longrightarrow> 0 < slots P table"
  unfolding slots_def length_greater_0_conv by (metis filter_empty_conv nth_mem)

lemma slots_replicate [simp]: "slots P (replicate n x) = (if P x then n else 0)"
  by (simp add: slots_def)

lemma slots_Cons: "slots P (s # table) = of_bool (P s) + slots P table"
  by (simp add: slots_def)

lemma slots_lt_exists: "slots P table < length table \<Longrightarrow> \<exists>i < length table. \<not> P (table ! i)"
  by (metis filter_True in_set_conv_nth slots_def less_irrefl)

lemma slots_used_split:
  "slots (\<lambda>s. s \<noteq> HASH_EMPTY) table = slots (\<lambda>s. s = HASH_DELETED) table + slots (\<lambda>s. slot_entry s \<noteq> None) table"
proof (induction table)
  case (Cons s table)
  then show ?case by (cases s) (auto simp: slots_Cons)
qed (simp add: slots_def)

subsection \<open>The invariant\<close>

definition ht_elems :: "'e hashtab \<Rightarrow> 'e set" where
  "ht_elems ht = {e. Entry e \<in> set (ht_table ht)}"

definition keys_apart :: "('e \<Rightarrow> 'k) \<Rightarrow> 'e slot list \<Rightarrow> bool" where
  "keys_apart keyf table \<longleftrightarrow>
     (\<forall>i < length table. \<forall>j < length table. \<forall>e e'. i \<noteq> j \<longrightarrow> table ! i = Entry e \<longrightarrow> table ! j = Entry e'
        \<longrightarrow> keyf e \<noteq> keyf e')"

text \<open>The slot \<open>s\<close> is reached by the probes of the hash value \<open>h\<close> over slots in use.\<close>

definition reaches :: "'e slot list \<Rightarrow> nat \<Rightarrow> nat \<Rightarrow> nat \<Rightarrow> bool" where
  "reaches table sz h s \<longleftrightarrow>
     (\<exists>j < sz. s = (h + j) mod sz \<and> (\<forall>i < j. table ! ((h + i) mod sz) \<noteq> HASH_EMPTY))"

definition ht_ok :: "('k \<Rightarrow> nat) \<Rightarrow> ('e \<Rightarrow> 'k) \<Rightarrow> 'e hashtab \<Rightarrow> bool" where
  "ht_ok hashf keyf ht \<longleftrightarrow>
     (\<exists>n. ht_size ht = 2 ^ n) \<and> 4 \<le> ht_size ht \<and> length (ht_table ht) = ht_size ht
     \<and> ht_mask ht = ht_size ht - 1
     \<and> ht_nelements ht = slots (\<lambda>s. s \<noteq> HASH_EMPTY) (ht_table ht)
     \<and> ht_ndeleted ht = slots (\<lambda>s. s = HASH_DELETED) (ht_table ht)
     \<and> ht_nelements ht < ht_size ht
     \<and> (\<forall>s < ht_size ht. \<forall>e. ht_table ht ! s = Entry e \<longrightarrow>
          reaches (ht_table ht) (ht_size ht) (hashf (keyf e)) s)
     \<and> keys_apart keyf (ht_table ht)"

lemma ht_okD:
  assumes "ht_ok hashf keyf ht"
  shows "4 \<le> ht_size ht" "length (ht_table ht) = ht_size ht"
    "hashf k AND ht_mask ht = hashf k mod ht_size ht"
    "ht_nelements ht = slots (\<lambda>s. s \<noteq> HASH_EMPTY) (ht_table ht)"
    "ht_ndeleted ht = slots (\<lambda>s. s = HASH_DELETED) (ht_table ht)"
    "ht_nelements ht < ht_size ht" "keys_apart keyf (ht_table ht)"
    "s < ht_size ht \<Longrightarrow> ht_table ht ! s = Entry e \<Longrightarrow> reaches (ht_table ht) (ht_size ht) (hashf (keyf e)) s"
  using assms mask_mod unfolding ht_ok_def by metis+

lemma elems_nth: "e \<in> ht_elems ht \<longleftrightarrow> (\<exists>s < length (ht_table ht). ht_table ht ! s = Entry e)"
  by (auto simp: ht_elems_def in_set_conv_nth)

lemma reaches_mono:
  assumes "reaches table sz h s" "\<And>i. i < sz \<Longrightarrow> table ! i \<noteq> HASH_EMPTY \<Longrightarrow> table' ! i \<noteq> HASH_EMPTY" "0 < sz"
  shows "reaches table' sz h s"
  using assms unfolding reaches_def by (metis mod_less_divisor)

lemma reaches_bound: "0 < sz \<Longrightarrow> reaches table sz h s \<Longrightarrow> s < sz"
  by (auto simp: reaches_def)

lemma exists_empty:
  assumes "slots (\<lambda>s. s \<noteq> HASH_EMPTY) table < length table" "length table = sz" "0 < sz"
  obtains j where "j < sz" "table ! ((h + j) mod sz) = HASH_EMPTY"
    "\<forall>i < j. table ! ((h + i) mod sz) \<noteq> HASH_EMPTY"
proof -
  obtain s where s: "s < sz" "table ! s = HASH_EMPTY"
    using slots_lt_exists [OF assms(1)] assms(2) by auto
  obtain j where "j < sz" "s = (h + j) mod sz" using probe_covers [OF s(1)] by blast
  then have ex: "\<exists>j. j < sz \<and> table ! ((h + j) mod sz) = HASH_EMPTY" using s by blast
  define m where "m = (LEAST j. j < sz \<and> table ! ((h + j) mod sz) = HASH_EMPTY)"
  have "m < sz \<and> table ! ((h + m) mod sz) = HASH_EMPTY" unfolding m_def using ex by (rule LeastI_ex)
  moreover have "table ! ((h + i) mod sz) \<noteq> HASH_EMPTY" if "i < m" for i
    using not_less_Least [of i "\<lambda>j. j < sz \<and> table ! ((h + j) mod sz) = HASH_EMPTY"] that calculation
    unfolding m_def by auto
  ultimately show ?thesis using that by blast
qed

lemma entries_update:
  assumes "s < length table"
  shows "Entry x \<in> set (table[s := v]) \<longleftrightarrow> v = Entry x \<or> (\<exists>i < length table. i \<noteq> s \<and> table ! i = Entry x)"
    (is "?L \<longleftrightarrow> ?R")
proof
  assume ?L
  then obtain i where "i < length table" "table[s := v] ! i = Entry x" by (auto simp: in_set_conv_nth)
  then show ?R using assms by (cases "i = s") auto
next
  assume ?R
  then show ?L
  proof
    assume "v = Entry x"
    with assms show ?L by (metis set_update_memI)
  next
    assume "\<exists>i < length table. i \<noteq> s \<and> table ! i = Entry x"
    then obtain i where "i < length table" "table[s := v] ! i = Entry x" by auto
    then show ?L by (metis length_list_update nth_mem)
  qed
qed

text \<open>Writing an element with a new key into a slot its probes reach.\<close>

lemma ht_ok_place:
  assumes ok: "ht_ok hashf keyf ht" and r: "reaches (ht_table ht) (ht_size ht) (hashf (keyf e)) s"
    and ne: "\<And>e'. ht_table ht ! s \<noteq> Entry e'" and new: "\<forall>e' \<in> ht_elems ht. keyf e' \<noteq> keyf e"
    and room: "ht_table ht ! s = HASH_EMPTY \<Longrightarrow> ht_nelements ht + 1 < ht_size ht"
  defines "ht' \<equiv> ht\<lparr>ht_table := (ht_table ht)[s := Entry e],
     ht_nelements := (if ht_table ht ! s = HASH_EMPTY then ht_nelements ht + 1 else ht_nelements ht),
     ht_ndeleted := (if ht_table ht ! s = HASH_EMPTY then ht_ndeleted ht else ht_ndeleted ht - 1)\<rparr>"
  shows "ht_ok hashf keyf ht'" "ht_elems ht' = Set.insert e (ht_elems ht)"
proof -
  note d = ht_okD [OF ok]
  have sz: "0 < ht_size ht" using d(1) by simp
  have s: "s < ht_size ht" using reaches_bound [OF sz r] .
  have len: "s < length (ht_table ht)" using s d(2) by simp
  have up: "slots P ((ht_table ht)[s := Entry e]) + of_bool (P (ht_table ht ! s)) = slots P (ht_table ht) + of_bool (P (Entry e))" for P
    by (rule slots_update [OF len])
  have kind: "ht_table ht ! s = HASH_EMPTY \<or> ht_table ht ! s = HASH_DELETED" using ne by (cases "ht_table ht ! s") auto
  have used: "i < ht_size ht \<Longrightarrow> ht_table ht ! i \<noteq> HASH_EMPTY \<Longrightarrow> (ht_table ht)[s := Entry e] ! i \<noteq> HASH_EMPTY" for i
    using d(2) by (cases "i = s") auto
  have chain: "reaches ((ht_table ht)[s := Entry e]) (ht_size ht) (hashf (keyf e')) s'"
    if "s' < ht_size ht" "(ht_table ht)[s := Entry e] ! s' = Entry e'" for s' e'
  proof (cases "s' = s")
    case True
    with that len have "e' = e" by simp
    with True r reaches_mono [OF _ used sz] show ?thesis by blast
  next
    case False
    with that have "ht_table ht ! s' = Entry e'" by simp
    from reaches_mono [OF d(8) [OF that(1) this] used sz] show ?thesis .
  qed
  have apart: "keys_apart keyf ((ht_table ht)[s := Entry e])"
    unfolding keys_apart_def
  proof (intro allI impI)
    fix i j x y
    assume i: "i < length ((ht_table ht)[s := Entry e])" and j: "j < length ((ht_table ht)[s := Entry e])"
      and ij: "i \<noteq> j" and x: "(ht_table ht)[s := Entry e] ! i = Entry x" and y: "(ht_table ht)[s := Entry e] ! j = Entry y"
    have el: "ht_table ht ! a = Entry z \<Longrightarrow> a < length (ht_table ht) \<Longrightarrow> keyf z \<noteq> keyf e" for a z
      using new elems_nth [of z ht] by blast
    consider "i = s" "j \<noteq> s" | "j = s" "i \<noteq> s" | "i \<noteq> s" "j \<noteq> s" using ij by blast
    then show "keyf x \<noteq> keyf y"
    proof cases
      case 1
      with x y len j el [of j y] show ?thesis by auto
    next
      case 2
      with x y len i el [of i x] show ?thesis by auto
    next
      case 3
      with x y i j ij d(7) show ?thesis unfolding keys_apart_def by auto
    qed
  qed
  have cnt: "ht_nelements ht' = slots (\<lambda>s. s \<noteq> HASH_EMPTY) (ht_table ht')"
    "ht_ndeleted ht' = slots (\<lambda>s. s = HASH_DELETED) (ht_table ht')" "ht_nelements ht' < ht_size ht"
    using kind up [of "\<lambda>s. s \<noteq> HASH_EMPTY"] up [of "\<lambda>s. s = HASH_DELETED"] d(4,5,6) room by (auto simp: ht'_def)
  show "ht_ok hashf keyf ht'"
    using ok chain apart cnt unfolding ht_ok_def by (simp add: ht'_def)
  show "ht_elems ht' = Set.insert e (ht_elems ht)"
  proof (rule set_eqI)
    fix x
    have "(\<exists>i < length (ht_table ht). i \<noteq> s \<and> ht_table ht ! i = Entry x) \<longleftrightarrow> x \<in> ht_elems ht"
      unfolding elems_nth using ne by metis
    moreover have "x \<in> ht_elems ht' \<longleftrightarrow> Entry x \<in> set ((ht_table ht)[s := Entry e])"
      by (simp add: ht_elems_def ht'_def)
    ultimately show "x \<in> ht_elems ht' \<longleftrightarrow> x \<in> Set.insert e (ht_elems ht)"
      using entries_update [OF len, of x "Entry e"] by auto
  qed
qed

lemma ht_ok_fresh:
  assumes "sz = hash_size n"
  shows "ht_ok hashf keyf (ht\<lparr>ht_size := sz, ht_mask := sz - 1, ht_table := replicate sz HASH_EMPTY,
                   ht_nelements := 0, ht_ndeleted := 0\<rparr>)"
  using hash_size_facts [of n] unfolding ht_ok_def assms by (simp add: keys_apart_def)

lemma hash_create_ok: "ht_ok hashf keyf (hash_create n)" "ht_elems (hash_create n) = {}"
  using hash_size_facts [of n]
  by (simp_all add: hash_create_def ht_ok_def keys_apart_def ht_elems_def)

lemma hash_find_empty_correct:
  assumes ok: "ht_ok hashf keyf ht"
  shows "\<exists>s. hash_find_empty hashf ht k = Some s \<and> reaches (ht_table ht) (ht_size ht) (hashf k) s
    \<and> ht_table ht ! s = HASH_EMPTY"
proof -
  note d = ht_okD [OF ok]
  have sz: "0 < ht_size ht" using d(1) by simp
  obtain j where j: "j < ht_size ht" "ht_table ht ! ((hashf k + j) mod ht_size ht) = HASH_EMPTY"
    "\<forall>i < j. ht_table ht ! ((hashf k + i) mod ht_size ht) \<noteq> HASH_EMPTY"
    by (rule exists_empty [of "ht_table ht" "ht_size ht" "hashf k"]) (use d(2,4,6) sz in simp_all)
  have "find_empty_loop (ht_table ht) (ht_size ht) ((hashf k + 0) mod ht_size ht) (ht_size ht)
      = Some ((hashf k + j) mod ht_size ht)"
    by (rule find_empty_loop_Some) (use sz j in simp_all)
  then show ?thesis using j d(3) by (auto simp: hash_find_empty_def reaches_def)
qed

lemma keys_apart_Cons:
  "keys_apart keyf (s # ss) \<Longrightarrow> keys_apart keyf ss"
  "keys_apart keyf (Entry e # ss) \<Longrightarrow> Entry e' \<in> set ss \<Longrightarrow> keyf e' \<noteq> keyf e"
proof -
  show "keys_apart keyf (s # ss) \<Longrightarrow> keys_apart keyf ss"
    unfolding keys_apart_def by (metis Suc_less_eq length_Cons nth_Cons_Suc old.nat.inject)
  assume a: "keys_apart keyf (Entry e # ss)" and "Entry e' \<in> set ss"
  then obtain j where j: "j < length ss" "ss ! j = Entry e'" by (auto simp: in_set_conv_nth)
  then have "Suc j < length (Entry e # ss)" "(Entry e # ss) ! Suc j = Entry e'" by simp_all
  with a show "keyf e' \<noteq> keyf e" unfolding keys_apart_def by fastforce
qed

lemma expand_loop_correct:
  assumes "ht_ok hashf keyf ht" "ht_ndeleted ht = 0" "keys_apart keyf old"
    "\<forall>e. Entry e \<in> set old \<longrightarrow> (\<forall>e' \<in> ht_elems ht. keyf e' \<noteq> keyf e)"
    "ht_nelements ht + slots (\<lambda>s. slot_entry s \<noteq> None) old < ht_size ht"
  shows "\<exists>ht'. expand_loop hashf keyf old ht = Some ht' \<and> ht_ok hashf keyf ht' \<and> ht_ndeleted ht' = 0
    \<and> ht_size ht' = ht_size ht \<and> ht_nelements ht' = ht_nelements ht + slots (\<lambda>s. slot_entry s \<noteq> None) old
    \<and> ht_elems ht' = ht_elems ht \<union> {e. Entry e \<in> set old}"
  using assms
proof (induction hashf keyf old ht rule: expand_loop.induct)
  case (1 hashf keyf ht)
  then show ?case by (simp add: slots_def)
next
  case (2 hashf keyf e old ht)
  obtain s where s: "hash_find_empty hashf ht (keyf e) = Some s"
    "reaches (ht_table ht) (ht_size ht) (hashf (keyf e)) s" "ht_table ht ! s = HASH_EMPTY"
    using hash_find_empty_correct [OF 2(2)] by blast
  define ht1 where "ht1 = ht\<lparr>ht_table := (ht_table ht)[s := Entry e], ht_nelements := ht_nelements ht + 1\<rparr>"
  have new: "\<forall>e' \<in> ht_elems ht. keyf e' \<noteq> keyf e" using 2(5) by simp
  have room: "ht_nelements ht + 1 < ht_size ht" if "ht_table ht ! s = HASH_EMPTY"
    using 2(6) by (simp add: slots_Cons)
  have ht1: "ht_ok hashf keyf ht1" "ht_elems ht1 = Set.insert e (ht_elems ht)"
    using ht_ok_place [OF 2(2) s(2) _ new room] s(3) by (simp_all add: ht1_def)
  have old: "Entry e' \<in> set old \<Longrightarrow> keyf e' \<noteq> keyf e" for e' using keys_apart_Cons(2) [OF 2(4)] .
  have "\<exists>ht'. expand_loop hashf keyf old ht1 = Some ht' \<and> ht_ok hashf keyf ht' \<and> ht_ndeleted ht' = 0
    \<and> ht_size ht' = ht_size ht1 \<and> ht_nelements ht' = ht_nelements ht1 + slots (\<lambda>s. slot_entry s \<noteq> None) old
    \<and> ht_elems ht' = ht_elems ht1 \<union> {e. Entry e \<in> set old}"
  proof (rule 2(1) [OF s(1), folded ht1_def])
    show "\<forall>e'. Entry e' \<in> set old \<longrightarrow> (\<forall>x \<in> ht_elems ht1. keyf x \<noteq> keyf e')"
      using old 2(5) ht1(2) by fastforce
    show "ht_nelements ht1 + slots (\<lambda>s. slot_entry s \<noteq> None) old < ht_size ht1"
      using 2(6) by (simp add: ht1_def slots_Cons)
  qed (use ht1 2(3) keys_apart_Cons(1) [OF 2(4)] in \<open>simp_all add: ht1_def\<close>)
  then show ?case using s(1) ht1(2) by (auto simp: ht1_def [symmetric] slots_Cons) (auto simp: ht1_def)
next
  case "3_1"
  then show ?case using keys_apart_Cons(1) [OF "3_1"(4)] by (simp add: slots_Cons)
next
  case "3_2"
  then show ?case using keys_apart_Cons(1) [OF "3_2"(4)] by (simp add: slots_Cons)
qed

lemma hash_expand_correct:
  assumes ok: "ht_ok hashf keyf ht"
  shows "\<exists>ht'. hash_expand hashf keyf ht = Some ht' \<and> ht_ok hashf keyf ht' \<and> ht_elems ht' = ht_elems ht
    \<and> ht_nelements ht' * 4 < ht_size ht' * 3 \<and> ht_nelements ht' + 1 < ht_size ht'"
proof -
  note d = ht_okD [OF ok]
  define live where "live = slots (\<lambda>s. slot_entry s \<noteq> None) (ht_table ht)"
  have live: "ht_nelements ht - ht_ndeleted ht = live"
    using slots_used_split [of "ht_table ht"] d(4,5) by (simp add: live_def)
  define sz where "sz = hash_size (live * 2)"
  have sz: "live * 2 \<le> sz" "4 \<le> sz" using hash_size_facts(2,3) [of "live * 2"] by (simp_all add: sz_def)
  define ht1 where "ht1 = ht\<lparr>ht_size := sz, ht_mask := sz - 1, ht_table := replicate sz HASH_EMPTY,
                   ht_nelements := 0, ht_ndeleted := 0\<rparr>"
  have ht1: "ht_ok hashf keyf ht1" "ht_elems ht1 = {}"
    using ht_ok_fresh [OF sz_def] by (simp_all add: ht1_def ht_elems_def)
  obtain ht2 where ht2: "expand_loop hashf keyf (ht_table ht) ht1 = Some ht2" "ht_ok hashf keyf ht2"
    "ht_size ht2 = sz" "ht_nelements ht2 = live" "ht_elems ht2 = ht_elems ht"
    using expand_loop_correct [OF ht1(1) _ d(7)] ht1(2) sz by (auto simp: ht1_def live_def ht_elems_def [of ht])
  have "hash_expand hashf keyf ht = Some (ht2\<lparr>ht_expansions := ht_expansions ht2 + 1\<rparr>)"
    unfolding hash_expand_def Let_def live sz_def [symmetric] ht1_def [symmetric] ht2(1) by simp
  moreover have "ht_ok hashf keyf (ht2\<lparr>ht_expansions := ht_expansions ht2 + 1\<rparr>)"
    using ht2(2) by (simp add: ht_ok_def)
  ultimately show ?thesis using ht2 sz by (simp add: ht_elems_def)
qed

subsection \<open>The operations\<close>

locale hash_callbacks =
  fixes hashf :: "'k \<Rightarrow> nat" and keyf :: "'e \<Rightarrow> 'k" and equal :: "'k \<Rightarrow> 'e \<Rightarrow> bool"
  assumes equal_key: "equal k e \<longleftrightarrow> keyf e = k"
begin

lemma probe_outcome:
  assumes ok: "ht_ok hashf keyf ht"
  shows "\<exists>r c'. probe_loop equal (ht_table ht) (ht_size ht) k ins (hashf k AND ht_mask ht) None c (ht_size ht)
      = Some (r, c') \<and>
    (case r of
       ProbeFound s \<Rightarrow> s < ht_size ht \<and> (\<exists>e. ht_table ht ! s = Entry e \<and> keyf e = k)
     | ProbeEmpty s d \<Rightarrow> (\<forall>e \<in> ht_elems ht. keyf e \<noteq> k) \<and> ht_table ht ! s = HASH_EMPTY
         \<and> reaches (ht_table ht) (ht_size ht) (hashf k) s
         \<and> (\<forall>x. d = Some x \<longrightarrow> ins \<and> ht_table ht ! x = HASH_DELETED
               \<and> reaches (ht_table ht) (ht_size ht) (hashf k) x))"
proof -
  let ?t = "ht_table ht" and ?n = "ht_size ht" and ?h = "hashf k"
  define st where "st = (\<lambda>j. stop_here equal k (?t ! ((?h + j) mod ?n)))"
  note d = ht_okD [OF ok]
  have n: "0 < ?n" using d(1) by simp
  obtain je where je: "je < ?n" "?t ! ((?h + je) mod ?n) = HASH_EMPTY"
    "\<forall>i < je. ?t ! ((?h + i) mod ?n) \<noteq> HASH_EMPTY"
    by (rule exists_empty [of ?t ?n ?h]) (use d(2,4,6) n in simp_all)
  define j where "j = (LEAST j. st j)"
  have stje: "st je" using je(2) by (simp add: st_def stop_here_def)
  have stj: "st j" unfolding j_def using stje by (rule LeastI)
  have jle: "j \<le> je" unfolding j_def using stje by (rule Least_le)
  have before: "\<not> st i" if "i < j" for i using that not_less_Least unfolding j_def by blast
  have used: "\<forall>i < j. ?t ! ((?h + i) mod ?n) \<noteq> HASH_EMPTY"
  proof (intro allI impI notI)
    fix i assume "i < j" "?t ! ((?h + i) mod ?n) = HASH_EMPTY"
    with before [of i] show False by (simp add: st_def stop_here_def)
  qed
  have jn: "j < ?n" using jle je(1) by simp
  define s where "s = (?h + j) mod ?n"
  have reach: "reaches ?t ?n ?h s" using jn used by (auto simp: reaches_def s_def)
  have sn: "s < ?n" using n by (simp add: s_def)
  have "\<exists>c'. probe_loop equal ?t ?n k ins ((?h + 0) mod ?n) None c ?n =
    Some (if ?t ! ((?h + j) mod ?n) = HASH_EMPTY
          then ProbeEmpty ((?h + j) mod ?n) (if ins then last_deleted ?t ?h ?n 0 (j - 0) None else None)
          else ProbeFound ((?h + j) mod ?n), c')"
    by (rule probe_loop_Some) (use n jn stj before in \<open>auto simp: st_def\<close>)
  then obtain c' where run: "probe_loop equal ?t ?n k ins (?h AND ht_mask ht) None c ?n =
    Some (if ?t ! s = HASH_EMPTY
          then ProbeEmpty s (if ins then last_deleted ?t ?h ?n 0 j None else None) else ProbeFound s, c')"
    using d(3) by (auto simp: s_def)
  show ?thesis
  proof (cases "?t ! s = HASH_EMPTY")
    case False
    then obtain e where "?t ! s = Entry e" "keyf e = k"
      using stj equal_key by (auto simp: st_def s_def stop_here_def split: slot.splits)
    with run False sn show ?thesis by auto
  next
    case True
    have absent: "keyf e \<noteq> k" if e: "e \<in> ht_elems ht" for e
    proof
      assume k: "keyf e = k"
      obtain x where x: "x < ?n" "?t ! x = Entry e" using e d(2) by (auto simp: elems_nth)
      from d(8) [OF this] k obtain i where i: "i < ?n" "x = (?h + i) mod ?n"
        "\<forall>i' < i. ?t ! ((?h + i') mod ?n) \<noteq> HASH_EMPTY" by (auto simp: reaches_def)
      from i(3) True have "\<not> j < i" by (auto simp: s_def)
      moreover have "i \<noteq> j" using True x(2) i(2) by (auto simp: s_def)
      ultimately have "i < j" by simp
      with before [of i] x(2) i(2) k equal_key show False by (simp add: st_def stop_here_def)
    qed
    have "ins \<and> ?t ! x = HASH_DELETED \<and> reaches ?t ?n ?h x"
      if "(if ins then last_deleted ?t ?h ?n 0 j None else None) = Some x" for x
    proof -
      have i: "ins" "last_deleted ?t ?h ?n 0 j None = Some x" using that by (simp_all split: if_splits)
      from last_deleted_Some [OF this(2)] obtain i' where "i' < j" "x = (?h + i') mod ?n" "?t ! x = HASH_DELETED" by auto
      with used jn i show ?thesis by (auto simp: reaches_def intro!: exI [of _ i'])
    qed
    with run True absent reach show ?thesis by auto
  qed
qed

lemma hash_find_correct:
  assumes ok: "ht_ok hashf keyf ht"
  shows "\<exists>r ht'. hash_find_slot hashf keyf equal ht k False = Some (r, ht') \<and> ht_ok hashf keyf ht'
    \<and> ht_table ht' = ht_table ht \<and> ht_nelements ht' = ht_nelements ht \<and> ht_ndeleted ht' = ht_ndeleted ht
    \<and> ht_size ht' = ht_size ht \<and>
    (case r of None \<Rightarrow> \<forall>e \<in> ht_elems ht. keyf e \<noteq> k
     | Some s \<Rightarrow> s < ht_size ht \<and> (\<exists>e. ht_table ht ! s = Entry e \<and> keyf e = k))"
proof -
  define ht1 where "ht1 = ht\<lparr>ht_searches := ht_searches ht + 1\<rparr>"
  have ok1: "ht_ok hashf keyf ht1" using ok by (simp add: ht_ok_def ht1_def)
  have el: "ht_elems ht1 = ht_elems ht" by (simp add: ht1_def ht_elems_def)
  have same: "ht_table ht1 = ht_table ht" "ht_size ht1 = ht_size ht" "ht_nelements ht1 = ht_nelements ht"
    "ht_ndeleted ht1 = ht_ndeleted ht" by (simp_all add: ht1_def)
  obtain r c' where r: "probe_loop equal (ht_table ht1) (ht_size ht1) k False (hashf k AND ht_mask ht1) None
      (ht_collisions ht1) (ht_size ht1) = Some (r, c')"
    "case r of ProbeFound s \<Rightarrow> s < ht_size ht1 \<and> (\<exists>e. ht_table ht1 ! s = Entry e \<and> keyf e = k)
       | ProbeEmpty s d \<Rightarrow> (\<forall>e \<in> ht_elems ht1. keyf e \<noteq> k) \<and> ht_table ht1 ! s = HASH_EMPTY
         \<and> reaches (ht_table ht1) (ht_size ht1) (hashf k) s
         \<and> (\<forall>x. d = Some x \<longrightarrow> False \<and> ht_table ht1 ! x = HASH_DELETED
               \<and> reaches (ht_table ht1) (ht_size ht1) (hashf k) x)"
    using probe_outcome [OF ok1, of k False "ht_collisions ht1"] by blast
  define ht3 where "ht3 = ht1\<lparr>ht_collisions := c'\<rparr>"
  have ok2: "ht_ok hashf keyf ht3" using ok1 by (simp add: ht_ok_def ht3_def)
  have start: "(if False \<and> ht_nelements ht * 4 \<ge> ht_size ht * 3 then hash_expand hashf keyf ht else Some ht) = Some ht"
    by simp
  note find = hash_find_slot_def start option.case Let_def ht1_def [symmetric] r(1) prod.case ht3_def [symmetric]
  show ?thesis
  proof (cases r)
    case (ProbeFound s)
    then have "hash_find_slot hashf keyf equal ht k False = Some (Some s, ht3)" unfolding find by simp
    with ProbeFound r(2) ok2 same show ?thesis by (simp add: ht3_def)
  next
    case (ProbeEmpty s d)
    then have "hash_find_slot hashf keyf equal ht k False = Some (None, ht3)" unfolding find by simp
    with ProbeEmpty r(2) ok2 same el show ?thesis by (simp add: ht3_def)
  qed
qed

lemma unique_key:
  assumes "ht_ok hashf keyf ht" "e \<in> ht_elems ht" "e' \<in> ht_elems ht" "keyf e = keyf e'"
  shows "e = e'"
proof -
  obtain i j where "i < length (ht_table ht)" "ht_table ht ! i = Entry e"
    "j < length (ht_table ht)" "ht_table ht ! j = Entry e'" using assms(2,3) by (auto simp: elems_nth)
  with assms(4) ht_okD(7) [OF assms(1)] show ?thesis unfolding keys_apart_def by (metis slot.inject)
qed

lemma hash_lookup_correct:
  assumes ok: "ht_ok hashf keyf ht"
  shows "\<exists>r ht'. hash_lookup hashf keyf equal ht k = Some (r, ht') \<and> ht_ok hashf keyf ht'
    \<and> ht_elems ht' = ht_elems ht \<and> (\<forall>e. r = Some e \<longleftrightarrow> e \<in> ht_elems ht \<and> keyf e = k)"
proof -
  obtain r ht' where f: "hash_find_slot hashf keyf equal ht k False = Some (r, ht')" "ht_ok hashf keyf ht'"
    "ht_table ht' = ht_table ht"
    "case r of None \<Rightarrow> \<forall>e \<in> ht_elems ht. keyf e \<noteq> k
     | Some s \<Rightarrow> s < ht_size ht \<and> (\<exists>e. ht_table ht ! s = Entry e \<and> keyf e = k)"
    using hash_find_correct [OF ok, of k] by blast
  have el: "ht_elems ht' = ht_elems ht" using f(3) by (simp add: ht_elems_def)
  show ?thesis
  proof (cases r)
    case None
    with f el show ?thesis by (auto simp: hash_lookup_def)
  next
    case (Some s)
    with f(4) obtain e where e: "s < ht_size ht" "ht_table ht ! s = Entry e" "keyf e = k" by auto
    then have "e \<in> ht_elems ht" using ht_okD(2) [OF ok] by (auto simp: elems_nth)
    with unique_key [OF ok] e(3) have "e' \<in> ht_elems ht \<and> keyf e' = k \<longleftrightarrow> e = e'" for e' by metis
    moreover have "hash_lookup hashf keyf equal ht k = Some (Some e, ht')"
      using f(1,3) e(2) Some by (simp add: hash_lookup_def)
    ultimately show ?thesis using f(2) el by auto
  qed
qed

lemma hash_insert_correct:
  assumes ok: "ht_ok hashf keyf ht" and key: "keyf e = k"
  shows "\<exists>r ht'. hash_insert hashf keyf equal ht k e = Some (r, ht') \<and> ht_ok hashf keyf ht'
    \<and> r = (\<forall>e' \<in> ht_elems ht. keyf e' \<noteq> k)
    \<and> ht_elems ht' = (if r then Set.insert e (ht_elems ht) else ht_elems ht)"
proof -
  obtain ht1 where ht1: "(if True \<and> ht_nelements ht * 4 \<ge> ht_size ht * 3 then hash_expand hashf keyf ht else Some ht) = Some ht1"
    "ht_ok hashf keyf ht1" "ht_elems ht1 = ht_elems ht" "ht_nelements ht1 + 1 < ht_size ht1"
  proof (cases "ht_nelements ht * 4 \<ge> ht_size ht * 3")
    case True
    then show ?thesis using hash_expand_correct [OF ok] that by auto
  next
    case False
    then have "ht_nelements ht + 1 < ht_size ht" using ht_okD(1) [OF ok] by linarith
    with False show ?thesis using ok that by auto
  qed
  define ht2 where "ht2 = ht1\<lparr>ht_searches := ht_searches ht1 + 1\<rparr>"
  have ok2: "ht_ok hashf keyf ht2" using ht1(2) by (simp add: ht_ok_def ht2_def)
  have el2: "ht_elems ht2 = ht_elems ht" using ht1(3) by (simp add: ht2_def ht_elems_def)
  obtain r c' where r: "probe_loop equal (ht_table ht2) (ht_size ht2) k True (hashf k AND ht_mask ht2) None
      (ht_collisions ht2) (ht_size ht2) = Some (r, c')"
    "case r of ProbeFound s \<Rightarrow> s < ht_size ht2 \<and> (\<exists>e. ht_table ht2 ! s = Entry e \<and> keyf e = k)
       | ProbeEmpty s d \<Rightarrow> (\<forall>e \<in> ht_elems ht2. keyf e \<noteq> k) \<and> ht_table ht2 ! s = HASH_EMPTY
         \<and> reaches (ht_table ht2) (ht_size ht2) (hashf k) s
         \<and> (\<forall>x. d = Some x \<longrightarrow> True \<and> ht_table ht2 ! x = HASH_DELETED
               \<and> reaches (ht_table ht2) (ht_size ht2) (hashf k) x)"
    using probe_outcome [OF ok2, of k True "ht_collisions ht2"] by blast
  define ht3 where "ht3 = ht2\<lparr>ht_collisions := c'\<rparr>"
  have ok3: "ht_ok hashf keyf ht3" using ok2 by (simp add: ht_ok_def ht3_def)
  have el3: "ht_elems ht3 = ht_elems ht" using el2 by (simp add: ht3_def ht_elems_def)
  note find = hash_find_slot_def ht1(1) ht2_def [symmetric] r(1) ht3_def [symmetric]
  show ?thesis
  proof (cases r)
    case (ProbeFound s)
    with r(2) obtain e' where e': "s < ht_size ht3" "ht_table ht3 ! s = Entry e'" "keyf e' = k"
      by (auto simp: ht3_def)
    then have "e' \<in> ht_elems ht" using ht_okD(2) [OF ok3] el3 by (auto simp: elems_nth)
    moreover have "hash_insert hashf keyf equal ht k e = Some (False, ht3)"
      unfolding hash_insert_def find option.case prod.case Let_def ProbeFound using e'(2) by simp
    ultimately show ?thesis using ok3 el3 e'(3) by auto
  next
    case (ProbeEmpty s d)
    with r(2) el2 el3 have absent: "\<forall>e' \<in> ht_elems ht3. keyf e' \<noteq> keyf e" using key by simp
    show ?thesis
    proof (cases d)
      case None
      define ht4 where "ht4 = ht3\<lparr>ht_table := (ht_table ht3)[s := Entry e],
         ht_nelements := ht_nelements ht3 + 1\<rparr>"
      have s: "ht_table ht3 ! s = HASH_EMPTY" "reaches (ht_table ht3) (ht_size ht3) (hashf (keyf e)) s"
        using r(2) ProbeEmpty key by (simp_all add: ht3_def)
      have room: "ht_nelements ht3 + 1 < ht_size ht3" using ht1(4) by (simp add: ht3_def ht2_def)
      have "ht_ok hashf keyf ht4" "ht_elems ht4 = Set.insert e (ht_elems ht)"
        using ht_ok_place [OF ok3 s(2) _ absent room] s(1) el3 by (simp_all add: ht4_def)
      moreover have "hash_insert hashf keyf equal ht k e = Some (True, ht4)"
        unfolding hash_insert_def find option.case prod.case Let_def ProbeEmpty None using s(1) by (simp add: ht4_def)
      ultimately show ?thesis using absent el3 key by auto
    next
      case (Some x)
      define ht4 where "ht4 = ht3\<lparr>ht_table := (ht_table ht3)[x := Entry e],
         ht_ndeleted := ht_ndeleted ht3 - 1\<rparr>"
      have x: "ht_table ht3 ! x = HASH_DELETED" "reaches (ht_table ht3) (ht_size ht3) (hashf (keyf e)) x"
        using r(2) ProbeEmpty Some key by (simp_all add: ht3_def)
      have "x < length (ht_table ht3)"
        using reaches_bound [OF _ x(2)] ht_okD(1,2) [OF ok3] by simp
      moreover have "ht_ok hashf keyf ht4" "ht_elems ht4 = Set.insert e (ht_elems ht)"
        using ht_ok_place [OF ok3 x(2) _ absent] x(1) el3 by (simp_all add: ht4_def)
      moreover have "hash_insert hashf keyf equal ht k e = Some (True, ht4)"
        unfolding hash_insert_def find option.case prod.case Let_def ProbeEmpty Some
        using calculation(1) by (simp add: ht4_def)
      ultimately show ?thesis using absent el3 key by auto
    qed
  qed
qed

lemma hash_delete_correct:
  assumes ok: "ht_ok hashf keyf ht"
  shows "\<exists>r x ht'. hash_delete hashf keyf equal ht k = Some (r, x, ht') \<and> ht_ok hashf keyf ht'
    \<and> r = (\<exists>e \<in> ht_elems ht. keyf e = k) \<and> (\<forall>e. x = Some e \<longleftrightarrow> e \<in> ht_elems ht \<and> keyf e = k)
    \<and> ht_elems ht' = {e \<in> ht_elems ht. keyf e \<noteq> k}"
proof -
  obtain r ht1 where f: "hash_find_slot hashf keyf equal ht k False = Some (r, ht1)" "ht_ok hashf keyf ht1"
    "ht_table ht1 = ht_table ht"
    "case r of None \<Rightarrow> \<forall>e \<in> ht_elems ht. keyf e \<noteq> k
     | Some s \<Rightarrow> s < ht_size ht \<and> (\<exists>e. ht_table ht ! s = Entry e \<and> keyf e = k)"
    using hash_find_correct [OF ok, of k] by blast
  note d1 = ht_okD [OF f(2)]
  have el: "ht_elems ht1 = ht_elems ht" using f(3) by (simp add: ht_elems_def)
  show ?thesis
  proof (cases r)
    case None
    with f el show ?thesis by (auto simp: hash_delete_def hash_replace_def)
  next
    case (Some s)
    with f(4) obtain e where e: "s < ht_size ht" "ht_table ht ! s = Entry e" "keyf e = k" by auto
    have len: "s < length (ht_table ht1)" using e(1) ht_okD(2) [OF ok] f(3) by simp
    have s1: "ht_table ht1 ! s = Entry e" using e(2) f(3) by simp
    define ht2 where "ht2 = ht1\<lparr>ht_table := (ht_table ht1)[s := HASH_DELETED], ht_ndeleted := ht_ndeleted ht1 + 1\<rparr>"
    have run: "hash_delete hashf keyf equal ht k = Some (True, Some e, ht2)"
      using f(1) Some s1 by (simp add: hash_delete_def hash_replace_def ht2_def)
    have "e \<in> ht_elems ht" using e ht_okD(2) [OF ok] by (auto simp: elems_nth)
    with unique_key [OF ok] e(3) have uq: "e' \<in> ht_elems ht \<and> keyf e' = k \<longleftrightarrow> e' = e" for e' by metis
    have up: "slots P ((ht_table ht1)[s := HASH_DELETED]) + of_bool (P (ht_table ht1 ! s))
        = slots P (ht_table ht1) + of_bool (P HASH_DELETED)" for P by (rule slots_update [OF len])
    have keep: "i < ht_size ht1 \<Longrightarrow> ht_table ht1 ! i \<noteq> HASH_EMPTY \<Longrightarrow> (ht_table ht1)[s := HASH_DELETED] ! i \<noteq> HASH_EMPTY" for i
      using len by (cases "i = s") auto
    have old: "(ht_table ht1)[s := HASH_DELETED] ! i = Entry x \<Longrightarrow> i \<noteq> s \<and> ht_table ht1 ! i = Entry x" for i x
      using len by (cases "i = s") auto
    have "ht_ok hashf keyf ht2"
      unfolding ht_ok_def
    proof (intro conjI)
      show "\<exists>n. ht_size ht2 = 2 ^ n" "ht_mask ht2 = ht_size ht2 - 1"
        using f(2) by (simp_all add: ht_ok_def ht2_def)
      show "4 \<le> ht_size ht2" "length (ht_table ht2) = ht_size ht2" "ht_nelements ht2 < ht_size ht2"
        using d1 by (simp_all add: ht2_def)
      show "ht_nelements ht2 = slots (\<lambda>s. s \<noteq> HASH_EMPTY) (ht_table ht2)"
        using up [of "\<lambda>s. s \<noteq> HASH_EMPTY"] s1 d1(4) by (simp add: ht2_def)
      show "ht_ndeleted ht2 = slots (\<lambda>s. s = HASH_DELETED) (ht_table ht2)"
        using up [of "\<lambda>s. s = HASH_DELETED"] s1 d1(5) by (simp add: ht2_def)
      show "\<forall>i < ht_size ht2. \<forall>x. ht_table ht2 ! i = Entry x \<longrightarrow> reaches (ht_table ht2) (ht_size ht2) (hashf (keyf x)) i"
        using reaches_mono [OF d1(8) keep] old d1(1) by (fastforce simp: ht2_def)
      show "keys_apart keyf (ht_table ht2)"
        using d1(7) old unfolding keys_apart_def by (auto simp: ht2_def)
    qed
    moreover have "ht_elems ht2 = {e \<in> ht_elems ht. keyf e \<noteq> k}"
    proof (rule set_eqI)
      fix x
      have "x \<in> ht_elems ht2 \<longleftrightarrow> (\<exists>i < length (ht_table ht1). i \<noteq> s \<and> ht_table ht1 ! i = Entry x)"
        using entries_update [OF len, of x HASH_DELETED] by (simp add: ht_elems_def ht2_def)
      also have "\<dots> \<longleftrightarrow> x \<in> ht_elems ht1 \<and> x \<noteq> e"
        using d1(7) len s1 unfolding elems_nth keys_apart_def by (metis slot.inject)
      finally show "x \<in> ht_elems ht2 \<longleftrightarrow> x \<in> {e \<in> ht_elems ht. keyf e \<noteq> k}" using uq el by auto
    qed
    moreover have "(\<exists>e \<in> ht_elems ht. keyf e = k)" using uq by blast
    ultimately show ?thesis using run uq by auto
  qed
qed

end

lemma hash_count_card:
  assumes "ht_ok hashf keyf ht"
  shows "hash_count ht = card (ht_elems ht)" "hash_count ht = length (hash_free ht)"
proof -
  have "distinct (List.map_filter slot_entry ts) \<and> set (List.map_filter slot_entry ts) = {e. Entry e \<in> set ts}
      \<and> length (List.map_filter slot_entry ts) = slots (\<lambda>s. slot_entry s \<noteq> None) ts"
    if "keys_apart keyf ts" for ts
    using that
  proof (induction ts)
    case (Cons s ts)
    note IH = Cons.IH [OF keys_apart_Cons(1) [OF Cons.prems]]
    show ?case
    proof (cases s)
      case (Entry e)
      then have "Entry e \<notin> set ts" using keys_apart_Cons(2) [of keyf e ts e] Cons.prems by auto
      with IH Entry show ?thesis by (auto simp: map_filter_simps slots_Cons)
    qed (use IH in \<open>simp_all add: map_filter_simps slots_Cons\<close>)
  qed (simp add: map_filter_simps slots_def)
  from this [OF ht_okD(7) [OF assms]]
  have m: "distinct (hash_free ht)" "set (hash_free ht) = ht_elems ht"
    "length (hash_free ht) = slots (\<lambda>s. slot_entry s \<noteq> None) (ht_table ht)"
    by (simp_all add: hash_free_def ht_elems_def)
  have "hash_count ht = slots (\<lambda>s. slot_entry s \<noteq> None) (ht_table ht)"
    using slots_used_split [of "ht_table ht"] ht_okD(4,5) [OF assms] by (simp add: hash_count_def)
  with m distinct_card [OF m(1)] show "hash_count ht = card (ht_elems ht)" "hash_count ht = length (hash_free ht)"
    by simp_all
qed

subsection \<open>LOOKUP2\<close>

text \<open>The key is an array of signed \<^verbatim>\<open>char\<close>: each octet is sign-extended to 32 bits before it is
  shifted.\<close>

definition S0 :: "char \<Rightarrow> 32 word" where
  "S0 c = word_of_int (if byte c < 128 then int (byte c) else int (byte c) - 256)"

definition S1 :: "char \<Rightarrow> 32 word" where "S1 c = push_bit 8 (S0 c)"
definition S2 :: "char \<Rightarrow> 32 word" where "S2 c = push_bit 16 (S0 c)"
definition S3 :: "char \<Rightarrow> 32 word" where "S3 c = push_bit 24 (S0 c)"

definition MIX :: "32 word \<times> 32 word \<times> 32 word \<Rightarrow> 32 word \<times> 32 word \<times> 32 word" where
  "MIX abc = (case abc of (a, b, c) \<Rightarrow>
     let a = (a - b - c) XOR drop_bit 13 c in
     let b = (b - c - a) XOR push_bit 8 a in
     let c = (c - a - b) XOR drop_bit 13 b in
     let a = (a - b - c) XOR drop_bit 12 c in
     let b = (b - c - a) XOR push_bit 16 a in
     let c = (c - a - b) XOR drop_bit 5 b in
     let a = (a - b - c) XOR drop_bit 3 c in
     let b = (b - c - a) XOR push_bit 10 a in
     let c = (c - a - b) XOR drop_bit 15 b in
     (a, b, c))"

function lookup2_loop :: "32 word \<times> 32 word \<times> 32 word \<Rightarrow> string \<Rightarrow> (32 word \<times> 32 word \<times> 32 word) \<times> string" where
  "lookup2_loop abc key =
     (if length key \<ge> 12 then
        (case abc of (a, b, c) \<Rightarrow>
           lookup2_loop
             (MIX (a + (S0 (key ! 0) + S1 (key ! 1) + S2 (key ! 2) + S3 (key ! 3)),
                   b + (S0 (key ! 4) + S1 (key ! 5) + S2 (key ! 6) + S3 (key ! 7)),
                   c + (S0 (key ! 8) + S1 (key ! 9) + S2 (key ! 10) + S3 (key ! 11))))
             (drop 12 key))
      else (abc, key))"
  by pat_completeness auto
termination by (relation "measure (\<lambda>(abc, key). length key)") auto

text \<open>The cases of the switch fall through, so case \<open>n\<close> is reached when at least \<open>n\<close> octets are
  left.\<close>

definition hash_lookup2 :: "string \<Rightarrow> 64 word \<Rightarrow> 64 word" where
  "hash_lookup2 key0 partial =
     (case lookup2_loop (0x9e3779b9, 0x9e3779b9, ucast partial) key0 of ((a, b, c), key) \<Rightarrow>
      let len = length key;
          c = c + of_nat (length key0);
          c = (if len \<ge> 11 then c + S3 (key ! 10) else c);
          c = (if len \<ge> 10 then c + S2 (key ! 9) else c);
          c = (if len \<ge> 9 then c + S1 (key ! 8) else c);
          b = (if len \<ge> 8 then b + S3 (key ! 7) else b);
          b = (if len \<ge> 7 then b + S2 (key ! 6) else b);
          b = (if len \<ge> 6 then b + S1 (key ! 5) else b);
          b = (if len \<ge> 5 then b + S0 (key ! 4) else b);
          a = (if len \<ge> 4 then a + S3 (key ! 3) else a);
          a = (if len \<ge> 3 then a + S2 (key ! 2) else a);
          a = (if len \<ge> 2 then a + S1 (key ! 1) else a);
          a = (if len \<ge> 1 then a + S0 (key ! 0) else a)
      in case MIX (a, b, c) of (a, b, c) \<Rightarrow> ucast c)"

definition hash_string :: "string \<Rightarrow> 64 word" where
  "hash_string key = hash_lookup2 key 0"

subsection \<open>Properties\<close>

text \<open>C23: an insertion into a table in a valid state returns (no probing loop runs forever), reports whether
  the key was new, and adds the element exactly then, also when it reuses a deleted slot or the table
  is expanded first; the invariant, with the counters and the probe sequences, is kept.\<close>

theorem hash_insert_adds:
  assumes "\<And>k e. equal k e \<longleftrightarrow> keyf e = k" and "ht_ok hashf keyf ht" and "keyf e = k"
  shows "\<exists>new ht'. hash_insert hashf keyf equal ht k e = Some (new, ht') \<and> ht_ok hashf keyf ht'
    \<and> new = (\<forall>e' \<in> ht_elems ht. keyf e' \<noteq> k)
    \<and> ht_elems ht' = (if new then Set.insert e (ht_elems ht) else ht_elems ht)"
  by (rule hash_callbacks.hash_insert_correct [OF hash_callbacks.intro, OF assms])

theorem hash_insert_adds_witness:
  "\<exists>ht'. hash_insert (\<lambda>k. k) (\<lambda>e. e) (\<lambda>k e. e = k) (hash_create 0) (7::nat) 7 = Some (True, ht')
     \<and> ht_elems ht' = {7}"
proof -
  have "\<exists>new ht'. hash_insert (\<lambda>k. k) (\<lambda>e. e) (\<lambda>k e. e = k) (hash_create 0) (7::nat) 7 = Some (new, ht')
      \<and> ht_ok (\<lambda>k. k) (\<lambda>e. e) ht'
      \<and> new = (\<forall>e' \<in> ht_elems (hash_create 0). e' \<noteq> (7::nat))
      \<and> ht_elems ht' = (if new then Set.insert 7 (ht_elems (hash_create 0)) else ht_elems (hash_create 0))"
    by (rule hash_insert_adds) (simp_all add: hash_create_ok)
  then obtain new ht' where
    "hash_insert (\<lambda>k. k) (\<lambda>e. e) (\<lambda>k e. e = k) (hash_create 0) (7::nat) 7 = Some (new, ht')" "new"
    "ht_elems ht' = (if new then {7} else {})"
    by (elim exE conjE) (simp add: hash_create_ok(2))
  then show ?thesis by auto
qed

text \<open>C24: a lookup returns, and finds an element exactly when one with that key is in the table; a deletion
  removes exactly the element with the key and hands it to the delete callback, and leaves every
  other element where lookups find it; the count is the number of elements.\<close>

theorem hash_lookup_and_delete:
  assumes "\<And>k e. equal k e \<longleftrightarrow> keyf e = k" and "ht_ok hashf keyf ht"
  shows "(\<exists>r ht'. hash_lookup hashf keyf equal ht k = Some (r, ht') \<and> ht_ok hashf keyf ht'
      \<and> ht_elems ht' = ht_elems ht \<and> (\<forall>e. r = Some e \<longleftrightarrow> e \<in> ht_elems ht \<and> keyf e = k))
    \<and> (\<exists>r x ht'. hash_delete hashf keyf equal ht k = Some (r, x, ht') \<and> ht_ok hashf keyf ht'
      \<and> r = (\<exists>e \<in> ht_elems ht. keyf e = k) \<and> (\<forall>e. x = Some e \<longleftrightarrow> e \<in> ht_elems ht \<and> keyf e = k)
      \<and> ht_elems ht' = {e \<in> ht_elems ht. keyf e \<noteq> k})
    \<and> hash_count ht = card (ht_elems ht)"
proof (intro conjI)
  note cb = hash_callbacks.intro [OF assms(1)]
  show "\<exists>r ht'. hash_lookup hashf keyf equal ht k = Some (r, ht') \<and> ht_ok hashf keyf ht'
      \<and> ht_elems ht' = ht_elems ht \<and> (\<forall>e. r = Some e \<longleftrightarrow> e \<in> ht_elems ht \<and> keyf e = k)"
    by (rule hash_callbacks.hash_lookup_correct [OF cb assms(2)])
  show "\<exists>r x ht'. hash_delete hashf keyf equal ht k = Some (r, x, ht') \<and> ht_ok hashf keyf ht'
      \<and> r = (\<exists>e \<in> ht_elems ht. keyf e = k) \<and> (\<forall>e. x = Some e \<longleftrightarrow> e \<in> ht_elems ht \<and> keyf e = k)
      \<and> ht_elems ht' = {e \<in> ht_elems ht. keyf e \<noteq> k}"
    by (rule hash_callbacks.hash_delete_correct [OF cb assms(2)])
  show "hash_count ht = card (ht_elems ht)" by (rule hash_count_card(1) [OF assms(2)])
qed

theorem hash_lookup_and_delete_witness:
  "\<exists>ht'. hash_lookup (\<lambda>k. k) (\<lambda>e. e) (\<lambda>k e. e = k) (hash_create 9) (7::nat) = Some (None, ht')"
proof -
  have "\<exists>r ht'. hash_lookup (\<lambda>k. k) (\<lambda>e. e) (\<lambda>k e. e = k) (hash_create 9) (7::nat) = Some (r, ht')
      \<and> ht_ok (\<lambda>k. k) (\<lambda>e. e) ht' \<and> ht_elems ht' = ht_elems (hash_create 9)
      \<and> (\<forall>e. r = Some e \<longleftrightarrow> e \<in> ht_elems (hash_create 9) \<and> e = 7)"
    by (rule hash_lookup_and_delete [THEN conjunct1]) (simp_all add: hash_create_ok)
  then obtain r ht' where "hash_lookup (\<lambda>k. k) (\<lambda>e. e) (\<lambda>k e. e = k) (hash_create 9) (7::nat) = Some (r, ht')"
    "\<forall>e. r = Some e \<longleftrightarrow> e \<in> {} \<and> e = 7" by (auto simp: hash_create_ok(2))
  then show ?thesis by (cases r) auto
qed

end
