(* ===== verification/Tombstone.thy ===== *)
theory Tombstone
  imports Hashtab Encode MessageId
begin

text \<open>
  The files of cancelled articles that expire consumes (\<^verbatim>\<open>storage/tombstone.c\<close>): a hash
  table of tokens, the reader of the file and the restoration of its header in place. A file is the string of its
  octets. How many octets one \<^verbatim>\<open>pread\<close> or \<^verbatim>\<open>pwrite\<close> transfers is decided by a
  list of numbers, taken one per call (zero is an error or the end, an exhausted list transfers all),
  so a theorem over all lists covers every sequence of short transfers.
\<close>

definition TOMBSTONE_HEADER :: string where
  "TOMBSTONE_HEADER = ''# inn-tombstone v1'' @ [LF]"

subsection \<open>The set of tokens\<close>

definition ts_hash :: "token \<Rightarrow> nat" where
  "ts_hash p = unat (hash_lookup2 (token_octets p) 0)"

definition ts_key :: "token \<Rightarrow> token" where
  "ts_key p = p"

definition ts_equal :: "token \<Rightarrow> token \<Rightarrow> bool" where
  "ts_equal a b = (memcmp (token_octets a) (token_octets b) = 0 \<and> length (token_octets a) = length (token_octets b))"

definition tombstone_hash_create :: "nat \<Rightarrow> token hashtab" where
  "tombstone_hash_create sz = hash_create sz"

lemma memcmp_eq: "length a = length b \<Longrightarrow> memcmp a b = 0 \<longleftrightarrow> a = b"
  by (induction a b rule: list_induct2) (auto split: if_splits)

lemma token_octets_inject: "token_octets a = token_octets b \<longleftrightarrow> a = b"
  using octets_token_inverse by metis

interpretation ts: hash_callbacks ts_hash ts_key ts_equal
proof
  show "ts_equal k e \<longleftrightarrow> ts_key e = k" for k e
    using memcmp_eq [of "token_octets k" "token_octets e"] token_octets_inject [of k e]
    by (auto simp: ts_equal_def ts_key_def)
qed

definition tombstone_present :: "token hashtab option \<Rightarrow> token option \<Rightarrow> (bool \<times> token hashtab option) option" where
  "tombstone_present h tok =
     (case (h, tok) of
        (Some ht, Some t) \<Rightarrow>
          map_option (\<lambda>(r, ht'). (r \<noteq> None, Some ht')) (hash_lookup ts_hash ts_key ts_equal ht t)
      | _ \<Rightarrow> Some (False, h))"

subsection \<open>Reading a file\<close>

text \<open>What \<^verbatim>\<open>fopen\<close> finds; the flag is a stream error behind the contents.\<close>

datatype ts_file = Absent | Unreadable | Contents string bool

text \<open>One \<^verbatim>\<open>fgets\<close> into a buffer of \<open>n + 1\<close> octets.\<close>

definition fgets :: "nat \<Rightarrow> string \<Rightarrow> string" where
  "fgets n s =
     (let l = takeWhile (\<lambda>c. c \<noteq> LF) s
      in if length l < n \<and> length l < length s then l @ [LF] else take n l)"

fun strip_eol :: "string \<Rightarrow> string" where
  "strip_eol s = (if s \<noteq> [] \<and> (last s = LF \<or> last s = CR) then strip_eol (butlast s) else s)"

declare strip_eol.simps [simp del]

lemma fgets_pos: "0 < n \<Longrightarrow> s \<noteq> [] \<Longrightarrow> 0 < length (fgets n s)"
  by (cases s) (auto simp: fgets_def Let_def)

lemma fgets_shorter: "s \<noteq> [] \<Longrightarrow> length s - length (fgets 255 s) < length s"
  using fgets_pos [of 255 s] by simp

type_synonym ts_read = "nat \<times> string list \<times> token hashtab"

text \<open>The result: the count, the lines warned about, the table; \<open>None\<close> when a probe would not end.\<close>

function read_lines :: "string \<Rightarrow> nat \<Rightarrow> string list \<Rightarrow> token hashtab \<Rightarrow> ts_read option" where
  "read_lines s count warned h =
     (if s = [] then Some (count, warned, h)
      else
        let buf = fgets (SMBUF - 1) s;
            rest = drop (length buf) s;
            line = strip_eol (takeWhile (\<lambda>c. c \<noteq> NUL) buf)
        in if line = [] then read_lines rest count warned h
           else if peek line = CHR ''#'' then read_lines rest count warned h
           else if \<not> IsToken (Some line) then read_lines rest count (warned @ [line]) h
           else
             let t = TextToToken line
             in case hash_insert ts_hash ts_key ts_equal h t t of
                  None \<Rightarrow> None
                | Some (new, h') \<Rightarrow> read_lines rest (count + 1) warned h')"
  by pat_completeness auto
termination
  by (relation "measure (\<lambda>(s, c, w, h). length s)") (auto simp: SMBUF_def fgets_shorter)

declare read_lines.simps [simp del]

definition tombstone_read ::
    "token hashtab option \<Rightarrow> ts_file option \<Rightarrow> (nat \<times> bool \<times> string list \<times> token hashtab option) option" where
  "tombstone_read h path =
     (case (h, path) of
        (Some ht, Some f) \<Rightarrow>
          (case f of
             Absent \<Rightarrow> Some (0, False, [], h)
           | Unreadable \<Rightarrow> Some (0, True, [], h)
           | Contents s err \<Rightarrow>
               map_option (\<lambda>(count, warned, ht'). (count, err, warned, Some ht')) (read_lines s 0 [] ht))
      | _ \<Rightarrow> Some (0, False, [], h))"

subsection \<open>The snapshot\<close>

datatype rename_error = CannotOpen | CannotLock | CannotRename

text \<open>The calls that can fail are given by their outcome.\<close>

record syscalls =
  can_open :: bool
  can_lock :: bool
  can_stat :: bool
  can_rename :: bool

definition tombstone_rename_for_processing ::
    "syscalls \<Rightarrow> (string \<Rightarrow> string option) \<Rightarrow> string option \<Rightarrow> string option \<times> (string \<Rightarrow> string option)" where
  "tombstone_rename_for_processing sys fs path =
     (case path of
        None \<Rightarrow> (None, fs)
      | Some p \<Rightarrow>
        if fs p = None \<or> \<not> can_open sys then (None, fs)
        else if \<not> can_lock sys then (None, fs)
        else let snapshot_path = p @ ''.processing''
             in if \<not> can_rename sys then (None, fs)
                else (Some snapshot_path, fs(snapshot_path := fs p, p := None)))"

subsection \<open>Restoring the header in place\<close>

definition CHUNK :: nat where "CHUNK = 64 * 1024"

text \<open>How much of \<open>want\<close> octets the next call transfers.\<close>

fun transfer :: "nat list \<Rightarrow> nat \<Rightarrow> nat \<times> nat list" where
  "transfer [] want = (want, [])"
| "transfer (k # ks) want = (min k want, ks)"

definition pwrite :: "string \<Rightarrow> nat \<Rightarrow> string \<Rightarrow> string" where
  "pwrite f off d = take off f @ replicate (off - length f) NUL @ d @ drop (off + length d) f"

function pread_loop :: "string \<Rightarrow> nat list \<Rightarrow> nat \<Rightarrow> nat \<Rightarrow> string \<Rightarrow> string \<times> nat list" where
  "pread_loop f io src this_chunk buf =
     (if length buf < this_chunk then
        (case transfer io (this_chunk - length buf) of
           (k, io') \<Rightarrow>
             let got = take k (drop (src + length buf) f)
             in if got = [] then (buf, io') else pread_loop f io' src this_chunk (buf @ got))
      else (buf, io))"
  by pat_completeness auto
termination
  by (relation "measure (\<lambda>(f, io, src, n, buf). n - length buf)") auto

declare pread_loop.simps [simp del]

function pwrite_loop :: "string \<Rightarrow> nat list \<Rightarrow> nat \<Rightarrow> string \<Rightarrow> bool \<times> string \<times> nat list" where
  "pwrite_loop f io dst d =
     (if d \<noteq> [] then
        (case transfer io (length d) of
           (k, io') \<Rightarrow>
             if k = 0 then (False, f, io')
             else pwrite_loop (pwrite f dst (take k d)) io' (dst + k) (drop k d))
      else (True, f, io))"
  by pat_completeness auto
termination
  by (relation "measure (\<lambda>(f, io, dst, d). length d)") auto

declare pwrite_loop.simps [simp del]

datatype header_outcome = HeaderKept | HeaderWritten | ShortRead | ShortWrite | NoHeader | OpenFailed | LockFailed | StatFailed

function shift_loop :: "string \<Rightarrow> nat list \<Rightarrow> nat \<Rightarrow> header_outcome option \<times> string \<times> nat list" where
  "shift_loop f io pos =
     (if pos > 0 then
        let this_chunk = (if pos < CHUNK then pos else CHUNK);
            src = pos - this_chunk
        in case pread_loop f io src this_chunk [] of
             (buf, io) \<Rightarrow>
               if length buf < this_chunk then (Some ShortRead, f, io)
               else (case pwrite_loop f io (src + length TOMBSTONE_HEADER) buf of
                       (ok, f, io) \<Rightarrow>
                         if \<not> ok then (Some ShortWrite, f, io) else shift_loop f io src)
      else (None, f, io))"
  by pat_completeness auto
termination
  by (relation "measure (\<lambda>(f, io, pos). pos)") (auto simp: CHUNK_def)

declare shift_loop.simps [simp del]

definition tombstone_ensure_header ::
    "syscalls \<Rightarrow> nat list \<Rightarrow> string option \<Rightarrow> header_outcome \<times> string option" where
  "tombstone_ensure_header sys io file =
     (if \<not> can_open sys then (OpenFailed, file)
      else
        let f = (case file of None \<Rightarrow> [] | Some f \<Rightarrow> f)
        in if \<not> can_lock sys then (LockFailed, Some f)
           else if \<not> can_stat sys then (StatFailed, Some f)
           else
             let n = length TOMBSTONE_HEADER;
                 (k, io') = (if length f \<ge> n then transfer io n else (0, io))
             in if length f \<ge> n \<and> k = n \<and> take n f = TOMBSTONE_HEADER then (HeaderKept, Some f)
                else case shift_loop f io' (length f) of
                       (Some e, f, _) \<Rightarrow> (e, Some f)
                     | (None, f, io) \<Rightarrow>
                         (case transfer io n of
                            (k, _) \<Rightarrow>
                              (if k = n then HeaderWritten else NoHeader,
                               Some (pwrite f 0 (take k TOMBSTONE_HEADER)))))"

subsection \<open>The lines of a file\<close>

function ts_lines :: "string \<Rightarrow> string list" where
  "ts_lines s =
     (if s = [] then []
      else
        let buf = fgets (SMBUF - 1) s;
            line = strip_eol (takeWhile (\<lambda>c. c \<noteq> NUL) buf)
        in (if line = [] \<or> peek line = CHR ''#'' then [] else [line]) @ ts_lines (drop (length buf) s))"
  by pat_completeness auto
termination
  by (relation "measure length") (auto simp: SMBUF_def fgets_shorter)

declare ts_lines.simps [simp del]

definition is_token_line :: "string \<Rightarrow> bool" where
  "is_token_line l \<longleftrightarrow> IsToken (Some l)"

lemma read_lines_correct:
  assumes "ht_ok ts_hash ts_key h"
  shows "\<exists>h'. read_lines s c w h = Some (c + length (filter is_token_line (ts_lines s)),
      w @ filter (\<lambda>l. \<not> is_token_line l) (ts_lines s), h')
    \<and> ht_ok ts_hash ts_key h' \<and> ht_elems h' = ht_elems h \<union> TextToToken ` set (filter is_token_line (ts_lines s))"
  using assms
proof (induction s c w h rule: read_lines.induct)
  case (1 s c w h)
  show ?case
  proof (cases "s = []")
    case True
    with 1 show ?thesis by (simp add: read_lines.simps [of "[]"] ts_lines.simps [of "[]"])
  next
    case False
    define buf where "buf = fgets (SMBUF - 1) s"
    define line where "line = strip_eol (takeWhile (\<lambda>c. c \<noteq> NUL) buf)"
    define rest where "rest = drop (length buf) s"
    define t where "t = TextToToken line"
    note u = read_lines.simps [of s c w h] ts_lines.simps [of s]
    note IH = 1(1-4) [OF False buf_def rest_def line_def]
    consider (skip) "line = [] \<or> peek line = CHR ''#''"
      | (bad) "line \<noteq> []" "peek line \<noteq> CHR ''#''" "\<not> is_token_line line"
      | (good) "line \<noteq> []" "peek line \<noteq> CHR ''#''" "is_token_line line" by blast
    then show ?thesis
    proof cases
      case skip
      then have "\<exists>h'. read_lines rest c w h = Some (c + length (filter is_token_line (ts_lines rest)),
          w @ filter (\<lambda>l. \<not> is_token_line l) (ts_lines rest), h')
        \<and> ht_ok ts_hash ts_key h' \<and> ht_elems h' = ht_elems h \<union> TextToToken ` set (filter is_token_line (ts_lines rest))"
        using IH(1,2) 1(5) by blast
      with skip False show ?thesis
        unfolding u Let_def buf_def [symmetric] line_def [symmetric] rest_def [symmetric] by auto
    next
      case bad
      from IH(3) [OF bad(1,2)] bad(3) 1(5) False bad show ?thesis
        unfolding u Let_def buf_def [symmetric] line_def [symmetric] rest_def [symmetric]
        by (auto simp: is_token_line_def)
    next
      case good
      obtain r h1 where ins: "hash_insert ts_hash ts_key ts_equal h t t = Some (r, h1)" "ht_ok ts_hash ts_key h1"
        "r = (\<forall>e' \<in> ht_elems h. ts_key e' \<noteq> t)" "ht_elems h1 = (if r then Set.insert t (ht_elems h) else ht_elems h)"
        using ts.hash_insert_correct [OF 1(5), of t t] by (auto simp: ts_key_def)
      have e: "ht_elems h1 = Set.insert t (ht_elems h)" using ins(3,4) by (auto simp: ts_key_def)
      have tok: "\<not> \<not> IsToken (Some line)" using good(3) by (simp add: is_token_line_def)
      from IH(4) [OF good(1,2) tok t_def ins(1) refl ins(2)] e good False ins(1) show ?thesis
        unfolding u Let_def buf_def [symmetric] line_def [symmetric] rest_def [symmetric]
        by (auto simp: is_token_line_def t_def [symmetric])
    qed
  qed
qed

lemma strip_eol_plain: "l = [] \<or> last l \<noteq> LF \<and> last l \<noteq> CR \<Longrightarrow> strip_eol l = l"
  by (subst strip_eol.simps) auto

lemma strip_eol_LF: "l = [] \<or> last l \<noteq> LF \<and> last l \<noteq> CR \<Longrightarrow> strip_eol (l @ [LF]) = l"
  by (subst strip_eol.simps) (simp add: strip_eol_plain)

lemma ts_lines_line:
  assumes "LF \<notin> set l" "NUL \<notin> set l" "CR \<notin> set l" "length l < SMBUF - 1"
  shows "ts_lines (l @ LF # r) = (if l = [] \<or> peek l = CHR ''#'' then [] else [l]) @ ts_lines r"
proof -
  have buf: "fgets (SMBUF - 1) (l @ LF # r) = l @ [LF]"
    using assms by (simp add: fgets_def Let_def)
  have "takeWhile (\<lambda>c. c \<noteq> NUL) (l @ [LF]) = l @ [LF]"
    using assms(2) by (simp add: takeWhile_eq_all_conv)
  moreover have "strip_eol (l @ [LF]) = l"
    by (rule strip_eol_LF) (use assms(1,3) last_in_set [of l] in metis)
  ultimately show ?thesis
    by (subst ts_lines.simps) (simp add: buf [simplified] Let_def)
qed

definition ts_text :: "token list \<Rightarrow> string" where
  "ts_text ts = TOMBSTONE_HEADER @ concat (map (\<lambda>t. TokenToText t @ [LF]) ts)"

lemma token_text_plain:
  assumes "wf_token t"
  shows "LF \<notin> set (TokenToText t)" "NUL \<notin> set (TokenToText t)" "CR \<notin> set (TokenToText t)"
    "length (TokenToText t) < SMBUF - 1" "TokenToText t \<noteq> []" "peek (TokenToText t) \<noteq> CHR ''#''"
    "is_token_line (TokenToText t)" "TextToToken (TokenToText t) = t"
proof -
  have g: "isgraph c" if "c \<in> set (TokenToText t)" for c using token_text.graph_enc [OF assms that] .
  show "LF \<notin> set (TokenToText t)" "NUL \<notin> set (TokenToText t)" "CR \<notin> set (TokenToText t)"
    using g [of LF] g [of NUL] g [of CR] by (auto simp: isgraph_def)
  show "length (TokenToText t) < SMBUF - 1" using token_text.length_enc [OF assms] by (simp add: SMBUF_def)
  show "TokenToText t \<noteq> []" "peek (TokenToText t) \<noteq> CHR ''#''" by (simp_all add: TokenToText_def)
  show "is_token_line (TokenToText t)" unfolding is_token_line_def by (rule IsToken_TokenToText [OF assms])
  show "TextToToken (TokenToText t) = t" by (rule TextToToken_TokenToText [OF assms])
qed

lemma ts_lines_text:
  assumes "\<forall>t \<in> set ts. wf_token t"
  shows "ts_lines (ts_text ts) = map TokenToText ts"
proof -
  have "ts_lines (concat (map (\<lambda>t. TokenToText t @ [LF]) ts)) = map TokenToText ts"
    using assms
  proof (induction ts)
    case (Cons t ts)
    then have "wf_token t" by simp
    from token_text_plain [OF this] Cons show ?case by (simp add: ts_lines_line)
  qed (simp add: ts_lines.simps)
  then show ?thesis
    using ts_lines_line [of "''# inn-tombstone v1''" "concat (map (\<lambda>t. TokenToText t @ [LF]) ts)"]
    by (simp add: ts_text_def TOMBSTONE_HEADER_def SMBUF_def)
qed

text \<open>C28: reading a file with the header and one line per token into an empty table returns the number of
  tokens, reports no error and warns about no line, and afterwards exactly these tokens are present.\<close>

theorem tombstone_read_roundtrip:
  assumes "\<forall>t \<in> set ts. wf_token t"
  shows "\<exists>h. tombstone_read (Some (tombstone_hash_create n)) (Some (Contents (ts_text ts) False))
      = Some (length ts, False, [], Some h)
    \<and> hash_count h = card (set ts)
    \<and> (\<forall>t. \<exists>h'. tombstone_present (Some h) (Some t) = Some (t \<in> set ts, h'))"
proof -
  have ok: "ht_ok ts_hash ts_key (tombstone_hash_create n)" "ht_elems (tombstone_hash_create n) = {}"
    by (simp_all add: tombstone_hash_create_def hash_create_ok)
  have L: "filter is_token_line (ts_lines (ts_text ts)) = map TokenToText ts"
    "filter (\<lambda>l. \<not> is_token_line l) (ts_lines (ts_text ts)) = []"
    using token_text_plain(7) assms by (auto simp: ts_lines_text [OF assms] filter_id_conv filter_empty_conv)
  have img: "TextToToken ` set (map TokenToText ts) = set ts"
    using token_text_plain(8) assms by (force simp: image_image)
  obtain h where h: "read_lines (ts_text ts) 0 [] (tombstone_hash_create n) = Some (length ts, [], h)"
    "ht_ok ts_hash ts_key h" "ht_elems h = set ts"
    using read_lines_correct [OF ok(1), of "ts_text ts" 0 "[]"] unfolding L img ok(2) by auto
  have "\<exists>h'. tombstone_present (Some h) (Some t) = Some (t \<in> set ts, h')" for t
    using ts.hash_lookup_correct [OF h(2), of t] h(3)
    by (auto simp: tombstone_present_def ts_key_def)
  then show ?thesis
    using h hash_count_card(1) [OF h(2)] by (simp add: tombstone_read_def)
qed

theorem tombstone_read_roundtrip_witness:
  "\<exists>h. tombstone_read (Some (tombstone_hash_create 4))
      (Some (Contents (ts_text [octets_token (replicate 18 CHR ''A'')]) False)) = Some (1, False, [], Some h)
    \<and> hash_count h = 1"
  using tombstone_read_roundtrip [of "[octets_token (replicate 18 CHR ''A'')]" 4]
  by (auto simp: wf_token_def octets_token_def)

subsection \<open>The header is restored\<close>

lemma transfer_enough:
  assumes "\<forall>k \<in> set io. 0 < k" "0 < want" "transfer io want = (k, io')"
  shows "0 < k" "k \<le> want" "set io' \<subseteq> set io"
  using assms by (cases io; auto)+

lemma pread_loop_full:
  assumes "\<forall>k \<in> set io. 0 < k" "src + n \<le> length f" "length buf \<le> n" "buf = take (length buf) (drop src f)"
  shows "\<exists>io'. pread_loop f io src n buf = (take n (drop src f), io') \<and> set io' \<subseteq> set io"
  using assms
proof (induction f io src n buf rule: pread_loop.induct)
  case (1 f io src n buf)
  show ?case
  proof (cases "length buf < n")
    case True
    obtain k io' where t: "transfer io (n - length buf) = (k, io')" by fastforce
    note T = transfer_enough [OF 1(2) _ t]
    define got where "got = take k (drop (src + length buf) f)"
    have lg: "length got = k" using T True 1(3) by (simp add: got_def)
    then have ne: "got \<noteq> []" using T True by auto
    have "buf @ got = take (length (buf @ got)) (drop src f)"
    proof -
      have "take (length buf + k) (drop src f) = take (length buf) (drop src f) @ take k (drop (length buf) (drop src f))"
        by (rule take_add)
      with 1(5) lg show ?thesis by (simp add: got_def add.commute)
    qed
    moreover have "\<forall>k \<in> set io'. 0 < k" "length (buf @ got) \<le> n" using 1(2) T True lg by auto
    ultimately have "\<exists>io''. pread_loop f io' src n (buf @ got) = (take n (drop src f), io'') \<and> set io'' \<subseteq> set io'"
      using 1(1) [OF True t [symmetric] got_def ne _ 1(3)] by blast
    moreover have "src + length buf < length f" using True 1(3) by simp
    ultimately show ?thesis
      using True t ne T by (subst pread_loop.simps) (auto simp: got_def [symmetric] Let_def)
  next
    case False
    with 1(4,5) show ?thesis by (subst pread_loop.simps) (auto simp: Let_def)
  qed
qed

lemma pwrite_append: "d1 \<noteq> [] \<Longrightarrow> pwrite (pwrite f off d1) (off + length d1) d2 = pwrite f off (d1 @ d2)"
  by (auto simp: pwrite_def min_def drop_Cons' intro!: arg_cong [where f = "\<lambda>n. drop n f"])

lemma pwrite_loop_full:
  assumes "\<forall>k \<in> set io. 0 < k"
  shows "\<exists>io'. pwrite_loop f io dst d = (True, if d = [] then f else pwrite f dst d, io') \<and> set io' \<subseteq> set io"
  using assms
proof (induction f io dst d rule: pwrite_loop.induct)
  case (1 f io dst d)
  show ?case
  proof (cases "d = []")
    case False
    obtain k io' where t: "transfer io (length d) = (k, io')" by fastforce
    note T = transfer_enough [OF 1(2) _ t]
    have k: "0 < k" "k \<le> length d" "set io' \<subseteq> set io" using T False by auto
    then obtain io'' where io'': "pwrite_loop (pwrite f dst (take k d)) io' (dst + k) (drop k d) = (True,
        if drop k d = [] then pwrite f dst (take k d) else pwrite (pwrite f dst (take k d)) (dst + k) (drop k d), io'')"
      "set io'' \<subseteq> set io'"
      using 1(1) [OF False t [symmetric]] 1(2) by auto
    have "pwrite (pwrite f dst (take k d)) (dst + k) (drop k d) = pwrite f dst d"
      using pwrite_append [of "take k d" f dst "drop k d"] k False by (simp add: min_absorb2)
    with io'' k t False show ?thesis by (subst pwrite_loop.simps) auto
  qed (subst pwrite_loop.simps, simp)
qed

lemma pwrite_parts:
  "s \<le> length f \<Longrightarrow> s \<le> off \<Longrightarrow> take s (pwrite f off d) = take s f"
  "drop off (pwrite f off d) = d @ drop (off + length d) f"
  "length f \<le> length (pwrite f off d)"
  by (auto simp: pwrite_def)

text \<open>At position \<open>pos\<close>, what lies before it is still the old contents, and what lay behind it is in
  its new place.\<close>

lemma shift_loop_correct:
  assumes "\<forall>k \<in> set io. 0 < k" "take pos f = take pos c" "pos \<le> length c" "pos \<le> length f"
    "drop (pos + length TOMBSTONE_HEADER) f = drop pos c"
  shows "\<exists>f' io'. shift_loop f io pos = (None, f', io') \<and> drop (length TOMBSTONE_HEADER) f' = c \<and> set io' \<subseteq> set io"
  using assms
proof (induction f io pos rule: shift_loop.induct)
  case (1 f io pos)
  show ?case
  proof (cases "pos > 0")
    case True
    define n where "n = (if pos < CHUNK then pos else CHUNK)"
    define src where "src = pos - n"
    have n: "0 < n" "src + n = pos" "src \<le> length f" "src \<le> length c" "n \<le> pos"
      using True 1(4,5) by (auto simp: n_def src_def CHUNK_def)
    obtain io1 where rd: "pread_loop f io src n [] = (take n (drop src f), io1)" "set io1 \<subseteq> set io"
      using pread_loop_full [OF 1(2), of src n f "[]"] n 1(5) by auto
    define buf where "buf = take n (drop src f)"
    have lb: "length buf = n" using n 1(5) by (simp add: buf_def)
    have bc: "buf = take n (drop src c)"
      using 1(3) n(2) unfolding buf_def by (metis add.commute drop_take take_drop)
    define f1 where "f1 = pwrite f (src + length TOMBSTONE_HEADER) buf"
    have bne: "buf \<noteq> []" using lb n by auto
    obtain io2 where wr: "pwrite_loop f io1 (src + length TOMBSTONE_HEADER) buf = (True, f1, io2)" "set io2 \<subseteq> set io1"
      using pwrite_loop_full [of io1 f "src + length TOMBSTONE_HEADER" buf] 1(2) rd(2) bne unfolding f1_def by auto
    have "take src f1 = take src c"
      using pwrite_parts(1) [of src f] n 1(3) unfolding f1_def by (metis le_add1 min_def take_take)
    moreover have "drop (src + length TOMBSTONE_HEADER) f1 = drop src c"
    proof -
      have "drop (src + length TOMBSTONE_HEADER) f1 = buf @ drop (pos + length TOMBSTONE_HEADER) f"
        unfolding f1_def pwrite_parts(2) lb n(2) [symmetric] by (simp add: ac_simps)
      also have "\<dots> = take n (drop src c) @ drop n (drop src c)" using 1(6) bc n(2) by (simp add: add.commute)
      finally show ?thesis by (simp only: append_take_drop_id)
    qed
    moreover have "src \<le> length f1" using pwrite_parts(3) [of f] n(3) unfolding f1_def by (rule order_trans [rotated])
    moreover have "\<forall>k \<in> set io2. 0 < k" using 1(2) rd(2) wr(2) by blast
    ultimately have "\<exists>f' io'. shift_loop f1 io2 src = (None, f', io') \<and> drop (length TOMBSTONE_HEADER) f' = c \<and> set io' \<subseteq> set io2"
      using 1(1) [OF True n_def src_def rd(1) [symmetric, folded buf_def] _ wr(1) [symmetric] refl] lb n(4) by auto
    then show ?thesis
      using True rd wr lb
      by (subst shift_loop.simps) (auto simp: n_def [symmetric] src_def [symmetric] buf_def [symmetric] Let_def)
  next
    case False
    with 1(6) show ?thesis by (subst shift_loop.simps) simp
  qed
qed

text \<open>C29: when no transfer fails and each moves at least 19 octets or all that is asked for, the file ends up
  with the header followed by its old contents, octet for octet, however large it is and however the
  transfers are cut; a file that has the header is not touched, so a second call changes nothing.\<close>

theorem tombstone_header_restored:
  assumes "can_open sys" and "can_lock sys" and "can_stat sys" and "\<forall>k \<in> set io. length TOMBSTONE_HEADER \<le> k"
  shows "\<exists>out. tombstone_ensure_header sys io (Some c)
      = (out, Some (if take (length TOMBSTONE_HEADER) c = TOMBSTONE_HEADER then c else TOMBSTONE_HEADER @ c))
    \<and> out \<in> {HeaderKept, HeaderWritten}"
proof -
  let ?n = "length TOMBSTONE_HEADER"
  have np: "0 < ?n" by (simp add: TOMBSTONE_HEADER_def)
  have pos: "\<forall>k \<in> set io. 0 < k" using assms(4) np by (meson order_less_le_trans)
  define io1 where "io1 = snd (if ?n \<le> length c then transfer io ?n else (0, io))"
  have io1: "set io1 \<subseteq> set io" by (cases io) (auto simp: io1_def)
  have pos1: "\<forall>k \<in> set io1. 0 < k" using pos io1 by blast
  from shift_loop_correct [OF pos1, of "length c" c c]
  obtain f io2 where sh: "shift_loop c io1 (length c) = (None, f, io2)" "drop ?n f = c" "set io2 \<subseteq> set io1" by auto
  have last: "\<exists>io3. transfer io2 ?n = (?n, io3)"
    using assms(4) sh(3) io1 by (cases io2) (auto simp: min_absorb2)
  have first: "\<exists>io3. transfer io ?n = (?n, io3)"
    using assms(4) by (cases io) (auto simp: min_absorb2)
  have w: "pwrite f 0 TOMBSTONE_HEADER = TOMBSTONE_HEADER @ c" using sh(2) by (simp add: pwrite_def)
  show ?thesis
  proof (cases "take ?n c = TOMBSTONE_HEADER")
    case True
    then have "?n \<le> length c" by (metis length_take min.cobounded1)
    with True first assms(1-3) show ?thesis by (auto simp: tombstone_ensure_header_def Let_def)
  next
    case False
    have "tombstone_ensure_header sys io (Some c) = (HeaderWritten, Some (TOMBSTONE_HEADER @ c))"
      using False assms(1-3) sh(1) last w
      by (auto simp: tombstone_ensure_header_def Let_def io1_def split: prod.splits)
    with False show ?thesis by simp
  qed
qed

theorem tombstone_header_restored_witness:
  "\<exists>out. tombstone_ensure_header \<lparr>can_open = True, can_lock = True, can_stat = True, can_rename = True\<rparr> [20, 25] (Some ''@01@'')
     = (out, Some (TOMBSTONE_HEADER @ ''@01@'')) \<and> out \<in> {HeaderKept, HeaderWritten}"
  using tombstone_header_restored [of "\<lparr>can_open = True, can_lock = True, can_stat = True, can_rename = True\<rparr>" "[20, 25]" "''@01@''"]
  by (simp add: TOMBSTONE_HEADER_def)

end
