(* ===== verification/Dates.thy ===== *)
theory Dates
  imports Headers "HOL-Library.Sublist"
begin

text \<open>
  Dates (\<^verbatim>\<open>lib/date.c\<close>): writing Date header fields, the calendar, and the strict and lax
  parsers. \<open>gmtime\<close> and the broken-down time are those of the C library; what depends on the
  configured time zone (\<^verbatim>\<open>localtime\<close>, \<^verbatim>\<open>mktime\<close>) and the current time are
  the fields of \<open>clock\<close>. The build is one with \<^verbatim>\<open>tm_gmtoff\<close> and \<^verbatim>\<open>tm_zone\<close>.
  A parse position is the rest of the string; \<open>Overrun\<close> is a position behind its nul, which the
  time zone tables can produce. Numbers are integers: the parsers read at most five digits.
\<close>

subsection \<open>The calendar\<close>

definition WEEKDAY :: "string list" where
  "WEEKDAY = [''Sun'', ''Mon'', ''Tue'', ''Wed'', ''Thu'', ''Fri'', ''Sat'']"

definition MONTH :: "string list" where
  "MONTH = [''Jan'', ''Feb'', ''Mar'', ''Apr'', ''May'', ''Jun'',
            ''Jul'', ''Aug'', ''Sep'', ''Oct'', ''Nov'', ''Dec'']"

definition OBS_MONTH :: "string list" where
  "OBS_MONTH = [''January'', ''February'', ''March'', ''April'', ''May'', ''June'',
                ''July'', ''August'', ''September'', ''October'', ''November'', ''December'']"

definition MONTHDAYS :: "int list" where
  "MONTHDAYS = [31, 28, 31, 30, 31, 30, 31, 31, 30, 31, 30, 31]"

definition ZONE_OFFSET :: "(string \<times> int) list" where
  "ZONE_OFFSET =
     [(''UT'', 0), (''GMT'', 0), (''EDT'', -4 * 60 * 60), (''EST'', -5 * 60 * 60),
      (''CDT'', -5 * 60 * 60), (''CST'', -6 * 60 * 60), (''MDT'', -6 * 60 * 60),
      (''MST'', -7 * 60 * 60), (''PDT'', -7 * 60 * 60), (''PST'', -8 * 60 * 60)]"

definition OBS_ZONE_OFFSET :: "(string \<times> int) list" where
  "OBS_ZONE_OFFSET =
     [(''UTC'', 0), (''CUT'', 0), (''WET'', 0), (''BST'', 1 * 60 * 60),
      (''NDT'', (-2 * 60 + 30) * 60), (''NST'', (-3 * 60 + 30) * 60),
      (''ADT'', -3 * 60 * 60), (''AST'', -4 * 60 * 60), (''YDT'', -8 * 60 * 60),
      (''YST'', -9 * 60 * 60), (''AKDT'', -8 * 60 * 60), (''AKST'', -9 * 60 * 60),
      (''HADT'', -9 * 60 * 60), (''HAST'', -10 * 60 * 60), (''HST'', -10 * 60 * 60),
      (''CES'', 2 * 60 * 60), (''CEST'', 2 * 60 * 60), (''MEZ'', 1 * 60 * 60),
      (''MEZT'', 2 * 60 * 60), (''CET'', 1 * 60 * 60), (''MET'', 1 * 60 * 60),
      (''EET'', 2 * 60 * 60), (''MSK'', 3 * 60 * 60), (''MSD'', 4 * 60 * 60),
      (''WAST'', 8 * 60 * 60), (''WADT'', 9 * 60 * 60), (''HKT'', 8 * 60 * 60),
      (''CCT'', 8 * 60 * 60), (''JST'', 9 * 60 * 60), (''KST'', 9 * 60 * 60),
      (''KDT'', 9 * 60 * 60), (''CAST'', (9 * 60 + 30) * 60), (''CADT'', (10 * 60 + 30) * 60),
      (''EAST'', 10 * 60 * 60), (''EADT'', 11 * 60 * 60), (''NZST'', 12 * 60 * 60),
      (''NZST'', 13 * 60 * 60)]"

definition ISLEAP :: "int \<Rightarrow> bool" where
  "ISLEAP year = (year mod 4 = 0 \<and> (year mod 100 \<noteq> 0 \<or> year mod 400 = 0))"

record tm =
  tm_sec :: int
  tm_min :: int
  tm_hour :: int
  tm_mday :: int
  tm_mon :: int
  tm_year :: int
  tm_wday :: int
  tm_yday :: int
  tm_gmtoff :: int
  tm_zone :: string

definition year_length :: "int \<Rightarrow> int" where
  "year_length y = 365 + of_bool (ISLEAP y)"

text \<open>\<^verbatim>\<open>gmtime\<close>: the year a day counted from the first of January of a year lies in, and
  the month a day of a year lies in.\<close>

function split_year :: "int \<Rightarrow> int \<Rightarrow> int \<times> int" where
  "split_year y d =
     (if d < 0 then split_year (y - 1) (d + year_length (y - 1))
      else if d < year_length y then (y, d)
      else split_year (y + 1) (d - year_length y))"
  by pat_completeness auto
termination
  by (relation "measure (\<lambda>(y, d). nat (if d < 0 then 400 - d else d))") (auto simp: year_length_def of_bool_def split: if_splits)

declare split_year.simps [simp del]

definition month_length :: "int \<Rightarrow> nat \<Rightarrow> int" where
  "month_length y m = MONTHDAYS ! m + of_bool (m = 1 \<and> ISLEAP y)"

fun split_month :: "int \<Rightarrow> nat list \<Rightarrow> int \<Rightarrow> nat \<times> int" where
  "split_month y [] d = (11, d)"
| "split_month y (m # ms) d =
     (if d < month_length y m then (m, d) else split_month y ms (d - month_length y m))"

definition gmtime :: "int \<Rightarrow> tm" where
  "gmtime t =
     (let days = t div 86400; s = t mod 86400;
          (y, yd) = split_year 1970 days; (m, d) = split_month y [0..<12] yd
      in \<lparr>tm_sec = s mod 60, tm_min = s div 60 mod 60, tm_hour = s div 3600, tm_mday = d + 1,
          tm_mon = int m, tm_year = y - 1900, tm_wday = (days + 4) mod 7, tm_yday = yd,
          tm_gmtoff = 0, tm_zone = ''GMT''\<rparr>)"

text \<open>The loops of \<open>mktime_utc\<close>.\<close>

function years_loop :: "int \<Rightarrow> int \<Rightarrow> int \<Rightarrow> int" where
  "years_loop i e result =
     (if i < e then years_loop (i + 1) e (result + (365 + of_bool (ISLEAP i))) else result)"
  by pat_completeness auto
termination by (relation "measure (\<lambda>(i, e, r). nat (e - i))") auto

declare years_loop.simps [simp del]

definition mktime_utc :: "tm \<Rightarrow> int" where
  "mktime_utc tm =
     (if tm_mon tm < 0 \<or> tm_mon tm > 11 \<or> tm_year tm < 70 then -1
      else
        let result = years_loop 1970 (tm_year tm + 1900) 0;
            result = foldl (+) result (take (nat (tm_mon tm)) MONTHDAYS);
            result = (if tm_mon tm > 1 \<and> ISLEAP (tm_year tm + 1900) then result + 1 else result);
            result = 24 * (result + tm_mday tm - 1) + tm_hour tm;
            result = 60 * result + tm_min tm
        in 60 * result + tm_sec tm)"

definition valid_tm :: "tm \<Rightarrow> bool" where
  "valid_tm tm =
     (if tm_sec tm > 60 \<or> tm_min tm > 59 \<or> tm_hour tm > 23 then False
      else if tm_mday tm < 1 \<or> tm_mon tm < 0 \<or> tm_mon tm > 11 then False
      else if tm_mday tm > MONTHDAYS ! nat (tm_mon tm)
              \<and> (tm_mon tm \<noteq> 1 \<or> tm_mday tm > 29 \<or> \<not> ISLEAP (tm_year tm + 1900)) then False
      else if tm_year tm < 70 then False
      else True)"

subsection \<open>Writing a date\<close>

record clock =
  now :: int
  localtime :: "int \<Rightarrow> tm"
  mktime :: "tm \<Rightarrow> int"

definition local_tz_offset :: "clock \<Rightarrow> int \<Rightarrow> bool \<Rightarrow> int" where
  "local_tz_offset ck date current = tm_gmtoff (localtime ck date)"

text \<open>The computation of builds without \<^verbatim>\<open>tm_gmtoff\<close>.\<close>

definition local_tz_offset_portable :: "clock \<Rightarrow> int \<Rightarrow> int" where
  "local_tz_offset_portable ck date =
     (let lt = localtime ck date; gmt = gmtime date;
          offset = tm_yday lt - tm_yday gmt;
          offset = (if offset < -1 then 24 else if offset > 1 then -24 else offset * 24);
          offset = offset + (tm_hour lt - tm_hour gmt);
          offset = offset * 60 + (tm_min lt - tm_min gmt)
      in offset * 60)"

definition fmt_d :: "int \<Rightarrow> string" where
  "fmt_d i = (if i < 0 then ''-'' @ show_nat (nat (- i)) else show_nat (nat i))"

definition fmt_02d :: "int \<Rightarrow> string" where
  "fmt_02d i = (let s = fmt_d i in if length s < 2 then ''0'' @ s else s)"

definition date_text :: "tm \<Rightarrow> int \<Rightarrow> int \<Rightarrow> int \<Rightarrow> string" where
  "date_text tm tz_sign tz_hour_offset tz_min_offset =
     WEEKDAY ! nat (tm_wday tm) @ '', '' @ fmt_d (tm_mday tm) @ '' '' @ MONTH ! nat (tm_mon tm) @ '' ''
     @ fmt_d (1900 + tm_year tm) @ '' '' @ fmt_02d (tm_hour tm) @ '':'' @ fmt_02d (tm_min tm) @ '':''
     @ fmt_02d (tm_sec tm) @ '' '' @ (if tz_sign > 0 then ''+'' else ''-'')
     @ fmt_02d tz_hour_offset @ fmt_02d tz_min_offset"

text \<open>\<open>None\<close> is the result false; the other results are the contents of the buffer up to its nul.\<close>

definition makedate :: "clock \<Rightarrow> int \<Rightarrow> bool \<Rightarrow> nat \<Rightarrow> string option" where
  "makedate ck date local buflen =
     (if buflen < 32 then None
      else
        let realdate = (if date = -1 then now ck else date);
            tm = (if local then localtime ck realdate else gmtime realdate);
            tz_offset = local_tz_offset ck realdate (date = -1);
            tz_sign = (if local then if tz_offset < 0 then -1 else 1 else -1);
            tz_offset = tz_offset * tz_sign;
            tz_hour_offset = (if local then tz_offset div 3600 else 0);
            tz_min_offset = (if local then tz_offset mod 3600 div 60 else 0)
        in if tz_hour_offset > 24 then None
           else
             let buff = take (buflen - 1) (date_text tm tz_sign tz_hour_offset tz_min_offset);
                 tz_name = (if local then tm_zone tm else ''UTC'')
             in if length buff + 4 + length tz_name \<le> buflen
                then Some (buff @ '' ('' @ tz_name @ '')'') else Some buff)"

subsection \<open>Parsing by rules\<close>

text \<open>What a parsing step returns: NULL, a position behind the nul of the string, or the new
  position.\<close>

datatype 'a scan = NULL | Overrun | At string 'a

definition advance_by :: "nat \<Rightarrow> string \<Rightarrow> 'a \<Rightarrow> 'a scan" where
  "advance_by n p x = (if n \<le> length p then At (drop n p) x else Overrun)"

fun strncasecmp_eq :: "string \<Rightarrow> string \<Rightarrow> nat \<Rightarrow> bool" where
  "strncasecmp_eq a b 0 = True"
| "strncasecmp_eq a b (Suc n) =
     (tolower (peek a) = tolower (peek b) \<and> (peek a = NUL \<or> strncasecmp_eq (tl a) (tl b) n))"

datatype rule_type = TYPE_NUMBER | TYPE_LOOKUP | TYPE_OBS_MONTH | TYPE_DELIM

record rule =
  r_type :: rule_type
  r_delimiter :: char
  r_table :: "string list"
  r_min :: nat
  r_max :: nat

fun number_loop :: "string \<Rightarrow> nat \<Rightarrow> nat \<Rightarrow> int \<Rightarrow> nat \<times> string \<times> int" where
  "number_loop [] mx count value = (count, [], value)"
| "number_loop (c # p) mx count value =
     (if count < mx then
        if \<not> isdigit c then (count, c # p, value)
        else number_loop p mx (count + 1) (value * 10 + int (digit_value c))
      else (count, c # p, value))"

definition parse_number :: "string \<Rightarrow> rule \<Rightarrow> int scan" where
  "parse_number p r =
     (case number_loop p (r_max r) 0 0 of (count, q, value) \<Rightarrow>
        if count < r_min r \<or> count > r_max r then NULL else At q value)"

text \<open>The index of the first entry of a table that satisfies a test.\<close>

fun index_of :: "('a \<Rightarrow> bool) \<Rightarrow> 'a list \<Rightarrow> nat option" where
  "index_of f [] = None"
| "index_of f (x # xs) = (if f x then Some 0 else map_option Suc (index_of f xs))"

definition parse_lookup :: "string \<Rightarrow> rule \<Rightarrow> int scan" where
  "parse_lookup p r =
     (case index_of (\<lambda>e. strncasecmp_eq e p (r_max r)) (r_table r) of
        Some i \<Rightarrow> advance_by (r_max r) p (int i)
      | None \<Rightarrow> NULL)"

definition parse_legacy_month :: "string \<Rightarrow> int scan" where
  "parse_legacy_month p =
     (let w = takeWhile isalpha p; rest = dropWhile isalpha p;
          sz = (if peek rest = CHR ''.'' then length w + 1 else length w)
      in if sz = 0 then NULL
         else if sz = 3 \<or> sz = 4 \<and> p ! 3 = CHR ''.'' then
           (case index_of (\<lambda>e. strncasecmp_eq e p 3) MONTH of
              Some i \<Rightarrow> At (drop sz p) (int i) | None \<Rightarrow> NULL)
         else
           (case index_of (\<lambda>e. sz = length e \<and> strncasecmp_eq e p sz) OBS_MONTH of
              Some i \<Rightarrow> At (drop sz p) (int i) | None \<Rightarrow> NULL))"

text \<open>The rules are applied with the values from index \<open>i\<close> on.\<close>

fun parse_by_rule :: "string \<Rightarrow> rule list \<Rightarrow> nat \<Rightarrow> int list \<Rightarrow> int list scan" where
  "parse_by_rule p [] i vals = At p vals"
| "parse_by_rule p (r # rules) i vals =
     (if r_type r = TYPE_DELIM then
        if peek p \<noteq> r_delimiter r then NULL
        else parse_by_rule (skip_cfws (tl p)) rules (i + 1) vals
      else
        (case (case r_type r of TYPE_LOOKUP \<Rightarrow> parse_lookup p r
               | TYPE_OBS_MONTH \<Rightarrow> parse_legacy_month p
               | _ \<Rightarrow> parse_number p r) of
           NULL \<Rightarrow> NULL
         | Overrun \<Rightarrow> Overrun
         | At q v \<Rightarrow> parse_by_rule (skip_cfws q) rules (i + 1) (vals[i := v])))"

definition parse_legacy_timezone :: "string \<Rightarrow> bool \<Rightarrow> int scan" where
  "parse_legacy_timezone p obsolete =
     (let n = length (takeWhile isalpha p)
      in if n = 0 then NULL
         else
           case index_of (\<lambda>z. strncasecmp_eq (fst z) p n) ZONE_OFFSET of
             Some i \<Rightarrow> advance_by (length (fst (ZONE_OFFSET ! i))) p (snd (ZONE_OFFSET ! i))
           | None \<Rightarrow>
             if n = 1 \<and> isalpha (peek p) \<and> peek p \<noteq> CHR ''J'' \<and> peek p \<noteq> CHR ''j'' then At (tl p) 0
             else if obsolete then
               (case index_of (\<lambda>z. length (fst z) \<le> n \<and> strncasecmp_eq (fst z) p n) OBS_ZONE_OFFSET of
                  Some i \<Rightarrow> advance_by (length (fst (OBS_ZONE_OFFSET ! i))) p (snd (OBS_ZONE_OFFSET ! i))
                | None \<Rightarrow> NULL)
             else NULL)"

definition number_rule :: "nat \<Rightarrow> nat \<Rightarrow> rule" where
  "number_rule mn mx = \<lparr>r_type = TYPE_NUMBER, r_delimiter = NUL, r_table = [], r_min = mn, r_max = mx\<rparr>"

definition lookup_rule :: "string list \<Rightarrow> rule" where
  "lookup_rule tab = \<lparr>r_type = TYPE_LOOKUP, r_delimiter = NUL, r_table = tab, r_min = 3, r_max = 3\<rparr>"

definition delim_rule :: "char \<Rightarrow> rule" where
  "delim_rule c = \<lparr>r_type = TYPE_DELIM, r_delimiter = c, r_table = [], r_min = 1, r_max = 1\<rparr>"

definition base_rule :: "rule list" where
  "base_rule =
     [lookup_rule WEEKDAY, delim_rule CHR '','', number_rule 1 2, lookup_rule MONTH,
      number_rule 2 4, number_rule 2 2, delim_rule CHR '':'', number_rule 2 2]"

definition seconds_rule :: "rule list" where
  "seconds_rule = [delim_rule CHR '':'', number_rule 2 2]"

definition zone_rule :: "rule list" where
  "zone_rule = [number_rule 2 2, number_rule 2 2]"

text \<open>The end shared by both parsers: the year, the range checks and the offset.\<close>

definition fix_year :: "int \<Rightarrow> int" where
  "fix_year y = (if y < 50 then y + 100 else if y \<ge> 1000 then y - 1900 else y)"

definition blank_tm :: tm where
  "blank_tm = \<lparr>tm_sec = 0, tm_min = 0, tm_hour = 0, tm_mday = 0, tm_mon = 0, tm_year = 0, tm_wday = 0,
     tm_yday = 0, tm_gmtoff = 0, tm_zone = []\<rparr>"

text \<open>The result of a parser: a time, \<open>-1\<close> included, or a read outside the string.\<close>

datatype parsed = Time int | OutOfBounds

definition rfc5322_finish :: "tm \<Rightarrow> string \<Rightarrow> int \<Rightarrow> parsed" where
  "rfc5322_finish tm p zone_offset =
     (let tm = tm\<lparr>tm_year := fix_year (tm_year tm)\<rparr>
      in if skip_cfws p \<noteq> [] then Time (-1)
         else if \<not> valid_tm tm then Time (-1)
         else let result = mktime_utc tm
              in Time (if result = -1 then result else result - zone_offset))"

definition rfc5322_zone :: "tm \<Rightarrow> string \<Rightarrow> int list \<Rightarrow> parsed" where
  "rfc5322_zone tm p vals =
     (if peek p = CHR ''-'' \<or> peek p = CHR ''+'' then
        (case parse_by_rule (tl p) zone_rule 0 vals of
           NULL \<Rightarrow> Time (-1)
         | Overrun \<Rightarrow> OutOfBounds
         | At q vals \<Rightarrow>
             rfc5322_finish tm q
               ((vals ! 0 * 60 + vals ! 1) * 60 * (if peek p = CHR ''+'' then 1 else -1)))
      else
        (case parse_legacy_timezone p False of
           NULL \<Rightarrow> Time (-1)
         | Overrun \<Rightarrow> OutOfBounds
         | At q offset \<Rightarrow> rfc5322_finish tm q offset))"

definition rfc5322_seconds :: "tm \<Rightarrow> string \<Rightarrow> int list \<Rightarrow> parsed" where
  "rfc5322_seconds tm p vals =
     (if peek p = CHR '':'' then
        (case parse_by_rule p seconds_rule 0 vals of
           NULL \<Rightarrow> Time (-1)
         | Overrun \<Rightarrow> OutOfBounds
         | At q vals \<Rightarrow> rfc5322_zone (tm\<lparr>tm_sec := vals ! 1\<rparr>) q vals)
      else rfc5322_zone tm p vals)"

definition parsedate_rfc5322 :: "string \<Rightarrow> parsed" where
  "parsedate_rfc5322 date =
     (let p = skip_cfws date; vals = replicate 8 0
      in case (if isalpha (peek p) then parse_by_rule p base_rule 0 vals
               else parse_by_rule p (drop 2 base_rule) 2 vals) of
           NULL \<Rightarrow> Time (-1)
         | Overrun \<Rightarrow> OutOfBounds
         | At q vals \<Rightarrow>
             rfc5322_seconds
               (blank_tm\<lparr>tm_mday := vals ! 2, tm_mon := vals ! 3, tm_year := vals ! 4,
                         tm_hour := vals ! 5, tm_min := vals ! 7\<rparr>) q vals)"

subsection \<open>The lax parser and the dates of NNTP commands\<close>

definition obs_month_rule :: rule where
  "obs_month_rule = \<lparr>r_type = TYPE_OBS_MONTH, r_delimiter = NUL, r_table = [], r_min = 3, r_max = 3\<rparr>"

definition lax_base_rule :: "rule list" where
  "lax_base_rule =
     [number_rule 1 2, obs_month_rule, number_rule 2 4, number_rule 1 2, delim_rule CHR '':'',
      number_rule 1 2]"

definition lax_seconds_rule :: "rule list" where
  "lax_seconds_rule = [delim_rule CHR '':'', number_rule 1 2]"

definition lax_zone_rule :: "rule list" where
  "lax_zone_rule = [number_rule 1 5]"

lemma number_loop_length: "number_loop p mx c v = (c', q, v') \<Longrightarrow> length q \<le> length p"
  by (induction p mx c v rule: number_loop.induct) (force split: if_splits)+

lemma advance_by_length: "advance_by n p x = At q y \<Longrightarrow> length q + n = length p \<and> y = x"
  by (auto simp: advance_by_def split: if_splits)

lemma parse_by_rule_length: "parse_by_rule p rules i vals = At q vals' \<Longrightarrow> length q \<le> length p"
proof (induction rules arbitrary: p i vals)
  case (Cons r rules)
  have skip: "length (skip_cfws x) \<le> length x" for x by (simp add: skip_cfws_def skip_cfws_length)
  show ?case
  proof (cases "r_type r = TYPE_DELIM")
    case True
    with Cons.prems have "parse_by_rule (skip_cfws (tl p)) rules (i + 1) vals = At q vals'"
      by (simp split: if_splits)
    from Cons.IH [OF this] skip [of "tl p"] show ?thesis by simp
  next
    case False
    then obtain q' v where q': "(case r_type r of TYPE_LOOKUP \<Rightarrow> parse_lookup p r
        | TYPE_OBS_MONTH \<Rightarrow> parse_legacy_month p | _ \<Rightarrow> parse_number p r) = At q' v"
      and run: "parse_by_rule (skip_cfws q') rules (i + 1) (vals[i := v]) = At q vals'"
      using Cons.prems by (auto split: scan.splits)
    have "length q' \<le> length p"
      using q' False
      by (auto simp: parse_lookup_def parse_legacy_month_def parse_number_def Let_def
          dest!: advance_by_length number_loop_length split: rule_type.splits option.splits prod.splits if_splits)
    with Cons.IH [OF run] skip [of q'] show ?thesis by simp
  qed
qed simp

declare parse_by_rule.simps(2) [simp del]

lemma index_of_Some: "index_of f xs = Some i \<Longrightarrow> i < length xs \<and> f (xs ! i)"
  by (induction xs arbitrary: i) (auto split: if_splits)

lemma zone_names: "i < length ZONE_OFFSET \<Longrightarrow> fst (ZONE_OFFSET ! i) \<noteq> []"
  "i < length OBS_ZONE_OFFSET \<Longrightarrow> fst (OBS_ZONE_OFFSET ! i) \<noteq> []"
proof -
  have "\<forall>z \<in> set ZONE_OFFSET \<union> set OBS_ZONE_OFFSET. fst z \<noteq> []"
    by (simp add: ZONE_OFFSET_def OBS_ZONE_OFFSET_def)
  then show "i < length ZONE_OFFSET \<Longrightarrow> fst (ZONE_OFFSET ! i) \<noteq> []"
    "i < length OBS_ZONE_OFFSET \<Longrightarrow> fst (OBS_ZONE_OFFSET ! i) \<noteq> []" by auto
qed

lemma parse_legacy_timezone_shorter:
  "parse_legacy_timezone p obsolete = At q x \<Longrightarrow> length q < length p"
proof -
  assume a: "parse_legacy_timezone p obsolete = At q x"
  have p: "p \<noteq> []" using a by (auto simp: parse_legacy_timezone_def)
  then have tl: "length (tl p) < length p" by simp
  show ?thesis
    using a tl zone_names
    by (auto simp: parse_legacy_timezone_def Let_def dest!: advance_by_length index_of_Some
        split: if_splits option.splits) (metis length_greater_0_conv less_add_same_cancel1)+
qed

text \<open>The zones at the end of a date: \<open>NULL\<close> is the return of \<open>-1\<close>.\<close>

function lax_zone_loop :: "string \<Rightarrow> bool \<Rightarrow> int \<Rightarrow> int list \<Rightarrow> (bool \<times> int) scan" where
  "lax_zone_loop p have_zone zone_offset vals =
     (if p = [] then At [] (have_zone, zone_offset)
      else if hd p = CHR ''-'' \<or> hd p = CHR ''+'' then
        (case parse_by_rule (tl p) lax_zone_rule 0 vals of
           NULL \<Rightarrow> NULL
         | Overrun \<Rightarrow> Overrun
         | At q vals' \<Rightarrow>
             let v = vals' ! 0;
                 offset = (if length (tl p) - length q < 3 then v * 60 * 60
                           else ((v div 100) * 60 + v mod 100) * 60)
             in lax_zone_loop (skip_cfws q) True (offset * (if hd p = CHR ''+'' then 1 else -1)) vals')
      else
        (case parse_legacy_timezone p True of
           NULL \<Rightarrow> At [] (True, 0)
         | Overrun \<Rightarrow> Overrun
         | At q offset \<Rightarrow> lax_zone_loop (skip_cfws q) True offset vals))"
  by pat_completeness auto
termination
proof (relation "measure (\<lambda>(p, h, z, v). length p)", goal_cases)
  case (2 p h z vals q vals' v offset)
  then show ?case
    using parse_by_rule_length [OF 2(3)] skip_cfws_length [of 0 q]
    by (cases p) (auto simp: skip_cfws_def)
next
  case (3 p h z vals q offset)
  then show ?case
    using parse_legacy_timezone_shorter [OF 3(3)] skip_cfws_length [of 0 q] by (auto simp: skip_cfws_def)
qed simp

declare lax_zone_loop.simps [simp del]

definition lax_finish :: "clock \<Rightarrow> tm \<Rightarrow> string \<Rightarrow> int list \<Rightarrow> parsed" where
  "lax_finish ck tm p vals =
     (case lax_zone_loop p False 0 vals of
        NULL \<Rightarrow> Time (-1)
      | Overrun \<Rightarrow> OutOfBounds
      | At _ (have_zone, zone_offset) \<Rightarrow>
          let tm = tm\<lparr>tm_year := fix_year (tm_year tm)\<rparr>
          in if \<not> valid_tm tm then Time (-1)
             else let result = (if have_zone then mktime_utc tm else mktime ck tm)
                  in Time (if result = -1 then result else result - zone_offset))"

definition parsedate_rfc5322_lax :: "clock \<Rightarrow> string \<Rightarrow> parsed" where
  "parsedate_rfc5322_lax ck date =
     (let p = dropWhile (\<lambda>c. \<not> isdigit c \<and> c \<noteq> CHR '','') (skip_cfws date);
          p = (if peek p = CHR '','' then skip_cfws (tl p) else p)
      in case parse_by_rule p lax_base_rule 0 (replicate 6 0) of
           NULL \<Rightarrow> Time (-1)
         | Overrun \<Rightarrow> OutOfBounds
         | At p vals \<Rightarrow>
             let tm = blank_tm\<lparr>tm_mday := vals ! 0, tm_mon := vals ! 1, tm_year := vals ! 2,
                               tm_hour := vals ! 3, tm_min := vals ! 5\<rparr>
             in if peek p = CHR '':'' then
                  (case parse_by_rule p lax_seconds_rule 0 vals of
                     NULL \<Rightarrow> Time (-1)
                   | Overrun \<Rightarrow> OutOfBounds
                   | At p vals \<Rightarrow> lax_finish ck (tm\<lparr>tm_sec := vals ! 1\<rparr>) p vals)
                else lax_finish ck tm p vals)"

definition two_digits :: "string \<Rightarrow> nat \<Rightarrow> int" where
  "two_digits p i = int (digit_value (p ! i)) * 10 + int (digit_value (p ! (i + 1)))"

text \<open>The current year is not before 1900, so \<^verbatim>\<open>/\<close> and \<^verbatim>\<open>%\<close> are \<open>div\<close> and \<open>mod\<close>.\<close>

definition parsedate_nntp :: "clock \<Rightarrow> string \<Rightarrow> string \<Rightarrow> bool \<Rightarrow> int" where
  "parsedate_nntp ck date hour local =
     (let datelen = length date
      in if datelen \<noteq> 6 \<and> datelen \<noteq> 8 \<or> length hour \<noteq> 6 then -1
         else if list_ex (\<lambda>c. \<not> isdigit c) date then -1
         else if list_ex (\<lambda>c. \<not> isdigit c) hour then -1
         else
           let p = drop (datelen - 6) date;
               year = two_digits p 0;
               current = (if local then localtime ck (now ck) else gmtime (now ck));
               century = tm_year current div 100;
               tm = blank_tm
                 \<lparr>tm_year :=
                    (if datelen = 8 then year + two_digits date 0 * 100 - 1900
                     else year + (if year > tm_year current mod 100 then century - 1 else century) * 100),
                  tm_mon := two_digits p 2 - 1, tm_mday := two_digits p 4,
                  tm_hour := two_digits hour 0, tm_min := two_digits hour 2,
                  tm_sec := two_digits hour 4\<rparr>
           in if \<not> valid_tm tm then -1
              else if local then mktime ck tm else mktime_utc tm)"

subsection \<open>The calendar is right\<close>

lemma years_loop_unfold:
  "years_loop i e r = (if i < e then years_loop (i + 1) e (r + year_length i) else r)"
  by (subst years_loop.simps) (simp add: year_length_def)

lemma years_loop_add: "years_loop i e r = r + years_loop i e 0"
proof (induction "nat (e - i)" arbitrary: i r rule: less_induct)
  case less
  show ?case
  proof (cases "i < e")
    case True
    then have "nat (e - (i + 1)) < nat (e - i)" by simp
    from less [OF this, of "r + year_length i"] less [OF this, of "year_length i"] True
    show ?thesis by (simp add: years_loop_unfold [of i e])
  qed (simp add: years_loop_unfold)
qed

lemma years_loop_step: "i < e \<Longrightarrow> years_loop i e 0 = year_length i + years_loop (i + 1) e 0"
  using years_loop_add [of "i + 1" e "year_length i"] by (simp add: years_loop_unfold [of i e])

lemma year_length_pos: "0 < year_length y" by (simp add: year_length_def)

lemma split_year_correct:
  assumes "split_year y d = (y', d')" "0 \<le> d"
  shows "y \<le> y' \<and> 0 \<le> d' \<and> d' < year_length y' \<and> d = years_loop y y' 0 + d'"
  using assms
proof (induction y d rule: split_year.induct)
  case (1 y d)
  show ?case
  proof (cases "d < year_length y")
    case True
    with 1 show ?thesis by (subst (asm) (3) split_year.simps) (auto simp: years_loop.simps)
  next
    case False
    with 1 have "split_year (y + 1) (d - year_length y) = (y', d')"
      by (subst (asm) (3) split_year.simps) (simp split: if_splits)
    from 1(2) [OF _ False this] False 1(4) years_loop_step [of y y'] show ?thesis by simp
  qed
qed

lemma split_month_correct:
  assumes "split_month y [k..<12] d = (m, d')" "k \<le> 12" "0 \<le> d" "d < (\<Sum>i\<leftarrow>[k..<12]. month_length y i)"
  shows "k \<le> m \<and> m < 12 \<and> 0 \<le> d' \<and> d' < month_length y m \<and> d = (\<Sum>i\<leftarrow>[k..<m]. month_length y i) + d'"
  using assms
proof (induction "12 - k" arbitrary: k d)
  case (Suc n)
  then have k: "[k..<12] = k # [Suc k..<12]" by (simp add: upt_conv_Cons)
  show ?case
  proof (cases "d < month_length y k")
    case True
    with Suc.prems k Suc.hyps(2) show ?thesis by simp
  next
    case False
    have "split_month y [Suc k..<12] (d - month_length y k) = (m, d')" using Suc.prems(1) False k by simp
    moreover have "d - month_length y k < (\<Sum>i\<leftarrow>[Suc k..<12]. month_length y i)"
      using Suc.prems(4) by (simp add: k)
    ultimately have IH: "Suc k \<le> m \<and> m < 12 \<and> 0 \<le> d' \<and> d' < month_length y m
        \<and> d - month_length y k = (\<Sum>i\<leftarrow>[Suc k..<m]. month_length y i) + d'"
      using Suc.hyps(1) [of "Suc k" "d - month_length y k"] Suc.hyps(2) False by simp
    then have "[k..<m] = k # [Suc k..<m]" by (simp add: upt_conv_Cons)
    with IH show ?thesis by simp
  qed
qed simp

lemma upt_12: "[0..<12] = [0, 1, 2, 3, 4, 5, 6, 7, 8, 9, 10, 11]"
  by (simp add: upt_rec)

lemma months_sum: "(\<Sum>i\<leftarrow>[0..<12]. month_length y i) = year_length y"
  unfolding upt_12 by (simp add: month_length_def year_length_def MONTHDAYS_def)

lemma less_12_cases: "m < 12 \<Longrightarrow>
    m = 0 \<or> m = 1 \<or> m = 2 \<or> m = 3 \<or> m = 4 \<or> m = 5 \<or> m = 6 \<or> m = 7 \<or> m = 8 \<or> m = 9 \<or> m = 10 \<or> m = (11::nat)"
  by arith

lemma months_before:
  assumes "m < 12"
  shows "foldl (+) r (take m MONTHDAYS) + (if 1 < m \<and> ISLEAP y then 1 else 0)
    = r + (\<Sum>i\<leftarrow>[0..<m]. month_length y i)"
  using less_12_cases [OF assms]
  by (elim disjE) (simp_all add: MONTHDAYS_def month_length_def upt_rec)

text \<open>A broken-down time in UTC and the fields \<open>gmtime\<close> fills it with.\<close>

lemma gmtime_fields:
  assumes "0 \<le> t"
  obtains y m d where "gmtime t = \<lparr>tm_sec = t mod 86400 mod 60, tm_min = t mod 86400 div 60 mod 60,
      tm_hour = t mod 86400 div 3600, tm_mday = d + 1, tm_mon = int m, tm_year = y - 1900,
      tm_wday = (t div 86400 + 4) mod 7, tm_yday = (\<Sum>i\<leftarrow>[0..<m]. month_length y i) + d, tm_gmtoff = 0, tm_zone = ''GMT''\<rparr>"
    "1970 \<le> y" "m < 12" "0 \<le> d" "d < month_length y m"
    "t div 86400 = years_loop 1970 y 0 + (\<Sum>i\<leftarrow>[0..<m]. month_length y i) + d"
proof -
  obtain y yd where y: "split_year 1970 (t div 86400) = (y, yd)" by fastforce
  obtain m d where m: "split_month y [0..<12] yd = (m, d)" by fastforce
  have t: "0 \<le> t div 86400" using assms by simp
  note Y = split_year_correct [OF y t]
  from split_month_correct [OF m] Y
  have M: "m < 12" "0 \<le> d" "d < month_length y m" "yd = (\<Sum>i\<leftarrow>[0..<m]. month_length y i) + d"
    unfolding months_sum by auto
  show ?thesis
    by (rule that [of d m y]) (use y m Y M in \<open>simp_all add: gmtime_def Let_def\<close>)
qed

lemma mktime_utc_gmtime:
  assumes "0 \<le> t"
  shows "mktime_utc (gmtime t) = t" "valid_tm (gmtime t)"
proof -
  obtain y m d where f: "gmtime t = \<lparr>tm_sec = t mod 86400 mod 60, tm_min = t mod 86400 div 60 mod 60,
      tm_hour = t mod 86400 div 3600, tm_mday = d + 1, tm_mon = int m, tm_year = y - 1900,
      tm_wday = (t div 86400 + 4) mod 7, tm_yday = (\<Sum>i\<leftarrow>[0..<m]. month_length y i) + d, tm_gmtoff = 0, tm_zone = ''GMT''\<rparr>"
    "1970 \<le> y" "m < 12" "0 \<le> d" "d < month_length y m"
    and days: "t div 86400 = years_loop 1970 y 0 + (\<Sum>i\<leftarrow>[0..<m]. month_length y i) + d"
    by (rule gmtime_fields [OF assms])
  define s where "s = t mod 86400"
  have s: "0 \<le> s" "s < 86400" "t = 86400 * (t div 86400) + s" by (simp_all add: s_def)
  have "60 * (60 * (s div 3600) + s div 60 mod 60) + s mod 60 = s"
  proof -
    have "s div 3600 = s div 60 div 60" by (simp add: zdiv_zmult2_eq [symmetric])
    then show ?thesis using mult_div_mod_eq [of 60 "s div 60"] mult_div_mod_eq [of 60 s] by simp
  qed
  moreover have "mktime_utc (gmtime t) = 60 * (60 * (24 * (t div 86400) + s div 3600) + s div 60 mod 60) + s mod 60"
  proof -
    have sh: "mktime_utc G = 60 * (60 * (24 * (foldl (+) (years_loop 1970 y 0) (take m MONTHDAYS)
          + (if 1 < m \<and> ISLEAP y then 1 else 0) + d) + tm_hour G) + tm_min G) + tm_sec G"
      if "tm_mon G = int m" "tm_year G = y - 1900" "tm_mday G = d + 1" for G
      using that f(2,3) by (auto simp: mktime_utc_def Let_def)
    have "foldl (+) (years_loop 1970 y 0) (take m MONTHDAYS) + (if 1 < m \<and> ISLEAP y then 1 else 0) + d
        = t div 86400" unfolding days months_before [OF f(3)] ..
    then show ?thesis by (subst sh) (simp_all only: f(1) s_def tm.simps)
  qed
  moreover have "60 * (60 * (24 * D + h) + n) + x = 86400 * D + (60 * (60 * h + n) + x)" for D h n x :: int
    by simp
  ultimately show "mktime_utc (gmtime t) = t" using s(3) by (simp only:)
  have "d + 1 \<le> MONTHDAYS ! m \<or> m = 1 \<and> d + 1 \<le> 29 \<and> ISLEAP y"
    using f(5) by (cases "m = 1 \<and> ISLEAP y") (auto simp: month_length_def MONTHDAYS_def)
  moreover have "s div 3600 \<le> 23" "s div 60 mod 60 \<le> 59" "s mod 60 \<le> 60" using s by simp_all
  ultimately show "valid_tm (gmtime t)"
    using f(2-4) by (auto simp: f(1) valid_tm_def s_def [symmetric])
qed

subsection \<open>A date that was written is read back\<close>

lemma strncasecmp_append:
  "length a = length b \<Longrightarrow> NUL \<notin> set a \<Longrightarrow>
     strncasecmp_eq a (b @ r) (length b) = (map tolower a = map tolower b)"
  by (induction a b rule: list_induct2) auto

lemma index_of_unique:
  "i < length xs \<Longrightarrow> f (xs ! i) \<Longrightarrow> (\<And>j. j < i \<Longrightarrow> \<not> f (xs ! j)) \<Longrightarrow> index_of f xs = Some i"
proof (induction xs arbitrary: i)
  case (Cons x xs)
  show ?case
  proof (cases i)
    case (Suc k)
    have "index_of f xs = Some k" using Cons.prems Suc by (intro Cons.IH) force+
    moreover have "\<not> f x" using Cons.prems(3) [of 0] Suc by simp
    ultimately show ?thesis using Suc by simp
  qed (use Cons.prems in simp)
qed simp

definition abbreviations :: "string list \<Rightarrow> bool" where
  "abbreviations tab \<longleftrightarrow> distinct (map (map tolower) tab)
     \<and> list_all (\<lambda>w. length w = 3 \<and> NUL \<notin> set w \<and> list_all isalpha w) tab"

lemma abbreviations_tables: "abbreviations WEEKDAY" "abbreviations MONTH"
  by (simp_all add: abbreviations_def WEEKDAY_def MONTH_def tolower_def ctype char_of_def)

lemma table_lengths: "length WEEKDAY = 7" "length MONTH = 12"
  by (simp_all add: WEEKDAY_def MONTH_def)

lemma parse_lookup_word:
  assumes "abbreviations tab" "i < length tab"
  shows "parse_lookup (tab ! i @ r) (lookup_rule tab) = At r (int i)"
proof -
  have l: "length w = 3" "NUL \<notin> set w" if "w \<in> set tab" for w
    using that assms(1) by (auto simp: abbreviations_def list_all_iff)
  have m: "strncasecmp_eq w (tab ! i @ r) 3 = (map tolower w = map tolower (tab ! i))" if "w \<in> set tab" for w
    using strncasecmp_append [of w "tab ! i" r] l [OF that] l [of "tab ! i"] assms(2) by simp
  have "index_of (\<lambda>e. strncasecmp_eq e (tab ! i @ r) 3) tab = Some i"
  proof (rule index_of_unique)
    fix j assume "j < i"
    then show "\<not> strncasecmp_eq (tab ! j) (tab ! i @ r) 3"
      using m [of "tab ! j"] assms nth_eq_iff_index_eq [of "map (map tolower) tab" j i]
      by (simp add: abbreviations_def)
  qed (use assms m in auto)
  with l [of "tab ! i"] assms(2) show ?thesis
    by (simp add: parse_lookup_def lookup_rule_def advance_by_def)
qed

lemma number_loop_digits:
  "\<forall>c \<in> set s. isdigit c \<Longrightarrow> n + length s \<le> mx \<Longrightarrow>
     number_loop (s @ r) mx n v = number_loop r mx (n + length s) (v * 10 ^ length s + int (dec_value s))"
proof (induction s arbitrary: n v)
  case (Cons c s)
  have "dec_value (c # s) = digit_value c * 10 ^ length s + dec_value s"
  proof (induction s rule: rev_induct)
    case Nil
    show ?case using dec_value_simps(2) [of "[]" c] by simp
  next
    case (snoc x s)
    then show ?case using dec_value_simps(2) [of "c # s" x] by simp
  qed
  with Cons show ?case by (simp add: algebra_simps)
qed simp

lemma parse_number_digits:
  assumes "\<forall>c \<in> set s. isdigit c" "mn \<le> length s" "length s \<le> mx" "length s = mx \<or> \<not> isdigit (peek r)"
  shows "parse_number (s @ r) (number_rule mn mx) = At r (int (dec_value s))"
proof -
  have "number_loop r mx (length s) v = (length s, r, v)" for v
    using assms(3,4) by (cases r) auto
  with assms number_loop_digits [of s 0 mx r 0] show ?thesis
    by (simp add: parse_number_def number_rule_def)
qed

lemma fmt_d_nat: "0 \<le> i \<Longrightarrow> fmt_d i = show_nat (nat i)"
  by (simp add: fmt_d_def)

lemma fmt_d_facts:
  assumes "0 \<le> i"
  shows "\<forall>c \<in> set (fmt_d i). isdigit c" "int (dec_value (fmt_d i)) = i" "fmt_d i \<noteq> []"
    "i < 100 \<Longrightarrow> length (fmt_d i) \<le> 2" "1000 \<le> i \<Longrightarrow> i < 10000 \<Longrightarrow> length (fmt_d i) = 4"
proof -
  show "\<forall>c \<in> set (fmt_d i). isdigit c" "int (dec_value (fmt_d i)) = i" "fmt_d i \<noteq> []"
    using assms show_nat_facts by (simp_all add: fmt_d_nat)
  show "i < 100 \<Longrightarrow> length (fmt_d i) \<le> 2" using assms length_show_nat [of "nat i" 1] by (simp add: fmt_d_nat nat_less_iff numeral_2_eq_2)
  show "1000 \<le> i \<Longrightarrow> i < 10000 \<Longrightarrow> length (fmt_d i) = 4"
  proof -
    assume i: "1000 \<le> i" "i < 10000"
    have "nat i < 10 ^ length (show_nat (nat i))"
      using dec_value_bound [of "show_nat (nat i)"] by (simp add: show_nat_facts)
    moreover have "10 ^ 3 \<le> nat i" using i by simp
    ultimately have "10 ^ 3 < (10::nat) ^ length (show_nat (nat i))" by (rule le_less_trans [rotated])
    then have "3 < length (show_nat (nat i))" using power_less_imp_less_exp [of 10 3] by auto
    with i length_show_nat [of "nat i" 3] show ?thesis by (simp add: fmt_d_nat nat_less_iff)
  qed
qed

lemma fmt_02d_facts:
  assumes "0 \<le> i" "i < 100"
  shows "\<forall>c \<in> set (fmt_02d i). isdigit c" "int (dec_value (fmt_02d i)) = i" "length (fmt_02d i) = 2"
proof -
  note f = fmt_d_facts [OF assms(1)]
  have z: "dec_value (CHR ''0'' # s) = dec_value s" for s
    by (simp add: dec_value_def digit_value_def)
  show "\<forall>c \<in> set (fmt_02d i). isdigit c" "int (dec_value (fmt_02d i)) = i"
    using f(1,2) z by (simp_all add: fmt_02d_def Let_def isdigit_def)
  show "length (fmt_02d i) = 2" using f(3,4) assms(2) by (cases "fmt_d i") (auto simp: fmt_02d_def Let_def le_Suc_eq)
qed

lemma skip_blank:
  assumes "visible r"
  shows "skip_cfws (SP # r) = r" "skip_cfws r = r"
  using skip_cfws_prefix [of "[SP]" r] skip_cfws_visible [OF assms] by (simp_all add: cfws.intros)

lemma visible_digit: "c \<in> set (fmt_d i @ fmt_02d i) \<Longrightarrow> 0 \<le> i \<Longrightarrow> i < 100 \<Longrightarrow> isdigit c"
  using fmt_d_facts(1) fmt_02d_facts(1) by auto

lemma isdigit_visible: "isdigit c \<Longrightarrow> visible (c # r)"
  by (auto simp: visible_def ctype)

lemma isalpha_visible: "isalpha c \<Longrightarrow> visible (c # r)"
  by (auto simp: visible_def ctype)

text \<open>One rule at a time: a number that is followed by a separator, and a word of a table.\<close>

lemma rule_number:
  assumes "\<forall>c \<in> set s. isdigit c" "mn \<le> length s" "length s \<le> mx" "length s = mx \<or> \<not> isdigit (peek r)"
  shows "parse_by_rule (s @ r) (number_rule mn mx # rules) i vals
    = parse_by_rule (skip_cfws r) rules (i + 1) (vals[i := int (dec_value s)])"
  using parse_number_digits [OF assms] by (simp add: number_rule_def parse_by_rule.simps(2))

lemma rule_lookup:
  assumes "abbreviations tab" "j < length tab"
  shows "parse_by_rule (tab ! j @ r) (lookup_rule tab # rules) i vals
    = parse_by_rule (skip_cfws r) rules (i + 1) (vals[i := int j])"
  using parse_lookup_word [OF assms] by (simp add: lookup_rule_def parse_by_rule.simps(2))

lemma rule_delim: "parse_by_rule (c # r) (delim_rule c # rules) i vals
    = parse_by_rule (skip_cfws r) rules (i + 1) vals"
  by (simp add: delim_rule_def parse_by_rule.simps(2))

lemma rule_end: "parse_by_rule p [] i vals = At p vals" by simp

lemma word_visible:
  assumes "abbreviations tab" "j < length tab"
  shows "visible (tab ! j @ r)" "isalpha (peek (tab ! j @ r))" "length (tab ! j) = 3"
proof -
  have w: "length (tab ! j) = 3" "list_all isalpha (tab ! j)"
    using assms by (auto simp: abbreviations_def list_all_iff)
  then obtain c w' where "tab ! j = c # w'" "isalpha c" by (cases "tab ! j") auto
  then show "visible (tab ! j @ r)" "isalpha (peek (tab ! j @ r))" "length (tab ! j) = 3"
    using isalpha_visible w by simp_all
qed

lemma digits_visible:
  assumes "\<forall>c \<in> set s. isdigit c" "s \<noteq> []"
  shows "visible (s @ r)"
  using assms isdigit_visible by (cases s) auto

text \<open>The zone of a date, its comment included.\<close>

definition zone_text :: "int \<Rightarrow> int \<Rightarrow> int \<Rightarrow> string" where
  "zone_text sg h m = (if sg > 0 then ''+'' else ''-'') @ fmt_02d h @ fmt_02d m"

lemma rfc5322_zone_text:
  assumes "0 \<le> h" "h < 100" "0 \<le> m" "m < 100" "skip_cfws r = []" "\<not> isdigit (peek r)" "2 \<le> length vals"
  shows "rfc5322_zone tm (zone_text sg h m @ r) vals
    = rfc5322_finish tm [] ((h * 60 + m) * 60 * (if sg > 0 then 1 else -1))"
proof -
  note H = fmt_02d_facts [OF assms(1,2)] and M = fmt_02d_facts [OF assms(3,4)]
  have vis: "skip_cfws (fmt_02d m @ r) = fmt_02d m @ r"
    using M by (intro skip_blank(2) digits_visible) auto
  have "parse_by_rule (fmt_02d h @ fmt_02d m @ r) zone_rule 0 vals = At [] ((vals[0 := h])[1 := m])"
    unfolding zone_rule_def
    by (subst rule_number, use H in simp_all)
      (simp only: vis, subst rule_number, use M assms(5) in simp_all)
  moreover have "vals[0 := h] ! 0 = h" using assms(7) by (cases vals) auto
  ultimately show ?thesis using assms(7) by (simp add: rfc5322_zone_def zone_text_def)
qed

definition date_fields :: "tm \<Rightarrow> bool" where
  "date_fields t \<longleftrightarrow> 0 \<le> tm_wday t \<and> tm_wday t < 7 \<and> 1 \<le> tm_mday t \<and> tm_mday t \<le> 31
     \<and> 0 \<le> tm_mon t \<and> tm_mon t < 12 \<and> 1000 \<le> 1900 + tm_year t \<and> tm_year t < 8100
     \<and> 0 \<le> tm_hour t \<and> tm_hour t < 24 \<and> 0 \<le> tm_min t \<and> tm_min t < 60 \<and> 0 \<le> tm_sec t \<and> tm_sec t < 61"

lemma length_date_text:
  assumes "date_fields t" "0 \<le> h" "h < 100" "0 \<le> m" "m < 100"
  shows "length (date_text t sg h m) \<le> 31"
proof -
  have w: "length (WEEKDAY ! nat (tm_wday t)) = 3" "length (MONTH ! nat (tm_mon t)) = 3"
    using assms(1) by (auto intro!: word_visible(3) abbreviations_tables simp: date_fields_def table_lengths)
  have d: "length (fmt_d (tm_mday t)) \<le> 2" "length (fmt_d (1900 + tm_year t)) = 4"
    "length (fmt_02d (tm_hour t)) = 2" "length (fmt_02d (tm_min t)) = 2" "length (fmt_02d (tm_sec t)) = 2"
    "length (fmt_02d h) = 2" "length (fmt_02d m) = 2"
    using assms by (simp_all add: date_fields_def fmt_d_facts fmt_02d_facts)
  show ?thesis using w d by (simp add: date_text_def)
qed

lemma parse_date_text:
  assumes ok: "date_fields t" and z: "0 \<le> h" "h < 100" "0 \<le> m" "m < 100"
    and r: "skip_cfws r = []" "\<not> isdigit (peek r)"
  shows "parsedate_rfc5322 (date_text t sg h m @ r)
    = rfc5322_finish (blank_tm\<lparr>tm_sec := tm_sec t, tm_min := tm_min t, tm_hour := tm_hour t,
         tm_mday := tm_mday t, tm_mon := tm_mon t, tm_year := 1900 + tm_year t\<rparr>) []
        ((h * 60 + m) * 60 * (if sg > 0 then 1 else -1))"
proof -
  define zone where "zone = zone_text sg h m @ r"
  define secs where "secs = CHR '':'' # fmt_02d (tm_sec t) @ SP # zone"
  define mins where "mins = fmt_02d (tm_min t) @ secs"
  define hour where "hour = fmt_02d (tm_hour t) @ CHR '':'' # mins"
  define year where "year = fmt_d (1900 + tm_year t) @ SP # hour"
  define mon where "mon = MONTH ! nat (tm_mon t) @ SP # year"
  define day where "day = fmt_d (tm_mday t) @ SP # mon"
  have tx: "date_text t sg h m @ r = WEEKDAY ! nat (tm_wday t) @ CHR '','' # SP # day"
    by (simp add: date_text_def day_def mon_def year_def hour_def mins_def secs_def zone_def zone_text_def)
  have f: "0 \<le> tm_mday t" "0 \<le> 1900 + tm_year t" "tm_mday t < 100" "1000 \<le> 1900 + tm_year t"
    "1900 + tm_year t < 10000"
    "0 \<le> tm_hour t" "tm_hour t < 100" "0 \<le> tm_min t" "tm_min t < 100" "0 \<le> tm_sec t" "tm_sec t < 100"
    using ok by (simp_all add: date_fields_def)
  note D = fmt_d_facts [OF f(1)] and Y = fmt_d_facts [OF f(2)]
    and H = fmt_02d_facts [OF f(6,7)] and M = fmt_02d_facts [OF f(8,9)] and S = fmt_02d_facts [OF f(10,11)]
  have len1: "1 \<le> length (fmt_d (tm_mday t))" using D(3) by (cases "fmt_d (tm_mday t)") auto
  have wd: "nat (tm_wday t) < length WEEKDAY" and mo: "nat (tm_mon t) < length MONTH"
    using ok by (auto simp: date_fields_def table_lengths nat_less_iff)
  have vis: "visible zone" "visible secs" "visible mins" "visible hour" "visible year" "visible mon" "visible day"
    using H M S D Y f unfolding mins_def hour_def year_def day_def mon_def
    by (auto intro!: digits_visible word_visible(1) abbreviations_tables mo)
      (simp_all add: zone_def zone_text_def secs_def visible_def)
  note sk = skip_blank [OF vis(1)] skip_blank [OF vis(2)] skip_blank [OF vis(3)] skip_blank [OF vis(4)]
    skip_blank [OF vis(5)] skip_blank [OF vis(6)] skip_blank [OF vis(7)]
  have comma: "skip_cfws (CHR '','' # u) = CHR '','' # u" "skip_cfws (CHR '':'' # u) = CHR '':'' # u" for u
    by (rule skip_blank(2); simp add: visible_def)+
  have Rwd: "parse_by_rule (WEEKDAY ! nat (tm_wday t) @ CHR '','' # SP # day)
      (lookup_rule WEEKDAY # delim_rule CHR '','' # rules) 0 vals = parse_by_rule day rules 2 (vals[0 := tm_wday t])" for rules vals
    using ok by (simp add: rule_lookup [OF abbreviations_tables(1) wd] comma rule_delim sk date_fields_def numeral_2_eq_2)
  have Rday: "parse_by_rule day (number_rule 1 2 # rules) i vals = parse_by_rule mon rules (Suc i) (vals[i := tm_mday t])" for rules i vals
    unfolding day_def by (subst rule_number) (use D len1 f sk in \<open>auto simp: isdigit_def\<close>)
  have Rmon: "parse_by_rule mon (lookup_rule MONTH # rules) i vals = parse_by_rule year rules (Suc i) (vals[i := tm_mon t])" for rules i vals
    unfolding mon_def by (subst rule_lookup [OF abbreviations_tables(2) mo]) (use ok sk in \<open>simp add: date_fields_def\<close>)
  have Ryear: "parse_by_rule year (number_rule 2 4 # rules) i vals = parse_by_rule hour rules (Suc i) (vals[i := 1900 + tm_year t])" for rules i vals
    unfolding year_def by (subst rule_number) (use Y f sk in auto)
  have Rhour: "parse_by_rule hour (number_rule 2 2 # delim_rule CHR '':'' # rules) i vals
      = parse_by_rule mins rules (Suc (Suc i)) (vals[i := tm_hour t])" for rules i vals
    unfolding hour_def by (subst rule_number) (use H comma sk in \<open>simp_all add: rule_delim\<close>)
  have Rmins: "parse_by_rule mins [number_rule 2 2] i vals = At secs (vals[i := tm_min t])" for i vals
    unfolding mins_def by (subst rule_number) (use M sk in simp_all)
  have "skip_cfws (fmt_02d (tm_sec t) @ SP # zone) = fmt_02d (tm_sec t) @ SP # zone"
    using S by (intro skip_blank(2) digits_visible) auto
  then have Rsecs: "parse_by_rule secs seconds_rule 0 vals = At zone (vals[Suc 0 := tm_sec t])" for vals
    unfolding secs_def seconds_rule_def rule_delim
    by (simp only:) (subst rule_number, use S sk in simp_all)
  have base: "parse_by_rule (WEEKDAY ! nat (tm_wday t) @ CHR '','' # SP # day) base_rule 0 (replicate 8 0)
    = At secs [tm_wday t, 0, tm_mday t, tm_mon t, 1900 + tm_year t, tm_hour t, 0, tm_min t]"
    unfolding base_rule_def Rwd Rday Rmon Ryear Rhour Rmins by (simp add: numeral_eq_Suc)
  have start: "skip_cfws (date_text t sg h m @ r) = WEEKDAY ! nat (tm_wday t) @ CHR '','' # SP # day"
    "isalpha (peek (WEEKDAY ! nat (tm_wday t) @ CHR '','' # SP # day))"
    unfolding tx using word_visible(1,2) [OF abbreviations_tables(1) wd] by (simp_all add: skip_blank(2))
  have zn: "rfc5322_zone tm zone vals = rfc5322_finish tm [] ((h * 60 + m) * 60 * (if sg > 0 then 1 else -1))"
    if "2 \<le> length vals" for tm vals
    unfolding zone_def by (rule rfc5322_zone_text [OF z r that])
  have ps: "peek secs = CHR '':''" by (simp add: secs_def)
  show ?thesis
    by (simp add: parsedate_rfc5322_def Let_def start base rfc5322_seconds_def ps Rsecs zn blank_tm_def)
qed

lemma gmtime_date_fields:
  assumes "0 \<le> t" "tm_year (gmtime t) \<le> 8099"
  shows "date_fields (gmtime t)"
proof -
  obtain y m d where f: "gmtime t = \<lparr>tm_sec = t mod 86400 mod 60, tm_min = t mod 86400 div 60 mod 60,
      tm_hour = t mod 86400 div 3600, tm_mday = d + 1, tm_mon = int m, tm_year = y - 1900,
      tm_wday = (t div 86400 + 4) mod 7, tm_yday = (\<Sum>i\<leftarrow>[0..<m]. month_length y i) + d, tm_gmtoff = 0, tm_zone = ''GMT''\<rparr>"
    "1970 \<le> y" "m < 12" "0 \<le> d" "d < month_length y m"
    by (rule gmtime_fields [OF assms(1)])
  have "month_length y m \<le> 31"
    using less_12_cases [OF f(3)] by (elim disjE) (simp_all add: month_length_def MONTHDAYS_def)
  moreover have "t mod 86400 div 3600 < 24"
    by simp
  ultimately show ?thesis
    using f(2-5) assms(2)
    by (simp add: date_fields_def f(1) pos_imp_zdiv_nonneg_iff)
qed

definition in_zone :: "clock \<Rightarrow> int \<Rightarrow> int \<Rightarrow> string \<Rightarrow> bool" where
  "in_zone ck t offset name \<longleftrightarrow>
     localtime ck t = (gmtime (t + offset))\<lparr>tm_gmtoff := offset, tm_zone := name\<rparr>
     \<and> offset mod 60 = 0 \<and> \<bar>offset\<bar> < 25 * 3600 \<and> 0 \<le> t + offset
     \<and> set name \<inter> {CHR ''('', CHR '')'', BACKSLASH} = {}"

lemma plain_comment: "set z \<inter> {CHR ''('', CHR '')'', BACKSLASH} = {} \<Longrightarrow> comment_text z"
  by (induction z) (auto intro: comment_text.intros)

lemma zone_comment:
  assumes "set z \<inter> {CHR ''('', CHR '')'', BACKSLASH} = {}"
  shows "skip_cfws ('' ('' @ z @ '')'') = []"
proof -
  have "cfws ('' ('' @ z @ '')'')"
    using cfws.comment [OF plain_comment [OF assms] cfws.nil] by (auto intro: cfws.white)
  from skip_cfws_prefix [OF this, of "[]"] show ?thesis by (simp add: skip_cfws_def)
qed

lemma split_offset:
  fixes a :: int
  assumes "0 \<le> a" "a mod 60 = 0" "a < 25 * 3600"
  shows "(a div 3600 * 60 + a mod 3600 div 60) * 60 = a" "0 \<le> a div 3600" "a div 3600 \<le> 24"
    "0 \<le> a mod 3600 div 60" "a mod 3600 div 60 < 60"
proof -
  obtain b where b: "a = 60 * b" using assms(2) by auto
  have "60 * b div 3600 = b div 60" "60 * b mod 3600 = 60 * (b mod 60)"
    using div_mult_mult1 [of 60 b 60] mult_mod_right [of 60 b 60] by simp_all
  moreover have "b div 60 \<le> 24" "0 \<le> b div 60" "0 \<le> b mod 60" "b mod 60 < 60" using b assms by simp_all
  ultimately
  show "(a div 3600 * 60 + a mod 3600 div 60) * 60 = a" "0 \<le> a div 3600" "a div 3600 \<le> 24"
    "0 \<le> a mod 3600 div 60" "a mod 3600 div 60 < 60"
    using b mult_div_mod_eq [of 60 b] by simp_all
qed

lemma rfc5322_finish_gmtime:
  assumes "0 \<le> u" "date_fields (gmtime u)"
  shows "rfc5322_finish (blank_tm\<lparr>tm_sec := tm_sec (gmtime u), tm_min := tm_min (gmtime u), tm_hour := tm_hour (gmtime u),
      tm_mday := tm_mday (gmtime u), tm_mon := tm_mon (gmtime u), tm_year := 1900 + tm_year (gmtime u)\<rparr>) [] z
    = Time (u - z)"
proof -
  have same: "mktime_utc (blank_tm\<lparr>tm_sec := tm_sec G, tm_min := tm_min G, tm_hour := tm_hour G,
      tm_mday := tm_mday G, tm_mon := tm_mon G, tm_year := tm_year G\<rparr>) = mktime_utc G"
    "valid_tm (blank_tm\<lparr>tm_sec := tm_sec G, tm_min := tm_min G, tm_hour := tm_hour G,
      tm_mday := tm_mday G, tm_mon := tm_mon G, tm_year := tm_year G\<rparr>) = valid_tm G" for G
    by (auto simp: mktime_utc_def valid_tm_def Let_def)
  have "70 \<le> tm_year (gmtime u)" using mktime_utc_gmtime(2) [OF assms(1)] by (simp add: valid_tm_def split: if_splits)
  then have "fix_year (1900 + tm_year (gmtime u)) = tm_year (gmtime u)" by (simp add: fix_year_def)
  then show ?thesis
    using mktime_utc_gmtime [OF assms(1)] assms(1) same [of "gmtime u"]
    by (simp add: rfc5322_finish_def Let_def skip_cfws_def)
qed

text \<open>C25: every date that is written for a time from 1970 to the year 9999, in UTC or in a local zone
  whose offset is a number of minutes below 25 hours, fits the buffer and is read back by the strict
  parser as the same time, with or without the comment that names the zone.\<close>

theorem makedate_parsedate_roundtrip:
  assumes "32 \<le> buflen" and "0 \<le> t" and "local \<longrightarrow> in_zone ck t offset name"
    and "tm_year (gmtime (if local then t + offset else t)) \<le> 8099"
  shows "\<exists>s. makedate ck t local buflen = Some s \<and> length s < buflen \<and> parsedate_rfc5322 s = Time t"
proof -
  define u where "u = (if local then t + offset else t)"
  define off where "off = (if local then offset else 0)"
  define sg :: int where "sg = (if local \<and> \<not> offset < 0 then 1 else -1)"
  define h where "h = \<bar>off\<bar> div 3600"
  define m where "m = \<bar>off\<bar> mod 3600 div 60"
  define nm where "nm = (if local then name else ''UTC'')"
  have u: "0 \<le> u" "date_fields (gmtime u)"
    using assms gmtime_date_fields [of u] by (auto simp: u_def in_zone_def)
  have a: "0 \<le> \<bar>off\<bar>" "\<bar>off\<bar> mod 60 = 0" "\<bar>off\<bar> < 25 * 3600"
    using assms(3) by (auto simp: off_def in_zone_def abs_if zmod_zminus1_eq_if)
  note hm = split_offset [OF a, folded h_def m_def]
  have bound: "h < 100" "m < 100" using hm by simp_all
  let ?b = "date_text (gmtime u) sg h m"
  have len: "length ?b \<le> 31" by (rule length_date_text) (use u hm bound in auto)
  have same: "date_text (G\<lparr>tm_gmtoff := x, tm_zone := y\<rparr>) p q r = date_text G p q r" for G x y p q r
    by (simp add: date_text_def)
  have made: "makedate ck t local buflen =
      Some (if length ?b + 4 + length nm \<le> buflen then ?b @ '' ('' @ nm @ '')'' else ?b)"
  proof -
    have t: "(if t = -1 then now ck else t) = t" using assms(2) by simp
    have tk: "take (buflen - 1) ?b = ?b" using len assms(1) by simp
    show ?thesis
    proof (cases local)
      case True
      then have lt: "localtime ck t = (gmtime u)\<lparr>tm_gmtoff := offset, tm_zone := name\<rparr>"
        using assms(3) by (simp add: in_zone_def u_def)
      have "\<bar>offset\<bar> = offset * (if offset < 0 then -1 else 1)" by simp
      then have sgn: "(if offset < 0 then - 1 else 1) = sg" "offset * sg = \<bar>off\<bar>" using True
        by (simp_all add: sg_def off_def)
      show ?thesis
        using True hm(3) assms(1) tk
        by (simp add: makedate_def Let_def local_tz_offset_def t lt same sgn h_def m_def nm_def)
    next
      case False
      with hm(3) assms(1) t tk show ?thesis
        by (simp add: makedate_def Let_def sg_def h_def m_def off_def nm_def u_def)
    qed
  qed
  have nm: "set nm \<inter> {CHR ''('', CHR '')'', BACKSLASH} = {}"
    using assms(3) by (auto simp: nm_def in_zone_def)
  have "(h * 60 + m) * 60 * (if sg > 0 then 1 else -1) = off"
    unfolding hm(1) by (auto simp: sg_def off_def)
  then have rd: "parsedate_rfc5322 (?b @ r) = Time t" if "skip_cfws r = []" "\<not> isdigit (peek r)" for r
    using parse_date_text [OF u(2) hm(2) bound(1) hm(4) bound(2) that] rfc5322_finish_gmtime [OF u]
    by (simp add: u_def off_def)
  show ?thesis
    using made len assms(1) rd [of "[]"] rd [of "'' ('' @ nm @ '')''"] zone_comment [OF nm]
    by (auto simp: skip_cfws_def isdigit_def)
qed

theorem makedate_parsedate_roundtrip_witness:
  "\<exists>s. makedate \<lparr>now = 0, localtime = (\<lambda>t. (gmtime (t + (-12600)))\<lparr>tm_gmtoff := -12600, tm_zone := ''NST''\<rparr>),
        mktime = (\<lambda>_. -1)\<rparr> 1000000000 True 40 = Some s \<and> length s < 40 \<and> parsedate_rfc5322 s = Time 1000000000"
  by (rule makedate_parsedate_roundtrip [where offset = "-12600" and name = "''NST''"])
    (simp_all add: in_zone_def, code_simp)

subsection \<open>The offset computed without \<^verbatim>\<open>tm_gmtoff\<close>\<close>

lemma years_loop_last: "i \<le> e \<Longrightarrow> years_loop i (e + 1) 0 = years_loop i e 0 + year_length e"
proof (induction "nat (e - i)" arbitrary: i rule: less_induct)
  case less
  show ?case
  proof (cases "i = e")
    case True
    then show ?thesis by (simp add: years_loop_unfold [of e] years_loop_unfold [of "e + 1"])
  next
    case False
    with less.prems have "nat (e - (i + 1)) < nat (e - i)" "i + 1 \<le> e" "i < e" by auto
    with less.hyps [of "i + 1"] show ?thesis
      using years_loop_step [of i e] years_loop_step [of i "e + 1"] by simp
  qed
qed

lemma years_loop_mono: "i \<le> e \<Longrightarrow> e \<le> e' \<Longrightarrow> years_loop i e 0 \<le> years_loop i e' 0"
proof (induction "nat (e' - e)" arbitrary: e')
  case (Suc n)
  then have "n = nat ((e' - 1) - e)" "e \<le> e' - 1" by auto
  with Suc.hyps(1) [of "e' - 1"] Suc.prems years_loop_last [of i "e' - 1"] year_length_pos [of "e' - 1"]
  show ?case by simp
qed simp

text \<open>Days of two years and their numbers within the year.\<close>

lemma yday_difference:
  assumes a: "D0 = years_loop 1970 y0 0 + d0" "0 \<le> d0" "d0 < year_length y0" "1970 \<le> y0"
    and b: "D1 = years_loop 1970 y1 0 + d1" "0 \<le> d1" "d1 < year_length y1" "1970 \<le> y1"
    and near: "D1 = D0 \<or> D1 = D0 + 1"
  shows "D1 = D0 \<and> d1 = d0 \<or> D1 = D0 + 1 \<and> (d1 = d0 + 1 \<or> d1 - d0 < -1)"
proof -
  consider "y0 = y1" | "y0 + 1 \<le> y1" | "y1 + 1 \<le> y0" by linarith
  then show ?thesis
  proof cases
    case 1
    with a b near show ?thesis by auto
  next
    case 2
    with years_loop_mono [of 1970 "y0 + 1" y1] years_loop_last [of 1970 y0] a b near year_length_pos [of y0]
    have "D1 = D0 + 1" "d0 = year_length y0 - 1" "d1 = 0" by auto
    then show ?thesis by (simp add: year_length_def)
  next
    case 3
    with years_loop_mono [of 1970 "y1 + 1" y0] years_loop_last [of 1970 y1] a b near
    show ?thesis by auto
  qed
qed

lemma gmtime_select:
  "tm_yday (gmtime t) = snd (split_year 1970 (t div 86400))" "tm_hour (gmtime t) = t mod 86400 div 3600"
  "tm_min (gmtime t) = t mod 86400 div 60 mod 60"
  by (simp_all add: gmtime_def Let_def case_prod_beta del: split_month.simps)

lemma gmtime_yday:
  assumes "0 \<le> t"
  obtains y where "t div 86400 = years_loop 1970 y 0 + tm_yday (gmtime t)" "0 \<le> tm_yday (gmtime t)"
    "tm_yday (gmtime t) < year_length y" "1970 \<le> y"
proof -
  obtain y yd where y: "split_year 1970 (t div 86400) = (y, yd)" by fastforce
  have "0 \<le> t div 86400" using assms by simp
  from split_year_correct [OF y this] that [of y] y show ?thesis by (simp add: gmtime_select)
qed

lemma gmtime_minutes: "tm_hour (gmtime t) * 60 + tm_min (gmtime t) = t mod 86400 div 60"
proof -
  have "t mod 86400 div 3600 = t mod 86400 div 60 div 60" by (simp add: zdiv_zmult2_eq [symmetric])
  then show ?thesis
    using mult_div_mod_eq [of 60 "t mod 86400 div 60"] by (simp add: gmtime_select)
qed

lemma same_remainder:
  fixes a b :: int
  assumes "a mod m = b mod m" shows "a - b = m * (a div m - b div m)"
  using assms minus_mod_eq_mult_div [of a m] minus_mod_eq_mult_div [of b m] by (simp add: right_diff_distrib)

lemma local_tz_offset_portable_exact:
  assumes "in_zone ck t offset name" "0 \<le> t" "\<bar>offset\<bar> < 86400"
  shows "local_tz_offset_portable ck t = offset"
proof -
  let ?u = "t + offset"
  have u: "0 \<le> ?u" "offset mod 60 = 0" "localtime ck t = (gmtime ?u)\<lparr>tm_gmtoff := offset, tm_zone := name\<rparr>"
    using assms(1) by (auto simp: in_zone_def)
  obtain y0 where y0: "t div 86400 = years_loop 1970 y0 0 + tm_yday (gmtime t)" "0 \<le> tm_yday (gmtime t)"
    "tm_yday (gmtime t) < year_length y0" "1970 \<le> y0" by (rule gmtime_yday [OF assms(2)])
  obtain y1 where y1: "?u div 86400 = years_loop 1970 y1 0 + tm_yday (gmtime ?u)" "0 \<le> tm_yday (gmtime ?u)"
    "tm_yday (gmtime ?u) < year_length y1" "1970 \<le> y1" by (rule gmtime_yday [OF u(1)])
  define dd where "dd = ?u div 86400 - t div 86400"
  have split: "t = 86400 * (t div 86400) + t mod 86400" "?u = 86400 * (?u div 86400) + ?u mod 86400" by simp_all
  have m: "0 \<le> t mod 86400" "t mod 86400 < 86400" "0 \<le> ?u mod 86400" "?u mod 86400 < 86400" by simp_all
  have near: "?u div 86400 = t div 86400 \<or> ?u div 86400 = t div 86400 + 1 \<or> t div 86400 = ?u div 86400 + 1"
    using split m assms(3) by linarith
  have day: "(let o1 = tm_yday (gmtime ?u) - tm_yday (gmtime t)
      in if o1 < -1 then 24 else if o1 > 1 then -24 else o1 * 24) = 24 * dd"
    using near yday_difference [OF y0 y1] yday_difference [OF y1 y0] unfolding dd_def by (auto simp: Let_def)
  have mins: "?u mod 86400 - t mod 86400 = 60 * (?u mod 86400 div 60 - t mod 86400 div 60)"
  proof -
    have "?u mod 86400 mod 60 = t mod 86400 mod 60"
    proof -
      obtain k where "offset = 60 * k" using u(2) by auto
      then show ?thesis by (simp add: mod_mod_cancel)
    qed
    then show ?thesis by (rule same_remainder)
  qed
  have "local_tz_offset_portable ck t = ((24 * dd + (tm_hour (gmtime ?u) - tm_hour (gmtime t))) * 60
      + (tm_min (gmtime ?u) - tm_min (gmtime t))) * 60"
    unfolding local_tz_offset_portable_def using day by (simp add: u(3) Let_def split: if_splits)
  also have "\<dots> = 86400 * dd + 60 * (?u mod 86400 div 60 - t mod 86400 div 60)"
    using gmtime_minutes [of ?u] gmtime_minutes [of t] by simp
  also have "\<dots> = offset"
  proof -
    have "x = A * 86400 + a \<Longrightarrow> x + y = B * 86400 + b \<Longrightarrow> b - a = c \<Longrightarrow> 86400 * (B - A) + c = y"
      for x y A B a b c :: int by simp
    from this [of t _ _ offset, OF _ _ mins] show ?thesis unfolding dd_def by simp
  qed
  finally show ?thesis .
qed

subsection \<open>NNTP dates\<close>

lemma two_digits_fmt:
  assumes "0 \<le> i" "i < 100"
  shows "two_digits (fmt_02d i @ r) 0 = i" "two_digits (a # b # fmt_02d i @ r) 2 = i"
    "two_digits (a # b # c # d # fmt_02d i @ r) 4 = i"
proof -
  obtain x y where xy: "fmt_02d i = [x, y]"
    using fmt_02d_facts(3) [OF assms] by (auto simp: numeral_2_eq_2 length_Suc_conv)
  moreover have "int (digit_value x) * 10 + int (digit_value y) = i"
    using fmt_02d_facts(2) [OF assms] dec_value_simps(2) [of "[x]" y] dec_value_simps(2) [of "[]" x] by (simp add: xy)
  ultimately show "two_digits (fmt_02d i @ r) 0 = i" "two_digits (a # b # fmt_02d i @ r) 2 = i"
    "two_digits (a # b # c # d # fmt_02d i @ r) 4 = i"
    by (simp_all add: two_digits_def numeral_eq_Suc)
qed

lemma century_window:
  fixes x n :: int
  assumes "n - 100 < x" "x \<le> n"
  shows "x mod 100 + (if x mod 100 > n mod 100 then n div 100 - 1 else n div 100) * 100 = x"
proof -
  have d: "100 * p + s = 100 * (if s > r then q - 1 else q) + s"
    if "100 * q + r - 100 < 100 * p + s" "100 * p + s \<le> 100 * q + r" "0 \<le> r" "r < 100" "0 \<le> s" "s < 100"
    for p q r s :: int
    using that by auto
  show ?thesis
    using d [of "n div 100" "n mod 100" "x div 100" "x mod 100"] assms mult_div_mod_eq [of 100 x]
      mult_div_mod_eq [of 100 n] by (simp split: if_splits)
qed

definition nntp_date :: "tm \<Rightarrow> string" where
  "nntp_date t = fmt_02d ((1900 + tm_year t) mod 100) @ fmt_02d (tm_mon t + 1) @ fmt_02d (tm_mday t)"

definition nntp_hour :: "tm \<Rightarrow> string" where
  "nntp_hour t = fmt_02d (tm_hour t) @ fmt_02d (tm_min t) @ fmt_02d (tm_sec t)"

lemma nntp_texts:
  assumes "date_fields t"
  shows "length (nntp_date t) = 6" "length (nntp_hour t) = 6" "list_all isdigit (nntp_date t)" "list_all isdigit (nntp_hour t)"
    "two_digits (nntp_date t) 0 = (1900 + tm_year t) mod 100" "two_digits (nntp_date t) 2 = tm_mon t + 1"
    "two_digits (nntp_date t) 4 = tm_mday t" "two_digits (nntp_hour t) 0 = tm_hour t"
    "two_digits (nntp_hour t) 2 = tm_min t" "two_digits (nntp_hour t) 4 = tm_sec t"
proof -
  have b: "0 \<le> (1900 + tm_year t) mod 100" "(1900 + tm_year t) mod 100 < 100"
    "0 \<le> tm_mon t + 1" "tm_mon t + 1 < 100" "0 \<le> tm_mday t" "tm_mday t < 100"
    "0 \<le> tm_hour t" "tm_hour t < 100" "0 \<le> tm_min t" "tm_min t < 100" "0 \<le> tm_sec t" "tm_sec t < 100"
    using assms by (simp_all add: date_fields_def)
  have pair: "\<exists>x y. fmt_02d i = [x, y]" if "0 \<le> i" "i < 100" for i
    using fmt_02d_facts(3) [OF that] by (auto simp: numeral_2_eq_2 length_Suc_conv)
  note F = fmt_02d_facts [OF b(1,2)] fmt_02d_facts [OF b(3,4)] fmt_02d_facts [OF b(5,6)]
    fmt_02d_facts [OF b(7,8)] fmt_02d_facts [OF b(9,10)] fmt_02d_facts [OF b(11,12)]
  show "length (nntp_date t) = 6" "length (nntp_hour t) = 6" "list_all isdigit (nntp_date t)" "list_all isdigit (nntp_hour t)"
    using F by (auto simp: nntp_date_def nntp_hour_def list_all_iff)
  show "two_digits (nntp_date t) 0 = (1900 + tm_year t) mod 100" "two_digits (nntp_hour t) 0 = tm_hour t"
    unfolding nntp_date_def nntp_hour_def by (rule two_digits_fmt(1); use b in simp)+
  show "two_digits (nntp_date t) 2 = tm_mon t + 1" "two_digits (nntp_date t) 4 = tm_mday t"
    "two_digits (nntp_hour t) 2 = tm_min t" "two_digits (nntp_hour t) 4 = tm_sec t"
    using pair [OF b(1,2)] pair [OF b(3,4)] pair [OF b(7,8)] pair [OF b(9,10)]
      two_digits_fmt(2) [OF b(3,4)] two_digits_fmt(2) [OF b(9,10)]
      two_digits_fmt(3) [OF b(5,6), of _ _ _ _ "[]"] two_digits_fmt(3) [OF b(11,12), of _ _ _ _ "[]"]
    by (auto simp: nntp_date_def nntp_hour_def)
qed

text \<open>C26: a time in UTC that is given to NEWNEWS or NEWGROUPS with a four-digit year is read as that time, and with
  a two-digit year as well when its year is among the hundred years that end with the current one
  (the current century for years up to the current one, the previous century otherwise).\<close>

theorem parsedate_nntp_reads_dates:
  assumes "0 \<le> t" and "tm_year (gmtime t) \<le> 8099" and "tm = gmtime t"
  shows "parsedate_nntp ck (fmt_02d ((1900 + tm_year tm) div 100) @ nntp_date tm) (nntp_hour tm) False = t
    \<and> (tm_year (gmtime (now ck)) - 100 < tm_year tm \<and> tm_year tm \<le> tm_year (gmtime (now ck))
       \<longrightarrow> parsedate_nntp ck (nntp_date tm) (nntp_hour tm) False = t)"
proof -
  note ok = gmtime_date_fields [OF assms(1,2), folded assms(3)]
  note N = nntp_texts [OF ok]
  define y where "y = 1900 + tm_year tm"
  have y: "1000 \<le> y" "y < 10000" using ok by (simp_all add: date_fields_def y_def)
  then have c: "0 \<le> y div 100" "y div 100 < 100" by auto
  note C = fmt_02d_facts [OF c]
  have yv: "y mod 100 + y div 100 * 100 = y" by simp
  have nd: "\<not> list_ex (\<lambda>c. \<not> isdigit c) s" if "list_all isdigit s" for s
    using that by (auto simp: list_all_iff list_ex_iff)
  define finish where "finish = (\<lambda>year. let tm' = blank_tm\<lparr>tm_year := year, tm_mon := tm_mon tm, tm_mday := tm_mday tm,
      tm_hour := tm_hour tm, tm_min := tm_min tm, tm_sec := tm_sec tm\<rparr>
    in if \<not> valid_tm tm' then -1 else mktime_utc tm')"
  have fin: "finish (tm_year tm) = t"
    using mktime_utc_gmtime [OF assms(1), folded assms(3)]
    by (auto simp: finish_def Let_def valid_tm_def mktime_utc_def)
  have "parsedate_nntp ck (fmt_02d (y div 100) @ nntp_date tm) (nntp_hour tm) False
      = finish (y mod 100 + two_digits (fmt_02d (y div 100) @ nntp_date tm) 0 * 100 - 1900)"
    using N C nd by (simp add: parsedate_nntp_def Let_def list_all_iff finish_def y_def [symmetric])
  moreover have "two_digits (fmt_02d (y div 100) @ nntp_date tm) 0 = y div 100"
    by (rule two_digits_fmt(1) [OF c])
  moreover have "y mod 100 + y div 100 * 100 - 1900 = tm_year tm" using yv by (simp add: y_def)
  ultimately have four: "parsedate_nntp ck (fmt_02d (y div 100) @ nntp_date tm) (nntp_hour tm) False = t"
    using fin by simp
  moreover have "parsedate_nntp ck (nntp_date tm) (nntp_hour tm) False = t"
    if w: "tm_year (gmtime (now ck)) - 100 < tm_year tm" "tm_year tm \<le> tm_year (gmtime (now ck))"
  proof -
    define n where "n = tm_year (gmtime (now ck))"
    have "parsedate_nntp ck (nntp_date tm) (nntp_hour tm) False
      = finish (y mod 100 + (if y mod 100 > n mod 100 then n div 100 - 1 else n div 100) * 100)"
      using N nd by (simp add: parsedate_nntp_def Let_def list_all_iff finish_def y_def [symmetric] n_def [symmetric])
    moreover have "y mod 100 + (if y mod 100 > n mod 100 then n div 100 - 1 else n div 100) * 100 = tm_year tm"
      using century_window [OF w [folded n_def]] by (simp add: y_def mod_add_left_eq [symmetric, of 1900 _ 100] split: if_splits)
    ultimately show ?thesis using fin by simp
  qed
  ultimately show ?thesis by (simp add: y_def)
qed

theorem parsedate_nntp_reads_dates_witness:
  "parsedate_nntp \<lparr>now = 1000000000, localtime = gmtime, mktime = mktime_utc\<rparr>
     (nntp_date (gmtime 500000000)) (nntp_hour (gmtime 500000000)) False = 500000000"
proof -
  have y: "tm_year (gmtime 500000000) = 85" "tm_year (gmtime 1000000000) = 101" by code_simp+
  show ?thesis
    using parsedate_nntp_reads_dates [of 500000000 "gmtime 500000000"
        "\<lparr>now = 1000000000, localtime = gmtime, mktime = mktime_utc\<rparr>"] y by simp
qed

subsection \<open>Where the parsers read\<close>

lemma skip_cfws_suffix: "suffix (skip_cfws_loop n p) p"
proof (induction p arbitrary: n rule: length_induct)
  case (1 p)
  then have IH: "suffix (skip_cfws_loop m q) q" if "length q < length p" for q m using that by blast
  show ?case
  proof (cases p)
    case (Cons c q)
    have a: "suffix (skip_cfws_loop m q) (c # q)" for m using IH [of q m] Cons by (simp add: suffix_ConsI)
    have b: "suffix (skip_cfws_loop m q') (c # q)" if "q = d # q'" for d q' m
      using IH [of q' m] Cons that by (simp add: suffix_ConsI)
    show ?thesis unfolding Cons
      by (subst skip_cfws_loop.simps(2)) (use a b in \<open>auto split: list.split simp del: skip_cfws_loop.simps\<close>)
  qed simp
qed

lemma number_loop_suffix: "number_loop p mx c v = (c', q, v') \<Longrightarrow> suffix q p"
  by (induction p mx c v rule: number_loop.induct) (auto split: if_splits intro: suffix_ConsI)

lemma advance_by_suffix: "advance_by n p x = At q y \<Longrightarrow> suffix q p"
  by (auto simp: advance_by_def suffix_drop split: if_splits)

lemma tolower_NUL: "tolower c = NUL \<Longrightarrow> c = NUL"
proof (cases "isupper c")
  case True
  then have "byte (char_of (byte c + 32)) = byte c + 32" by (intro byte_char_of) (simp add: isupper_def)
  moreover have "byte NUL = 0" by simp
  ultimately show "tolower c = NUL \<Longrightarrow> c = NUL" using True by (auto simp: tolower_def)
qed (simp add: tolower_def)

lemma strncasecmp_inside: "strncasecmp_eq w p n \<Longrightarrow> n \<le> length w \<Longrightarrow> NUL \<notin> set w \<Longrightarrow> n \<le> length p"
proof (induction w p n rule: strncasecmp_eq.induct)
  case (2 a b n)
  then obtain c a' where a: "a = c # a'" "c \<noteq> NUL" by (cases a) auto
  then have "b \<noteq> []" using 2 tolower_NUL [of c] by (auto simp: tolower_def)
  with 2 a show ?case by (cases b) auto
qed simp

definition inside_rule :: "rule \<Rightarrow> bool" where
  "inside_rule r \<longleftrightarrow> r_type r = TYPE_LOOKUP \<longrightarrow> (\<forall>w \<in> set (r_table r). r_max r \<le> length w \<and> NUL \<notin> set w)"

lemma parse_lookup_inside: "inside_rule r \<Longrightarrow> r_type r = TYPE_LOOKUP \<Longrightarrow> parse_lookup p r \<noteq> Overrun"
proof (cases "index_of (\<lambda>e. strncasecmp_eq e p (r_max r)) (r_table r)")
  case (Some i)
  assume r: "inside_rule r" "r_type r = TYPE_LOOKUP"
  from index_of_Some [OF Some] have "r_table r ! i \<in> set (r_table r)" "strncasecmp_eq (r_table r ! i) p (r_max r)" by simp_all
  with r strncasecmp_inside [of "r_table r ! i" p "r_max r"] have "r_max r \<le> length p" by (auto simp: inside_rule_def)
  with Some show ?thesis by (simp add: parse_lookup_def advance_by_def)
qed (simp add: parse_lookup_def)

lemma parse_by_rule_inside:
  assumes "list_all inside_rule rules"
  shows "parse_by_rule p rules i vals \<noteq> Overrun"
    "parse_by_rule p rules i vals = At q vals' \<Longrightarrow> suffix q p"
proof -
  have "parse_by_rule p rules i vals \<noteq> Overrun \<and> (\<forall>q vals'. parse_by_rule p rules i vals = At q vals' \<longrightarrow> suffix q p)"
    using assms
  proof (induction rules arbitrary: p i vals)
    case (Cons r rules)
    have rules: "list_all inside_rule rules" "inside_rule r" using Cons.prems by simp_all
    note all = Cons.IH [OF rules(1)]
    have IH: "parse_by_rule p' rules i' vals' \<noteq> Overrun" "parse_by_rule p' rules i' vals' = At q x \<Longrightarrow> suffix q p'" for p' i' vals' q x
      using all [of p' i' vals'] by blast+
    have sk: "suffix q p'" if "suffix q (skip_cfws y)" "suffix y p'" for q y p'
      using that skip_cfws_suffix [of 0 y] by (metis skip_cfws_def suffix_order.trans)
    show ?case
    proof (cases "r_type r = TYPE_DELIM")
      case True
      have "suffix (tl p) p" by (cases p) (auto intro: suffix_ConsI)
      with sk have "suffix q (skip_cfws (tl p)) \<Longrightarrow> suffix q p" for q by blast
      with True IH show ?thesis by (auto simp: parse_by_rule.simps(2))
    next
      case False
      define step where "step = (case r_type r of TYPE_LOOKUP \<Rightarrow> parse_lookup p r
          | TYPE_OBS_MONTH \<Rightarrow> parse_legacy_month p | _ \<Rightarrow> parse_number p r)"
      have "step \<noteq> Overrun"
        using False Cons.prems parse_lookup_inside [of r p]
        by (auto simp: step_def parse_legacy_month_def parse_number_def Let_def
            split: rule_type.splits option.splits prod.splits)
      moreover have st: "suffix q p" if "step = At q v" for q v
        using that False
        by (auto simp: step_def parse_lookup_def parse_legacy_month_def parse_number_def Let_def suffix_drop
            dest!: advance_by_suffix number_loop_suffix
            split: rule_type.splits option.splits prod.splits if_splits)
      moreover have "suffix y p" if "step = At q v" "suffix y (skip_cfws q)" for q v y
        using sk [OF that(2) st [OF that(1)]] .
      ultimately show ?thesis
        using False IH by (cases step) (auto simp: parse_by_rule.simps(2) step_def [symmetric])
    qed
  qed simp
  then show "parse_by_rule p rules i vals \<noteq> Overrun"
    "parse_by_rule p rules i vals = At q vals' \<Longrightarrow> suffix q p" by auto
qed

lemma inside_rules: "list_all inside_rule base_rule" "list_all inside_rule (drop 2 base_rule)"
  "list_all inside_rule seconds_rule" "list_all inside_rule zone_rule" "list_all inside_rule lax_base_rule"
  "list_all inside_rule lax_seconds_rule" "list_all inside_rule lax_zone_rule"
  using abbreviations_tables
  by (auto simp: base_rule_def seconds_rule_def zone_rule_def lax_base_rule_def lax_seconds_rule_def
      lax_zone_rule_def inside_rule_def lookup_rule_def number_rule_def delim_rule_def obs_month_rule_def
      abbreviations_def list_all_iff numeral_2_eq_2)

text \<open>The ends of a string at which the table of zones makes the parser step over the nul.\<close>

definition cut_zone :: "string \<Rightarrow> bool" where
  "cut_zone p \<longleftrightarrow> p \<noteq> [] \<and> length p \<le> 2 \<and> isalpha (hd p)"

lemma zone_lengths: "i < length ZONE_OFFSET \<Longrightarrow> length (fst (ZONE_OFFSET ! i)) \<le> 3"
  "z \<in> set OBS_ZONE_OFFSET \<Longrightarrow> NUL \<notin> set (fst z)"
proof -
  have "\<forall>z \<in> set ZONE_OFFSET. length (fst z) \<le> 3" by (simp add: ZONE_OFFSET_def)
  then show "i < length ZONE_OFFSET \<Longrightarrow> length (fst (ZONE_OFFSET ! i)) \<le> 3" by simp
  have "\<forall>z \<in> set OBS_ZONE_OFFSET. NUL \<notin> set (fst z)" by (simp add: OBS_ZONE_OFFSET_def)
  then show "z \<in> set OBS_ZONE_OFFSET \<Longrightarrow> NUL \<notin> set (fst z)" by blast
qed

lemma parse_legacy_timezone_positions:
  "parse_legacy_timezone p obsolete = Overrun \<Longrightarrow> cut_zone p"
  "parse_legacy_timezone p obsolete = At q x \<Longrightarrow> suffix q p"
proof -
  define n where "n = length (takeWhile isalpha p)"
  have n: "n \<le> length p" "0 < n \<Longrightarrow> p \<noteq> [] \<and> isalpha (hd p)"
    unfolding n_def by (rule length_takeWhile_le) (cases p; auto split: if_splits)+
  show "parse_legacy_timezone p obsolete = At q x \<Longrightarrow> suffix q p"
    by (cases p) (auto simp: parse_legacy_timezone_def Let_def suffix_ConsI dest!: advance_by_suffix
        split: if_splits option.splits)
  show "parse_legacy_timezone p obsolete = Overrun \<Longrightarrow> cut_zone p"
    using n unfolding parse_legacy_timezone_def Let_def n_def [symmetric] cut_zone_def
    by (auto simp: advance_by_def dest!: index_of_Some zone_lengths(1) split: if_splits option.splits)
qed

lemma finish_inside: "rfc5322_finish t p z \<noteq> OutOfBounds"
  by (simp add: rfc5322_finish_def Let_def)

lemma rfc5322_zone_inside: "rfc5322_zone t p vals = OutOfBounds \<Longrightarrow> cut_zone p"
  using parse_by_rule_inside(1) [OF inside_rules(4), of "tl p" 0 vals] parse_legacy_timezone_positions(1)
  by (auto simp: rfc5322_zone_def finish_inside split: if_splits scan.splits)

lemma rfc5322_seconds_inside: "rfc5322_seconds t p vals = OutOfBounds \<Longrightarrow> \<exists>q. suffix q p \<and> cut_zone q"
  using parse_by_rule_inside [OF inside_rules(3), of p 0 vals] rfc5322_zone_inside
  by (auto simp: rfc5322_seconds_def split: if_splits scan.splits)

lemma parsedate_rfc5322_inside:
  assumes "parsedate_rfc5322 date = OutOfBounds"
  shows "\<exists>q. suffix q date \<and> cut_zone q"
proof -
  let ?p = "skip_cfws date" and ?v = "replicate 8 (0::int)"
  let ?r = "if isalpha (peek ?p) then parse_by_rule ?p base_rule 0 ?v else parse_by_rule ?p (drop 2 base_rule) 2 ?v"
  have "?r \<noteq> Overrun" using parse_by_rule_inside(1) inside_rules(1,2) by simp
  with assms obtain q vals t where q: "?r = At q vals" "rfc5322_seconds t q vals = OutOfBounds"
    by (auto simp: parsedate_rfc5322_def Let_def split: scan.splits)
  have "suffix q ?p" using q(1) parse_by_rule_inside(2) inside_rules(1,2) by (auto split: if_splits)
  moreover have "suffix ?p date" by (simp add: skip_cfws_def skip_cfws_suffix)
  ultimately show ?thesis using rfc5322_seconds_inside [OF q(2)] suffix_order.trans by blast
qed

lemma lax_zone_loop_inside: "lax_zone_loop p hz z vals = Overrun \<Longrightarrow> \<exists>q. suffix q p \<and> cut_zone q"
proof (induction p hz z vals rule: lax_zone_loop.induct)
  case (1 p hz z vals)
  have sk: "suffix q p" if "suffix q (skip_cfws y)" "suffix y p" for q y
    using that skip_cfws_suffix [of 0 y] by (metis skip_cfws_def suffix_order.trans)
  have tl: "suffix y p" if "suffix y (tl p)" for y using that by (cases p) (auto intro: suffix_ConsI)
  note run = 1(3) [unfolded lax_zone_loop.simps [of p]]
  show ?case
  proof (cases "p \<noteq> [] \<and> (hd p = CHR ''-'' \<or> hd p = CHR ''+'')")
    case True
    then obtain q vals' where q: "parse_by_rule (tl p) lax_zone_rule 0 vals = At q vals'"
      using run parse_by_rule_inside(1) [OF inside_rules(7), of "tl p" 0 vals] by (auto split: scan.splits)
    with True run obtain hz' z' where "lax_zone_loop (skip_cfws q) hz' z' vals' = Overrun"
      and "\<exists>q'. suffix q' (skip_cfws q) \<and> cut_zone q'"
      using 1(1) [of q vals'] by (auto simp: Let_def)
    with sk tl parse_by_rule_inside(2) [OF inside_rules(7) q] show ?thesis by blast
  next
    case False
    show ?thesis
    proof (cases "parse_legacy_timezone p True")
      case Overrun
      then show ?thesis using parse_legacy_timezone_positions(1) by blast
    next
      case (At q offset)
      then have "\<exists>q'. suffix q' (skip_cfws q) \<and> cut_zone q'"
        using False run 1(2) [of q offset] by (auto split: if_splits)
      with sk parse_legacy_timezone_positions(2) [OF At] show ?thesis by blast
    qed (use False run in \<open>auto split: if_splits\<close>)
  qed
qed

lemma parsedate_lax_inside:
  assumes "parsedate_rfc5322_lax ck date = OutOfBounds"
  shows "\<exists>q. suffix q date \<and> cut_zone q"
proof -
  define p where "p = dropWhile (\<lambda>c. \<not> isdigit c \<and> c \<noteq> CHR '','') (skip_cfws date)"
  define p' where "p' = (if peek p = CHR '','' then skip_cfws (tl p) else p)"
  have sk: "suffix (skip_cfws y) y" for y by (simp add: skip_cfws_def skip_cfws_suffix)
  have "suffix (tl p) p" by (cases p) (auto intro: suffix_ConsI)
  then have "suffix (skip_cfws (tl p)) p" using sk [of "tl p"] suffix_order.trans by blast
  then have "suffix p' p" by (simp add: p'_def)
  moreover have "suffix p date" using suffix_dropWhile sk [of date] suffix_order.trans unfolding p_def by blast
  ultimately have p': "suffix q p' \<Longrightarrow> suffix q date" for q using suffix_order.trans by blast
  have fin: "\<exists>q. suffix q y \<and> cut_zone q" if "lax_finish ck t y v = OutOfBounds" for t y v
    using that lax_zone_loop_inside [of y False 0 v]
    by (auto simp: lax_finish_def Let_def split: scan.splits prod.splits if_splits)
  have "parse_by_rule p' lax_base_rule 0 (replicate 6 0) \<noteq> Overrun"
    by (rule parse_by_rule_inside(1) [OF inside_rules(5)])
  with assms obtain q vals where q: "parse_by_rule p' lax_base_rule 0 (replicate 6 0) = At q vals"
    by (auto simp: parsedate_rfc5322_lax_def Let_def p_def [symmetric] p'_def [symmetric] split: scan.splits)
  have q': "suffix y q \<Longrightarrow> suffix y date" for y
    using parse_by_rule_inside(2) [OF inside_rules(5) q] p' suffix_order.trans by blast
  have s: "parse_by_rule q lax_seconds_rule 0 vals \<noteq> Overrun"
    "parse_by_rule q lax_seconds_rule 0 vals = At r v \<Longrightarrow> suffix r q" for r v
    by (rule parse_by_rule_inside [OF inside_rules(6)])+
  show ?thesis
    using assms q s fin q' suffix_order.trans
    unfolding parsedate_rfc5322_lax_def Let_def p_def [symmetric] p'_def [symmetric]
    by (simp split: scan.splits if_splits) blast+
qed



end
