(* ===== verification/Vector.thy ===== *)
theory Vector
  imports Inn_Prelude
begin

text \<open>
  Vectors of strings (\<^verbatim>\<open>lib/vector.c\<close>). \<open>v_slots\<close> is the allocated table, with \<open>None\<close> for a slot
  that was never written; writing outside it makes the result \<open>None\<close>, so that a split that returns is one that stayed
  inside the table its first pass had sized. The functions on \<open>struct cvector\<close> store pointers into the string they
  split; a pointer is an index into it. Sizes are unbounded, but for the overflow assertions of the joins.
\<close>

record 'a vector =
  v_count :: nat
  v_slots :: "'a option list"

definition v_allocated :: "'a vector \<Rightarrow> nat" where
  "v_allocated v = length (v_slots v)"

definition v_list :: "'a vector \<Rightarrow> 'a option list" where
  "v_list v = take (v_count v) (v_slots v)"

definition vector_new :: "'a vector" where
  "vector_new = \<lparr>v_count = 0, v_slots = [None]\<rparr>"

definition vector_resize :: "'a vector \<Rightarrow> nat \<Rightarrow> 'a vector" where
  "vector_resize v sz =
     (let v = (if v_count v > sz then v\<lparr>v_count := sz\<rparr> else v);
          sz = (if sz = 0 then 1 else sz)
      in v\<lparr>v_slots := take sz (v_slots v) @ replicate (sz - length (v_slots v)) None\<rparr>)"

definition store :: "'a vector \<Rightarrow> nat \<Rightarrow> 'a \<Rightarrow> 'a vector option" where
  "store v i s = (if i < v_allocated v then Some (v\<lparr>v_slots := (v_slots v)[i := Some s]\<rparr>) else None)"

definition vector_add :: "'a vector \<Rightarrow> 'a \<Rightarrow> 'a vector option" where
  "vector_add v s =
     (let v = (if v_count v = v_allocated v then vector_resize v (v_allocated v + 1) else v)
      in map_option (\<lambda>v. v\<lparr>v_count := v_count v + 1\<rparr>) (store v (v_count v) s))"

definition xstrndup :: "string \<Rightarrow> nat \<Rightarrow> string" where
  "xstrndup s n = takeWhile (\<lambda>c. c \<noteq> NUL) (take n s)"

definition vector_addn :: "string vector \<Rightarrow> string \<Rightarrow> nat \<Rightarrow> string vector option" where
  "vector_addn v s n = vector_add v (xstrndup s n)"

definition vector_clear :: "'a vector \<Rightarrow> 'a vector" where
  "vector_clear v = v\<lparr>v_count := 0\<rparr>"

definition vector_reuse :: "'a vector option \<Rightarrow> 'a vector" where
  "vector_reuse v = (case v of None \<Rightarrow> vector_new | Some v \<Rightarrow> vector_clear v)"

subsection \<open>Splitting at one separator\<close>

fun count_loop :: "string \<Rightarrow> char \<Rightarrow> nat \<Rightarrow> nat" where
  "count_loop [] sep count = count"
| "count_loop (c # p) sep count = count_loop p sep (if c = sep then count + 1 else count)"

definition split_count :: "string \<Rightarrow> char \<Rightarrow> nat" where
  "split_count s sep = (if s = [] then 1 else count_loop s sep 1)"

text \<open>\<open>seg\<close> is what lies between \<open>start\<close> and \<open>p\<close>.\<close>

fun split_loop :: "string vector \<Rightarrow> char \<Rightarrow> string \<Rightarrow> string \<Rightarrow> nat \<Rightarrow> string vector option" where
  "split_loop v sep seg [] i = map_option (\<lambda>v. v\<lparr>v_count := i + 1\<rparr>) (store v i seg)"
| "split_loop v sep seg (c # p) i =
     (if c = sep then
        (case store v i seg of None \<Rightarrow> None | Some v \<Rightarrow> split_loop v sep [] p (i + 1))
      else split_loop v sep (seg @ [c]) p i)"

definition vector_split :: "string \<Rightarrow> char \<Rightarrow> string vector option \<Rightarrow> string vector option" where
  "vector_split s sep v =
     (let v = vector_reuse v; count = split_count s sep;
          v = (if v_allocated v < count then vector_resize v count else v)
      in split_loop v sep [] s 0)"

text \<open>The string is modified in place: the result has the memory after the split, its nuls included.\<close>

fun csplit_loop :: "nat vector \<Rightarrow> char \<Rightarrow> nat \<Rightarrow> nat \<Rightarrow> string \<Rightarrow> string \<Rightarrow> nat \<Rightarrow> (string \<times> nat vector) option" where
  "csplit_loop v sep start k mem [] i =
     map_option (\<lambda>v. (mem @ [NUL], v\<lparr>v_count := i + 1\<rparr>)) (store v i start)"
| "csplit_loop v sep start k mem (c # p) i =
     (if c = sep then
        (case store v i start of None \<Rightarrow> None
         | Some v \<Rightarrow> csplit_loop v sep (k + 1) (k + 1) (mem @ [NUL]) p (i + 1))
      else csplit_loop v sep start (k + 1) (mem @ [c]) p i)"

definition cvector_split :: "string \<Rightarrow> char \<Rightarrow> nat vector option \<Rightarrow> (string \<times> nat vector) option" where
  "cvector_split s sep v =
     (let v = vector_reuse v; count = split_count s sep;
          v = (if v_allocated v < count then vector_resize v count else v)
      in csplit_loop v sep 0 0 [] s 0)"

subsection \<open>Splitting at several separators\<close>

fun multi_count_loop :: "string \<Rightarrow> char \<Rightarrow> string \<Rightarrow> nat \<Rightarrow> nat \<times> char" where
  "multi_count_loop [] before seps count = (count, before)"
| "multi_count_loop (c # p) before seps count =
     multi_count_loop p c seps (if c \<in> set seps \<and> before \<notin> set seps then count + 1 else count)"

definition split_multi_count :: "string \<Rightarrow> string \<Rightarrow> nat" where
  "split_multi_count s seps =
     (case s of [] \<Rightarrow> 0
      | c # p \<Rightarrow>
        (case multi_count_loop p c seps 1 of
           (count, before) \<Rightarrow> if before \<in> set seps then count - 1 else count))"

fun multi_loop :: "string vector \<Rightarrow> string \<Rightarrow> string \<Rightarrow> string \<Rightarrow> nat \<Rightarrow> string vector option" where
  "multi_loop v seps seg [] i =
     (if seg \<noteq> [] then map_option (\<lambda>v. v\<lparr>v_count := i + 1\<rparr>) (store v i seg)
      else Some (v\<lparr>v_count := i\<rparr>))"
| "multi_loop v seps seg (c # p) i =
     (if c \<in> set seps then
        if seg \<noteq> [] then
          (case store v i seg of None \<Rightarrow> None | Some v \<Rightarrow> multi_loop v seps [] p (i + 1))
        else multi_loop v seps [] p i
      else multi_loop v seps (seg @ [c]) p i)"

definition vector_split_multi :: "string \<Rightarrow> string \<Rightarrow> string vector option \<Rightarrow> string vector option" where
  "vector_split_multi s seps v =
     (let v = vector_reuse v; count = split_multi_count s seps;
          v = (if v_allocated v < count then vector_resize v count else v)
      in multi_loop v seps [] s 0)"

definition vector_split_space :: "string \<Rightarrow> string vector option \<Rightarrow> string vector option" where
  "vector_split_space s v = vector_split_multi s [SP, HT] v"

text \<open>The destructive version: only the separator behind a segment becomes a nul.\<close>

fun cmulti_loop :: "nat vector \<Rightarrow> string \<Rightarrow> nat \<Rightarrow> nat \<Rightarrow> string \<Rightarrow> string \<Rightarrow> nat \<Rightarrow> (string \<times> nat vector) option" where
  "cmulti_loop v seps start k mem [] i =
     (if start \<noteq> k then map_option (\<lambda>v. (mem @ [NUL], v\<lparr>v_count := i + 1\<rparr>)) (store v i start)
      else Some (mem @ [NUL], v\<lparr>v_count := i\<rparr>))"
| "cmulti_loop v seps start k mem (c # p) i =
     (if c \<in> set seps then
        if start \<noteq> k then
          (case store v i start of None \<Rightarrow> None
           | Some v \<Rightarrow> cmulti_loop v seps (k + 1) (k + 1) (mem @ [NUL]) p (i + 1))
        else cmulti_loop v seps (k + 1) (k + 1) (mem @ [c]) p i
      else cmulti_loop v seps start (k + 1) (mem @ [c]) p i)"

definition cvector_split_multi :: "string \<Rightarrow> string \<Rightarrow> nat vector option \<Rightarrow> (string \<times> nat vector) option" where
  "cvector_split_multi s seps v =
     (let v = vector_reuse v; count = split_multi_count s seps;
          v = (if v_allocated v < count then vector_resize v count else v)
      in cmulti_loop v seps 0 0 [] s 0)"

definition cvector_split_space :: "string \<Rightarrow> nat vector option \<Rightarrow> (string \<times> nat vector) option" where
  "cvector_split_space s v = cvector_split_multi s [SP, HT] v"

subsection \<open>Joining\<close>

text \<open>The first pass: the total size, or \<open>None\<close> when an assertion fails. \<open>extra\<close> is what the
  assertion of \<open>vector_join\<close> asks for beyond the string.\<close>

fun size_loop :: "nat \<Rightarrow> string list \<Rightarrow> nat \<Rightarrow> nat option" where
  "size_loop extra [] sz = Some sz"
| "size_loop extra (s # ss) sz =
     (if SIZE_MAX - sz \<ge> length s + extra then size_loop extra ss (sz + length s) else None)"

fun join_loop :: "string list \<Rightarrow> string \<Rightarrow> nat \<Rightarrow> nat \<Rightarrow> string \<Rightarrow> string option" where
  "join_loop [] sep i sz out = Some out"
| "join_loop (s # ss) sep i sz out =
     (let out = (if i \<noteq> 0 then out @ sep else out); out = out @ s
      in if length out < sz then join_loop ss sep (i + 1) sz out else None)"

definition join_strings :: "nat \<Rightarrow> string list \<Rightarrow> string \<Rightarrow> string option" where
  "join_strings extra ss sep =
     (if ss = [] then Some []
      else
        (case size_loop extra ss 0 of
           None \<Rightarrow> None
         | Some sz \<Rightarrow>
             if SIZE_MAX - sz \<ge> (length ss - 1) * length sep + 1
             then join_loop ss sep 0 (sz + ((length ss - 1) * length sep + 1)) []
             else None))"

definition vector_join :: "string list \<Rightarrow> string \<Rightarrow> string option" where
  "vector_join ss sep = join_strings (length sep + 1) ss sep"

definition cvector_join :: "string list \<Rightarrow> string \<Rightarrow> string option" where
  "cvector_join ss sep = join_strings 0 ss sep"

subsection \<open>The table is never overrun\<close>

lemma vector_reuse_facts: "v_count (vector_reuse v) = 0"
  by (simp add: vector_reuse_def vector_new_def vector_clear_def split: option.split)

lemma resize_allocated: "v_allocated (vector_resize v n) = (if n = 0 then 1 else n)"
  by (simp add: vector_resize_def Let_def v_allocated_def)

lemma sized_allocated:
  "n \<le> v_allocated (if v_allocated v < n then vector_resize v n else v)"
  by (simp add: resize_allocated)

lemma store_inside:
  assumes "i < v_allocated v"
  obtains v' where "store v i s = Some v'" "v_allocated v' = v_allocated v" "v_count v' = v_count v"
    "take (Suc i) (v_slots v') = take i (v_slots v) @ [Some s]"
  using assms that [of "v\<lparr>v_slots := (v_slots v)[i := Some s]\<rparr>"]
  by (auto simp: store_def v_allocated_def take_Suc_conv_app_nth)

lemma vector_add_grows:
  assumes "v_count v \<le> v_allocated v"
  shows "\<exists>v'. vector_add v s = Some v' \<and> v_list v' = v_list v @ [Some s] \<and> v_count v' \<le> v_allocated v'"
proof -
  define w where "w = (if v_count v = v_allocated v then vector_resize v (v_allocated v + 1) else v)"
  have w: "v_count w = v_count v" "v_count w < v_allocated w" "take (v_count v) (v_slots w) = take (v_count v) (v_slots v)"
    using assms by (auto simp: w_def vector_resize_def Let_def v_allocated_def)
  then obtain v' where v': "store w (v_count w) s = Some v'" "v_allocated v' = v_allocated w" "v_count v' = v_count w"
    "take (Suc (v_count w)) (v_slots v') = take (v_count w) (v_slots w) @ [Some s]"
    by (metis store_inside)
  have "vector_add v s = map_option (\<lambda>v. v\<lparr>v_count := v_count v + 1\<rparr>) (store w (v_count w) s)"
    by (simp add: vector_add_def w_def Let_def)
  with v' w show ?thesis by (simp add: v_list_def v_allocated_def)
qed

text \<open>The strings between the separators.\<close>

fun pieces :: "char \<Rightarrow> string \<Rightarrow> string \<Rightarrow> string list" where
  "pieces sep seg [] = [seg]"
| "pieces sep seg (c # p) = (if c = sep then seg # pieces sep [] p else pieces sep (seg @ [c]) p)"

lemma count_loop_count: "count_loop s sep n = n + count_list s sep"
  by (induction s arbitrary: n) auto

lemma split_count_pieces: "split_count s sep = length (pieces sep seg s)"
proof -
  have "length (pieces sep seg s) = 1 + count_list s sep" by (induction s arbitrary: seg) auto
  then show ?thesis by (simp add: split_count_def count_loop_count)
qed

lemma split_loop_pieces:
  assumes "i + length (pieces sep seg p) \<le> v_allocated v"
  shows "\<exists>v'. split_loop v sep seg p i = Some v' \<and> v_count v' = i + length (pieces sep seg p)
    \<and> take (i + length (pieces sep seg p)) (v_slots v') = take i (v_slots v) @ map Some (pieces sep seg p)"
  using assms
proof (induction p arbitrary: v seg i)
  case Nil
  then have "i < v_allocated v" by simp
  then obtain v' where "store v i seg = Some v'" "take (Suc i) (v_slots v') = take i (v_slots v) @ [Some seg]"
    by (metis store_inside)
  then show ?case by simp
next
  case (Cons c p)
  show ?case
  proof (cases "c = sep")
    case True
    with Cons.prems have "i < v_allocated v" by simp
    then obtain v1 where v1: "store v i seg = Some v1" "v_allocated v1 = v_allocated v"
      "take (Suc i) (v_slots v1) = take i (v_slots v) @ [Some seg]"
      by (metis store_inside)
    then have "Suc i + length (pieces sep [] p) \<le> v_allocated v1" using Cons.prems True by simp
    from Cons.IH [OF this] v1 True show ?thesis by simp
  next
    case False
    then have "i + length (pieces sep (seg @ [c]) p) \<le> v_allocated v" using Cons.prems by simp
    from Cons.IH [OF this] False show ?thesis by simp
  qed
qed

lemma vector_split_pieces:
  "\<exists>v'. vector_split s sep v = Some v' \<and> v_list v' = map Some (pieces sep [] s)"
proof -
  define w where "w = (let w = vector_reuse v in if v_allocated w < split_count s sep then vector_resize w (split_count s sep) else w)"
  have "0 + length (pieces sep [] s) \<le> v_allocated w"
    using sized_allocated [of "split_count s sep" "vector_reuse v"] by (simp add: w_def Let_def split_count_pieces [of s sep "[]"])
  from split_loop_pieces [OF this] show ?thesis
    by (auto simp: vector_split_def w_def Let_def v_list_def)
qed

text \<open>The separate strings are joined to the string again.\<close>

fun glue :: "char \<Rightarrow> string list \<Rightarrow> string" where
  "glue sep [] = []"
| "glue sep [w] = w"
| "glue sep (w # ws) = w @ sep # glue sep ws"

lemma pieces_nonempty: "pieces sep seg p \<noteq> []"
  by (induction sep seg p rule: pieces.induct) auto

lemma glue_pieces: "glue sep (pieces sep seg p) = seg @ p"
proof (induction sep seg p rule: pieces.induct)
  case (2 sep seg c p)
  then show ?case
    using pieces_nonempty [of sep "[]" p] by (cases "pieces sep [] p") auto
qed simp

lemma pieces_separate: "sep \<notin> set seg \<Longrightarrow> \<forall>w \<in> set (pieces sep seg p). sep \<notin> set w"
  by (induction sep seg p rule: pieces.induct) auto

lemma pieces_glue:
  "ws \<noteq> [] \<Longrightarrow> \<forall>w \<in> set ws. sep \<notin> set w \<Longrightarrow> pieces sep [] (glue sep ws) = ws"
proof -
  have a: "sep \<notin> set w \<Longrightarrow> pieces sep seg (w @ r) = pieces sep (seg @ w) r" for sep seg w r
    by (induction w arbitrary: seg) auto
  show "ws \<noteq> [] \<Longrightarrow> \<forall>w \<in> set ws. sep \<notin> set w \<Longrightarrow> pieces sep [] (glue sep ws) = ws"
  proof (induction sep ws rule: glue.induct)
    case (2 sep w)
    then have "sep \<notin> set w" by simp
    from a [OF this, of "[]" "[]"] show ?case by simp
  next
    case (3 sep w v va)
    then show ?case using a [of sep w "[]" "sep # glue sep (v # va)"] by simp
  qed simp
qed

text \<open>In the string that was split in place, each pointer is at a piece, and a nul and the pieces after it follow.\<close>

fun tails :: "string list \<Rightarrow> string list" where
  "tails [] = []"
| "tails (w # ws) = (glue NUL (w # ws) @ [NUL]) # tails ws"

lemma glue_Cons: "ws \<noteq> [] \<Longrightarrow> glue c (w # ws) = w @ c # glue c ws"
  by (cases ws) auto

lemma glue_pieces_NUL: "glue NUL (pieces sep seg p) = seg @ map (\<lambda>c. if c = sep then NUL else c) p"
  by (induction sep seg p rule: pieces.induct) (auto simp: glue_Cons pieces_nonempty)

lemma length_tails [simp]: "length (tails ws) = length ws" by (induction ws) auto

lemma nth_tails: "i < length ws \<Longrightarrow> tails ws ! i = glue NUL (drop i ws) @ [NUL]"
proof (induction ws arbitrary: i)
  case (Cons w ws)
  then show ?case by (cases i) auto
qed simp

lemma tails_pieces: "tails (seg # pieces sep [] p)
    = (seg @ NUL # map (\<lambda>c. if c = sep then NUL else c) p @ [NUL]) # tails (pieces sep [] p)"
  by (simp add: glue_Cons pieces_nonempty glue_pieces_NUL)

lemma csplit_loop_tails:
  assumes "i + length (pieces sep seg p) \<le> v_allocated v" "length mem = k" "drop start mem = seg" "start \<le> k"
  shows "\<exists>v' starts. csplit_loop v sep start k mem p i = Some (mem @ map (\<lambda>c. if c = sep then NUL else c) p @ [NUL], v')
    \<and> v_count v' = i + length (pieces sep seg p)
    \<and> take (i + length (pieces sep seg p)) (v_slots v') = take i (v_slots v) @ map Some starts
    \<and> map (\<lambda>q. drop q (mem @ map (\<lambda>c. if c = sep then NUL else c) p @ [NUL])) starts = tails (pieces sep seg p)"
  using assms
proof (induction p arbitrary: v start k mem seg i)
  case Nil
  then have "i < v_allocated v" by simp
  then obtain v' where "store v i start = Some v'" "take (Suc i) (v_slots v') = take i (v_slots v) @ [Some start]"
    by (metis store_inside)
  with Nil show ?case by (intro exI [of _ "v'\<lparr>v_count := i + 1\<rparr>"] exI [of _ "[start]"]) simp
next
  case (Cons c p)
  let ?m = "map (\<lambda>c. if c = sep then NUL else c)"
  show ?case
  proof (cases "c = sep")
    case True
    with Cons.prems have "i < v_allocated v" by simp
    then obtain v1 where v1: "store v i start = Some v1" "v_allocated v1 = v_allocated v"
      "take (Suc i) (v_slots v1) = take i (v_slots v) @ [Some start]"
      by (metis store_inside)
    have "i + 1 + length (pieces sep [] p) \<le> v_allocated v1" using Cons.prems True v1 by simp
    from Cons.IH [OF this, of "mem @ [NUL]" "k + 1" "k + 1"] Cons.prems(2) obtain v' starts where IH:
      "csplit_loop v1 sep (k + 1) (k + 1) (mem @ [NUL]) p (i + 1) = Some ((mem @ [NUL]) @ ?m p @ [NUL], v')"
      "v_count v' = i + 1 + length (pieces sep [] p)"
      "take (i + 1 + length (pieces sep [] p)) (v_slots v') = take (i + 1) (v_slots v1) @ map Some starts"
      "map (\<lambda>q. drop q ((mem @ [NUL]) @ ?m p @ [NUL])) starts = tails (pieces sep [] p)"
      by auto
    show ?thesis
      by (intro exI [of _ v'] exI [of _ "start # starts"])
        (use IH v1 True Cons.prems in \<open>simp add: tails_pieces del: tails.simps\<close>)
  next
    case False
    then have "i + length (pieces sep (seg @ [c]) p) \<le> v_allocated v" using Cons.prems by simp
    from Cons.IH [OF this, of "mem @ [c]" "k + 1" start] Cons.prems(2-4) False show ?thesis by simp
  qed
qed

lemma cvector_split_tails:
  "\<exists>mem v' starts. cvector_split s sep v = Some (mem, v') \<and> v_list v' = map Some starts
    \<and> v_count v' = length (pieces sep [] s) \<and> map (\<lambda>q. drop q mem) starts = tails (pieces sep [] s)"
proof -
  define n where "n = split_count s sep"
  define w where "w = (if v_allocated (vector_reuse v) < n then vector_resize (vector_reuse v) n else vector_reuse v)"
  have "0 + length (pieces sep [] s) \<le> v_allocated w"
    using sized_allocated [of n "vector_reuse v"] by (simp add: w_def n_def split_count_pieces [of s sep "[]"])
  from csplit_loop_tails [OF this, of "[]" 0 0] show ?thesis
    by (auto simp: cvector_split_def Let_def w_def n_def v_list_def)
qed

subsection \<open>Runs of separators\<close>

function split_words :: "string \<Rightarrow> string \<Rightarrow> string list" where
  "split_words seps s =
     (case dropWhile (\<lambda>c. c \<in> set seps) s of [] \<Rightarrow> []
      | r \<Rightarrow> takeWhile (\<lambda>c. c \<notin> set seps) r # split_words seps (dropWhile (\<lambda>c. c \<notin> set seps) r))"
  by pat_completeness auto
termination
proof (relation "measure (\<lambda>(seps, s). length s)", goal_cases)
  case (2 seps s c r)
  then have "c \<notin> set seps" by (metis dropWhile_eq_Cons_conv)
  moreover have "length (c # r) \<le> length s" unfolding 2 [symmetric] by (rule length_dropWhile_le)
  ultimately show ?case using length_dropWhile_le [of "\<lambda>c. c \<notin> set seps" r] by simp
qed simp

declare split_words.simps [simp del]

lemma split_words_simps [simp]:
  "split_words seps [] = []"
  "c \<in> set seps \<Longrightarrow> split_words seps (c # s) = split_words seps s"
  "c \<notin> set seps \<Longrightarrow> split_words seps (c # s)
     = (c # takeWhile (\<lambda>c. c \<notin> set seps) s) # split_words seps (dropWhile (\<lambda>c. c \<notin> set seps) s)"
  by (subst split_words.simps, simp) (subst (1 2) split_words.simps, simp, subst split_words.simps, simp)

text \<open>The words when the separator-free \<open>seg\<close> has been read before \<open>p\<close>.\<close>

definition words_from :: "string \<Rightarrow> string \<Rightarrow> string \<Rightarrow> string list" where
  "words_from seps seg p =
     (if seg = [] then split_words seps p
      else (seg @ takeWhile (\<lambda>c. c \<notin> set seps) p) # split_words seps (dropWhile (\<lambda>c. c \<notin> set seps) p))"

lemma words_from_simps:
  "words_from seps seg [] = (if seg = [] then [] else [seg])"
  "c \<in> set seps \<Longrightarrow> words_from seps seg (c # p) = (if seg = [] then [] else [seg]) @ words_from seps [] p"
  "c \<notin> set seps \<Longrightarrow> words_from seps seg (c # p) = words_from seps (seg @ [c]) p"
  by (simp_all add: words_from_def)

fun run_ends :: "string \<Rightarrow> char \<Rightarrow> string \<Rightarrow> nat" where
  "run_ends seps b [] = 0"
| "run_ends seps b (c # p) = of_bool (c \<in> set seps \<and> b \<notin> set seps) + run_ends seps c p"

lemma multi_count_run_ends: "multi_count_loop p b seps n = (n + run_ends seps b p, last (b # p))"
  by (induction p arbitrary: b n) auto

lemma length_words_from:
  "(seg = []) = (b \<in> set seps) \<Longrightarrow>
     length (words_from seps seg p) = run_ends seps b p + of_bool (last (b # p) \<notin> set seps)"
proof (induction p arbitrary: seg b)
  case (Cons c p)
  show ?case
  proof (cases "c \<in> set seps")
    case True
    with Cons.IH [of "[]" c] Cons.prems show ?thesis by (simp add: words_from_simps)
  next
    case False
    with Cons.IH [of "seg @ [c]" c] Cons.prems show ?thesis by (simp add: words_from_simps)
  qed
qed (auto simp: words_from_simps)

lemma split_multi_count_words: "split_multi_count s seps = length (split_words seps s)"
proof (cases s)
  case (Cons c p)
  have "length (split_words seps s) = length (words_from seps (if c \<in> set seps then [] else [c]) p)"
    using Cons by (simp add: words_from_def)
  also have "\<dots> = run_ends seps c p + of_bool (last (c # p) \<notin> set seps)"
    by (rule length_words_from) simp
  finally show ?thesis using Cons by (simp add: split_multi_count_def multi_count_run_ends)
qed (simp add: split_multi_count_def)

lemma multi_loop_words:
  assumes "i + length (words_from seps seg p) \<le> v_allocated v"
  shows "\<exists>v'. multi_loop v seps seg p i = Some v' \<and> v_count v' = i + length (words_from seps seg p)
    \<and> take (i + length (words_from seps seg p)) (v_slots v') = take i (v_slots v) @ map Some (words_from seps seg p)"
  using assms
proof (induction p arbitrary: v seg i)
  case Nil
  show ?case
  proof (cases "seg = []")
    case False
    with Nil have "i < v_allocated v" by (simp add: words_from_simps)
    then obtain v' where "store v i seg = Some v'" "take (Suc i) (v_slots v') = take i (v_slots v) @ [Some seg]"
      by (metis store_inside)
    with False show ?thesis by (simp add: words_from_simps)
  qed (simp add: words_from_simps)
next
  case (Cons c p)
  consider (sep) "c \<in> set seps" "seg \<noteq> []" | (more) "c \<in> set seps" "seg = []" | (chr) "c \<notin> set seps" by blast
  then show ?case
  proof cases
    case sep
    with Cons.prems have "i < v_allocated v" by (simp add: words_from_simps)
    then obtain v1 where v1: "store v i seg = Some v1" "v_allocated v1 = v_allocated v"
      "take (Suc i) (v_slots v1) = take i (v_slots v) @ [Some seg]"
      by (metis store_inside)
    then have "Suc i + length (words_from seps [] p) \<le> v_allocated v1" using Cons.prems sep by (simp add: words_from_simps)
    from Cons.IH [OF this] v1 sep show ?thesis by (simp add: words_from_simps)
  next
    case more
    with Cons.prems Cons.IH [of i "[]" v] show ?thesis by (simp add: words_from_simps)
  next
    case chr
    with Cons.prems Cons.IH [of i "seg @ [c]" v] show ?thesis by (simp add: words_from_simps)
  qed
qed

lemma vector_split_multi_words:
  "\<exists>v'. vector_split_multi s seps v = Some v' \<and> v_list v' = map Some (split_words seps s)
    \<and> v_count v' = split_multi_count s seps"
proof -
  define n where "n = split_multi_count s seps"
  define w where "w = (if v_allocated (vector_reuse v) < n then vector_resize (vector_reuse v) n else vector_reuse v)"
  have n: "n = length (words_from seps [] s)" by (simp add: n_def split_multi_count_words words_from_def)
  then have "0 + length (words_from seps [] s) \<le> v_allocated w"
    using sized_allocated [of n "vector_reuse v"] by (simp add: w_def)
  from multi_loop_words [OF this] show ?thesis
    by (auto simp: vector_split_multi_def w_def n_def Let_def v_list_def words_from_def split_multi_count_words)
qed

lemma cmulti_loop_words:
  assumes "i + length (words_from seps seg p) \<le> v_allocated v" "length mem = k" "drop start mem = seg" "start \<le> k"
    "NUL \<notin> set seg" "NUL \<notin> set p"
  shows "\<exists>v' starts rest. cmulti_loop v seps start k mem p i = Some (mem @ rest, v')
    \<and> v_count v' = i + length (words_from seps seg p)
    \<and> take (i + length (words_from seps seg p)) (v_slots v') = take i (v_slots v) @ map Some starts
    \<and> map (\<lambda>q. takeWhile (\<lambda>c. c \<noteq> NUL) (drop q (mem @ rest))) starts = words_from seps seg p"
  using assms
proof (induction p arbitrary: v start k mem seg i)
  case Nil
  show ?case
  proof (cases "seg = []")
    case False
    with Nil have "i < v_allocated v" by (simp add: words_from_simps)
    then obtain v' where "store v i start = Some v'" "take (Suc i) (v_slots v') = take i (v_slots v) @ [Some start]"
      by (metis store_inside)
    with False Nil show ?thesis
      by (intro exI [of _ "v'\<lparr>v_count := i + 1\<rparr>"] exI [of _ "[start]"] exI [of _ "[NUL]"])
        (auto simp: words_from_simps takeWhile_tail)
  next
    case True
    with Nil show ?thesis
      by (intro exI [of _ "v\<lparr>v_count := i\<rparr>"] exI [of _ "[]"] exI [of _ "[NUL]"]) (auto simp: words_from_simps)
  qed
next
  case (Cons c p)
  consider (sep) "c \<in> set seps" "seg \<noteq> []" | (more) "c \<in> set seps" "seg = []" | (chr) "c \<notin> set seps" by blast
  then show ?case
  proof cases
    case sep
    with Cons.prems have "i < v_allocated v" by (simp add: words_from_simps)
    then obtain v1 where v1: "store v i start = Some v1" "v_allocated v1 = v_allocated v"
      "take (Suc i) (v_slots v1) = take i (v_slots v) @ [Some start]"
      by (metis store_inside)
    have "i + 1 + length (words_from seps [] p) \<le> v_allocated v1" using Cons.prems sep v1 by (simp add: words_from_simps)
    from Cons.IH [OF this, of "mem @ [NUL]" "k + 1" "k + 1"] Cons.prems(2,6) obtain v' starts rest where IH:
      "cmulti_loop v1 seps (k + 1) (k + 1) (mem @ [NUL]) p (i + 1) = Some ((mem @ [NUL]) @ rest, v')"
      "v_count v' = i + 1 + length (words_from seps [] p)"
      "take (i + 1 + length (words_from seps [] p)) (v_slots v') = take (i + 1) (v_slots v1) @ map Some starts"
      "map (\<lambda>q. takeWhile (\<lambda>c. c \<noteq> NUL) (drop q ((mem @ [NUL]) @ rest))) starts = words_from seps [] p"
      by auto
    have "start \<noteq> k" using sep Cons.prems(2,3) by auto
    moreover have "takeWhile (\<lambda>c. c \<noteq> NUL) (drop start (mem @ NUL # rest)) = seg"
      using Cons.prems(2-5) by (simp add: takeWhile_tail)
    ultimately show ?thesis
      by (intro exI [of _ v'] exI [of _ "start # starts"] exI [of _ "NUL # rest"])
        (use IH v1 sep in \<open>simp add: words_from_simps\<close>)
  next
    case more
    with Cons.prems have "i + length (words_from seps [] p) \<le> v_allocated v" "start = k" by (auto simp: words_from_simps)
    with Cons.IH [OF this(1), of "mem @ [c]" "k + 1" "k + 1"] Cons.prems(2,6) more obtain v' starts rest where
      "cmulti_loop v seps start k mem (c # p) i = Some (mem @ c # rest, v')"
      "v_count v' = i + length (words_from seps [] p)"
      "take (i + length (words_from seps [] p)) (v_slots v') = take i (v_slots v) @ map Some starts"
      "map (\<lambda>q. takeWhile (\<lambda>c. c \<noteq> NUL) (drop q (mem @ c # rest))) starts = words_from seps [] p"
      by auto
    then show ?thesis
      by (intro exI [of _ v'] exI [of _ starts] exI [of _ "c # rest"]) (use more in \<open>simp add: words_from_simps\<close>)
  next
    case chr
    then have "i + length (words_from seps (seg @ [c]) p) \<le> v_allocated v" using Cons.prems by (simp add: words_from_simps)
    with Cons.IH [OF this, of "mem @ [c]" "k + 1" start] Cons.prems(2-6) chr obtain v' starts rest where
      "cmulti_loop v seps start k mem (c # p) i = Some (mem @ c # rest, v')"
      "v_count v' = i + length (words_from seps (seg @ [c]) p)"
      "take (i + length (words_from seps (seg @ [c]) p)) (v_slots v') = take i (v_slots v) @ map Some starts"
      "map (\<lambda>q. takeWhile (\<lambda>c. c \<noteq> NUL) (drop q (mem @ c # rest))) starts = words_from seps (seg @ [c]) p"
      by auto
    then show ?thesis
      by (intro exI [of _ v'] exI [of _ starts] exI [of _ "c # rest"]) (use chr in \<open>simp add: words_from_simps\<close>)
  qed
qed

lemma cvector_split_multi_words:
  assumes "NUL \<notin> set s"
  shows "\<exists>mem v' starts. cvector_split_multi s seps v = Some (mem, v') \<and> v_list v' = map Some starts
    \<and> map (\<lambda>q. takeWhile (\<lambda>c. c \<noteq> NUL) (drop q mem)) starts = split_words seps s"
proof -
  define n where "n = split_multi_count s seps"
  define w where "w = (if v_allocated (vector_reuse v) < n then vector_resize (vector_reuse v) n else vector_reuse v)"
  have n: "n = length (words_from seps [] s)" by (simp add: n_def split_multi_count_words words_from_def)
  then have "0 + length (words_from seps [] s) \<le> v_allocated w"
    using sized_allocated [of n "vector_reuse v"] by (simp add: w_def)
  from cmulti_loop_words [OF this, of "[]" 0 0] assms show ?thesis
    by (auto simp: cvector_split_multi_def w_def n_def Let_def v_list_def words_from_def split_multi_count_words)
qed

subsection \<open>Joining\<close>

lemma size_loop_total:
  "sz + sum_list (map length ss) + extra \<le> SIZE_MAX \<Longrightarrow> size_loop extra ss sz = Some (sz + sum_list (map length ss))"
  by (induction ss arbitrary: sz) auto

fun joined :: "string \<Rightarrow> string list \<Rightarrow> string" where
  "joined sep [] = []"
| "joined sep (w # ws) = sep @ w @ joined sep ws"

lemma length_joined: "length (joined sep ws) = length ws * length sep + sum_list (map length ws)"
  by (induction ws) auto

lemma join_loop_joined:
  "0 < i \<Longrightarrow> length out + length (joined sep ss) < sz \<Longrightarrow> join_loop ss sep i sz out = Some (out @ joined sep ss)"
  by (induction ss arbitrary: i out) (auto simp: Let_def)

lemma join_strings_joined:
  assumes "sum_list (map length (w # ws)) + length ws * length sep + extra + 1 \<le> SIZE_MAX"
  shows "join_strings extra (w # ws) sep = Some (w @ joined sep ws)"
proof -
  define total where "total = sum_list (map length (w # ws))"
  have "size_loop extra (w # ws) 0 = Some total"
    using size_loop_total [of 0 "w # ws" extra] assms by (simp add: total_def)
  moreover have "length ws * length sep + 1 \<le> SIZE_MAX - total" using assms by (simp add: total_def)
  ultimately show ?thesis
    unfolding join_strings_def
    using join_loop_joined [of 1 w sep ws "total + (length ws * length sep + 1)"]
    by (simp add: Let_def length_joined total_def)
qed

lemma glue_joined: "glue c (w # ws) = w @ joined [c] ws"
  by (induction ws arbitrary: w) auto

subsection \<open>Properties\<close>



text \<open>C31: splitting at any of several separators stays inside its table as well, and yields exactly the maximal
  runs of other characters, in order; the destructive version leaves pointers to the same words, ended by nuls.\<close>

theorem vector_split_multi_yields_words:
  assumes "NUL \<notin> set s"
  shows "(\<exists>v'. vector_split_multi s seps v = Some v' \<and> v_list v' = map Some (split_words seps s)
      \<and> v_count v' = split_multi_count s seps)
    \<and> (\<exists>mem v' starts. cvector_split_multi s seps cv = Some (mem, v') \<and> v_list v' = map Some starts
      \<and> map (\<lambda>q. takeWhile (\<lambda>c. c \<noteq> NUL) (drop q mem)) starts = split_words seps s)"
  using vector_split_multi_words [of s seps v] cvector_split_multi_words [OF assms, of seps cv] by blast

theorem vector_split_multi_yields_words_witness:
  "\<exists>v'. vector_split_multi '' ab  c '' '' '' None = Some v' \<and> v_list v' = map Some [''ab'', ''c'']"
proof -
  have "split_words '' '' '' ab  c '' = [''ab'', ''c'']" by simp
  with vector_split_multi_yields_words [of "'' ab  c ''" "'' ''" None None] show ?thesis by auto
qed

end
