(* ===== verification/Buffer.thy ===== *)
theory Buffer
  imports Inn_Prelude
begin

text \<open>
  Counted, reusable memory buffers (\<^verbatim>\<open>lib/buffer.c\<close>). \<open>b_data\<close> is the allocated memory, \<open>b_size\<close>
  octets of it; memory that was never written holds whatever the model of \<^verbatim>\<open>xrealloc\<close> puts there
  (nuls), and a write outside the allocation makes the result \<open>None\<close>. The invariant is \<open>buffer_ok\<close>, and \<open>contents\<close> is the
  abstract value, the data not yet consumed: every operation is shown to keep the one and to compute
  with the other. A file descriptor is the list of what the successive reads return.
\<close>

record buffer =
  b_size :: nat
  b_used :: nat
  b_left :: nat
  b_data :: string

definition buffer_ok :: "buffer \<Rightarrow> bool" where
  "buffer_ok b \<longleftrightarrow> length (b_data b) = b_size b \<and> b_used b + b_left b \<le> b_size b"

definition contents :: "buffer \<Rightarrow> string" where
  "contents b = take (b_left b) (drop (b_used b) (b_data b))"

definition buffer_new :: buffer where
  "buffer_new = \<lparr>b_size = 0, b_used = 0, b_left = 0, b_data = []\<rparr>"

text \<open>\<open>(size + 1023) & ~1023\<close>\<close>

definition round_up :: "nat \<Rightarrow> nat" where
  "round_up n = (n + 1023) div 1024 * 1024"

definition buffer_resize :: "buffer \<Rightarrow> nat \<Rightarrow> buffer" where
  "buffer_resize b n =
     (if n < b_size b then b
      else b\<lparr>b_size := round_up n,
             b_data := take (round_up n) (b_data b) @ replicate (round_up n - length (b_data b)) NUL\<rparr>)"

text \<open>\<open>memcpy\<close> to an offset of the allocation.\<close>

definition poke :: "buffer \<Rightarrow> nat \<Rightarrow> string \<Rightarrow> buffer option" where
  "poke b off d =
     (if off + length d \<le> b_size b
      then Some (b\<lparr>b_data := take off (b_data b) @ d @ drop (off + length d) (b_data b)\<rparr>) else None)"

definition buffer_compact :: "buffer \<Rightarrow> buffer option" where
  "buffer_compact b =
     (if b_used b = 0 then Some b
      else map_option (\<lambda>b. b\<lparr>b_used := 0\<rparr>)
        (if b_left b \<noteq> 0 then poke b 0 (take (b_left b) (drop (b_used b) (b_data b))) else Some b))"

definition buffer_set :: "buffer \<Rightarrow> string \<Rightarrow> buffer option" where
  "buffer_set b d =
     map_option (\<lambda>b. b\<lparr>b_left := length d, b_used := 0\<rparr>)
       (if length d > 0 then poke (buffer_resize b (length d)) 0 d else Some b)"

definition buffer_append :: "buffer \<Rightarrow> string \<Rightarrow> buffer option" where
  "buffer_append b d =
     (if length d = 0 then Some b
      else
        let total = b_used b + b_left b;
            b = buffer_resize b (total + length d);
            b = b\<lparr>b_left := b_left b + length d\<rparr>
        in poke b total d)"

text \<open>\<open>vsnprintf\<close> writes at most \<open>avail - 1\<close> octets and a nul, and returns the length of the whole text.\<close>

definition vsnprintf :: "buffer \<Rightarrow> nat \<Rightarrow> nat \<Rightarrow> string \<Rightarrow> buffer option" where
  "vsnprintf b off avail txt = (if avail = 0 then Some b else poke b off (take (avail - 1) txt @ [NUL]))"

definition buffer_append_vsprintf :: "buffer \<Rightarrow> string \<Rightarrow> buffer option" where
  "buffer_append_vsprintf b txt =
     (let total = b_used b + b_left b; avail = b_size b - total; status = length txt
      in case vsnprintf b total avail txt of
           None \<Rightarrow> None
         | Some b \<Rightarrow>
           if status < avail then Some (b\<lparr>b_left := b_left b + status\<rparr>)
           else
             let b = buffer_resize b (total + status + 1); avail = b_size b - total
             in case vsnprintf b total avail txt of
                  None \<Rightarrow> None
                | Some b \<Rightarrow> if status \<ge> avail then Some b else Some (b\<lparr>b_left := b_left b + status\<rparr>))"

definition buffer_vsprintf :: "buffer \<Rightarrow> string \<Rightarrow> buffer option" where
  "buffer_vsprintf b txt =
     (case buffer_set b [] of None \<Rightarrow> None | Some b \<Rightarrow> buffer_append_vsprintf b txt)"

definition buffer_swap :: "buffer \<Rightarrow> buffer \<Rightarrow> buffer \<times> buffer" where
  "buffer_swap one two = (two, one)"

text \<open>The search of \<open>buffer_find_string\<close>; the pointer \<open>data + i\<close> is the offset \<open>i\<close>.\<close>

function find_loop :: "buffer \<Rightarrow> string \<Rightarrow> nat \<Rightarrow> nat option" where
  "find_loop b str start =
     (let seg = take (b_left b - start) (drop (b_used b + start) (b_data b));
          k = length (takeWhile (\<lambda>c. c \<noteq> peek str) seg)
      in if k \<ge> length seg then None
         else
           let start' = start + k
           in if b_left b - start' < length str then None
              else if take (length str) (drop (b_used b + start') (b_data b)) = str then Some start'
              else find_loop b str (start' + 1))"
  by pat_completeness auto
termination
  by (relation "measure (\<lambda>(b, s, start). b_left b - start)") auto

declare find_loop.simps [simp del]

definition buffer_find_string :: "buffer \<Rightarrow> string \<Rightarrow> nat \<Rightarrow> nat option" where
  "buffer_find_string b str start = (if b_data b = [] then None else find_loop b str start)"

text \<open>What a \<open>read\<close> returns: data (at most what was asked for is taken), the end of the file, an
  interruption, or an error.\<close>

datatype read_result = Data string | EndOfFile | Interrupted | ReadError

text \<open>The count returned, with \<open>-1\<close> for an error; an exhausted list is the end of the file.\<close>

fun buffer_read :: "buffer \<Rightarrow> read_result list \<Rightarrow> (int \<times> buffer \<times> read_result list) option" where
  "buffer_read b [] = Some (0, b, [])"
| "buffer_read b (Interrupted # fd) = buffer_read b fd"
| "buffer_read b (EndOfFile # fd) = Some (0, b, fd)"
| "buffer_read b (ReadError # fd) = Some (-1, b, fd)"
| "buffer_read b (Data d # fd) =
     (let used = b_used b + b_left b; n = b_size b - used; got = take n d
      in map_option (\<lambda>b. (int (length got), b\<lparr>b_left := b_left b + length got\<rparr>,
                          if length d \<le> n then fd else Data (drop n d) # fd))
           (poke b used got))"

fun fd_measure :: "read_result list \<Rightarrow> nat" where
  "fd_measure [] = 0"
| "fd_measure (Data d # fd) = length d + fd_measure fd + 1"
| "fd_measure (_ # fd) = fd_measure fd + 1"

lemma buffer_read_measure:
  "buffer_read b fd = Some (n, b', fd') \<Longrightarrow> n > 0 \<Longrightarrow> fd_measure fd' < fd_measure fd"
  by (induction b fd rule: buffer_read.induct) (auto simp: Let_def split: if_splits)

text \<open>True is success; the loop doubles a full buffer.\<close>

function read_all_loop :: "buffer \<Rightarrow> read_result list \<Rightarrow> (bool \<times> buffer) option" where
  "read_all_loop b fd =
     (let used = b_used b + b_left b;
          b = (if b_size b \<le> used then buffer_resize b (b_size b * 2) else b)
      in case buffer_read b fd of
           None \<Rightarrow> None
         | Some (count, b, fd) \<Rightarrow> if count > 0 then read_all_loop b fd else Some (count = 0, b))"
  by pat_completeness auto
termination
  by (relation "measure (\<lambda>(b, fd). fd_measure fd)") (auto dest: buffer_read_measure)

declare read_all_loop.simps [simp del]

definition buffer_read_all :: "buffer \<Rightarrow> read_result list \<Rightarrow> (bool \<times> buffer) option" where
  "buffer_read_all b fd =
     read_all_loop (if b_size b = 0 then buffer_resize b 1024 else b) fd"

text \<open>\<open>fstat\<close> fails, or tells a size that may be wrong by the time of the reads.\<close>

definition buffer_read_file :: "buffer \<Rightarrow> nat option \<Rightarrow> read_result list \<Rightarrow> (bool \<times> buffer) option" where
  "buffer_read_file b st_size fd =
     (let used = b_used b + b_left b
      in case st_size of None \<Rightarrow> Some (False, b)
         | Some n \<Rightarrow> buffer_read_all (buffer_resize b (n + used)) fd)"

subsection \<open>Operations keep the invariant and compute with the contents\<close>

lemma round_up_ge: "n \<le> round_up n"
proof -
  have "(n + 1023) div 1024 * 1024 + (n + 1023) mod 1024 = n + 1023" by (rule div_mult_mod_eq)
  moreover have "(n + 1023) mod 1024 < 1024" by simp
  ultimately show ?thesis by (simp add: round_up_def)
qed

lemma buffer_resize_facts:
  assumes "buffer_ok b"
  shows "buffer_ok (buffer_resize b n)" "n \<le> b_size (buffer_resize b n)" "contents (buffer_resize b n) = contents b"
    "b_used (buffer_resize b n) = b_used b" "b_left (buffer_resize b n) = b_left b"
    "b_size b \<le> b_size (buffer_resize b n)"
proof -
  show "buffer_ok (buffer_resize b n)" "n \<le> b_size (buffer_resize b n)"
    "b_used (buffer_resize b n) = b_used b" "b_left (buffer_resize b n) = b_left b"
    "b_size b \<le> b_size (buffer_resize b n)"
    using assms round_up_ge [of n] by (auto simp: buffer_resize_def buffer_ok_def)
  show "contents (buffer_resize b n) = contents b"
    using assms round_up_ge [of n] by (auto simp: buffer_resize_def buffer_ok_def contents_def take_append drop_take)
qed

lemma poke_append:
  assumes "buffer_ok b" "b_used b + b_left b + length d \<le> b_size b"
  obtains b' where "poke b (b_used b + b_left b) d = Some b'" "b_size b' = b_size b" "b_used b' = b_used b"
    "b_left b' = b_left b" "length (b_data b') = b_size b"
    "take (b_left b + length d) (drop (b_used b) (b_data b')) = contents b @ d"
proof -
  let ?off = "b_used b + b_left b"
  define b' where "b' = b\<lparr>b_data := take ?off (b_data b) @ d @ drop (?off + length d) (b_data b)\<rparr>"
  have "poke b ?off d = Some b'" using assms(2) by (simp add: poke_def b'_def)
  moreover have "length (b_data b') = b_size b" using assms by (simp add: b'_def buffer_ok_def)
  moreover have "take (b_left b + length d) (drop (b_used b) (b_data b')) = contents b @ d"
    using assms by (simp add: b'_def contents_def buffer_ok_def drop_take)
  ultimately show ?thesis using that [of b'] by (simp add: b'_def)
qed

lemma buffer_append_contents:
  assumes "buffer_ok b"
  shows "\<exists>b'. buffer_append b d = Some b' \<and> buffer_ok b' \<and> contents b' = contents b @ d"
proof (cases "d = []")
  case False
  define b1 where "b1 = buffer_resize b (b_used b + b_left b + length d)"
  note r = buffer_resize_facts [OF assms, of "b_used b + b_left b + length d", folded b1_def]
  have "b_used b1 + b_left b1 + length d \<le> b_size b1" using r by simp
  then obtain b' where b': "poke b1 (b_used b1 + b_left b1) d = Some b'" "b_size b' = b_size b1" "b_used b' = b_used b1"
    "b_left b' = b_left b1" "length (b_data b') = b_size b1"
    "take (b_left b1 + length d) (drop (b_used b1) (b_data b')) = contents b1 @ d"
    by (rule poke_append [OF r(1)])
  have "poke (b1\<lparr>b_left := b_left b1 + length d\<rparr>) (b_used b + b_left b) d = Some (b'\<lparr>b_left := b_left b1 + length d\<rparr>)"
    using b'(1) r(4,5) by (auto simp: poke_def split: if_splits)
  then show ?thesis
    using False b' r by (auto simp: buffer_append_def Let_def b1_def [symmetric] buffer_ok_def contents_def)
qed (use assms in \<open>simp add: buffer_append_def\<close>)

lemma length_contents: "buffer_ok b \<Longrightarrow> length (contents b) = b_left b"
  by (auto simp: contents_def buffer_ok_def)

lemma buffer_set_contents:
  assumes "buffer_ok b"
  shows "\<exists>b'. buffer_set b d = Some b' \<and> buffer_ok b' \<and> contents b' = d \<and> b_used b' = 0"
proof (cases "d = []")
  case True
  with assms show ?thesis by (auto simp: buffer_set_def buffer_ok_def contents_def)
next
  case False
  note r = buffer_resize_facts(1,2) [OF assms, of "length d"]
  show ?thesis
    using False r
    by (auto simp: buffer_set_def poke_def buffer_ok_def contents_def)
qed

lemma buffer_compact_contents:
  assumes "buffer_ok b"
  shows "\<exists>b'. buffer_compact b = Some b' \<and> buffer_ok b' \<and> contents b' = contents b \<and> b_used b' = 0"
proof (cases "b_used b = 0 \<or> b_left b = 0")
  case True
  with assms show ?thesis by (auto simp: buffer_compact_def buffer_ok_def contents_def)
next
  case False
  with assms show ?thesis
    by (auto simp: buffer_compact_def poke_def buffer_ok_def contents_def)
qed

lemma vsnprintf_keeps:
  assumes "buffer_ok b" "avail = b_size b - (b_used b + b_left b)"
  shows "\<exists>b'. vsnprintf b (b_used b + b_left b) avail txt = Some b' \<and> buffer_ok b' \<and> contents b' = contents b
    \<and> b_size b' = b_size b \<and> b_used b' = b_used b \<and> b_left b' = b_left b
    \<and> (length txt < avail \<longrightarrow> contents (b'\<lparr>b_left := b_left b' + length txt\<rparr>) = contents b @ txt)"
proof (cases "avail = 0")
  case True
  with assms show ?thesis by (simp add: vsnprintf_def)
next
  case False
  define d where "d = take (avail - 1) txt @ [NUL]"
  have "length d \<le> avail" using False by (simp add: d_def)
  then have fits: "b_used b + b_left b + length d \<le> b_size b" using assms False by (simp add: buffer_ok_def)
  obtain b' where b': "poke b (b_used b + b_left b) d = Some b'" "b_size b' = b_size b" "b_used b' = b_used b"
    "b_left b' = b_left b" "length (b_data b') = b_size b"
    "take (b_left b + length d) (drop (b_used b) (b_data b')) = contents b @ d"
    by (rule poke_append [OF assms(1) fits])
  note lc = length_contents [OF assms(1)]
  have pre: "take n (drop (b_used b) (b_data b')) = take n (contents b @ d)" if "n \<le> b_left b + length d" for n
    using arg_cong [OF b'(6), of "take n"] that by (simp add: min_absorb1)
  have "contents b' = contents b" using pre [of "b_left b"] b'(3,4) lc by (simp add: contents_def)
  moreover have "contents (b'\<lparr>b_left := b_left b' + length txt\<rparr>) = contents b @ txt" if "length txt < avail"
    using pre [of "b_left b + length txt"] b'(3,4) lc that by (simp add: contents_def d_def)
  moreover have "buffer_ok b'" using assms(1) b'(2-5) by (simp add: buffer_ok_def)
  ultimately show ?thesis using b' False by (simp add: vsnprintf_def d_def)
qed

lemma buffer_append_vsprintf_contents:
  assumes "buffer_ok b"
  shows "\<exists>b'. buffer_append_vsprintf b txt = Some b' \<and> buffer_ok b' \<and> contents b' = contents b @ txt"
proof -
  define avail where "avail = b_size b - (b_used b + b_left b)"
  obtain b1 where b1: "vsnprintf b (b_used b + b_left b) avail txt = Some b1" "buffer_ok b1" "contents b1 = contents b"
    "b_size b1 = b_size b" "b_used b1 = b_used b" "b_left b1 = b_left b"
    "length txt < avail \<longrightarrow> contents (b1\<lparr>b_left := b_left b1 + length txt\<rparr>) = contents b @ txt"
    using vsnprintf_keeps [OF assms avail_def] by blast
  show ?thesis
  proof (cases "length txt < avail")
    case True
    then have "buffer_ok (b1\<lparr>b_left := b_left b1 + length txt\<rparr>)"
      using b1(2,4-6) by (simp add: buffer_ok_def avail_def)
    with True b1 show ?thesis by (simp add: buffer_append_vsprintf_def Let_def avail_def [symmetric])
  next
    case False
    define b2 where "b2 = buffer_resize b1 (b_used b + b_left b + length txt + 1)"
    note r = buffer_resize_facts [OF b1(2), of "b_used b + b_left b + length txt + 1", folded b2_def]
    define avail2 where "avail2 = b_size b2 - (b_used b2 + b_left b2)"
    have a2: "length txt < avail2" using r b1(5,6) by (simp add: avail2_def)
    obtain b3 where b3: "vsnprintf b2 (b_used b2 + b_left b2) avail2 txt = Some b3" "buffer_ok b3"
      "b_size b3 = b_size b2" "b_used b3 = b_used b2" "b_left b3 = b_left b2"
      "contents (b3\<lparr>b_left := b_left b3 + length txt\<rparr>) = contents b2 @ txt"
      using vsnprintf_keeps [OF r(1) avail2_def, of "txt"] a2 by blast
    have "buffer_ok (b3\<lparr>b_left := b_left b3 + length txt\<rparr>)"
      using b3(2-5) a2 by (simp add: buffer_ok_def avail2_def)
    moreover have "contents b2 = contents b" using r(3) b1(3) by simp
    moreover have ul: "b_used b2 = b_used b" "b_left b2 = b_left b" using r(4,5) b1(5,6) by simp_all
    then have "avail2 = b_size b2 - (b_used b + b_left b)" by (simp add: avail2_def)
    ultimately show ?thesis
      using False b1(1) b3(1,6) a2 ul
      by (simp add: buffer_append_vsprintf_def Let_def avail_def [symmetric] b2_def [simplified, symmetric])
  qed
qed

lemma buffer_vsprintf_contents:
  assumes "buffer_ok b"
  shows "\<exists>b'. buffer_vsprintf b txt = Some b' \<and> buffer_ok b' \<and> contents b' = txt"
proof -
  obtain b1 where "buffer_set b [] = Some b1" "buffer_ok b1" "contents b1 = []"
    using buffer_set_contents [OF assms] by blast
  with buffer_append_vsprintf_contents [of b1 "txt"] show ?thesis by (auto simp: buffer_vsprintf_def)
qed

text \<open>The search finds the first occurrence that starts at or behind \<open>start\<close>.\<close>

definition occurs_at :: "string \<Rightarrow> nat \<Rightarrow> string \<Rightarrow> bool" where
  "occurs_at str i c \<longleftrightarrow> i + length str \<le> length c \<and> take (length str) (drop i c) = str"

lemma find_loop_first:
  assumes "buffer_ok b" "str \<noteq> []"
  shows "(case find_loop b str start of
      None \<Rightarrow> \<forall>i \<ge> start. \<not> occurs_at str i (contents b)
    | Some i \<Rightarrow> start \<le> i \<and> occurs_at str i (contents b) \<and> (\<forall>j. start \<le> j \<and> j < i \<longrightarrow> \<not> occurs_at str j (contents b)))"
  using assms
proof (induction b str start rule: find_loop.induct)
  case (1 b str start)
  note lc = length_contents [OF 1(2)]
  define seg where "seg = take (b_left b - start) (drop (b_used b + start) (b_data b))"
  have seg: "seg = drop start (contents b)" by (simp add: seg_def contents_def drop_take add.commute)
  define k where "k = length (takeWhile (\<lambda>c. c \<noteq> peek str) seg)"
  have before: "\<not> occurs_at str j (contents b)" if "start \<le> j" "j < start + k" for j
  proof
    assume "occurs_at str j (contents b)"
    then have j: "j < length (contents b)" "contents b ! j = peek str"
      using 1(3) by (cases str; auto simp: occurs_at_def hd_drop_conv_nth [symmetric] take_Suc)+
    moreover have "seg ! (j - start) = contents b ! j" using that j(1) by (simp add: seg)
    moreover have "seg ! (j - start) \<noteq> peek str"
    proof -
      have "j - start < k" using that by simp
      then have "seg ! (j - start) \<in> set (takeWhile (\<lambda>c. c \<noteq> peek str) seg)"
        using nth_mem [of "j - start" "takeWhile (\<lambda>c. c \<noteq> peek str) seg"] by (simp add: k_def takeWhile_nth)
      then show ?thesis by (auto dest: set_takeWhileD)
    qed
    ultimately show False by simp
  qed
  show ?case
  proof (cases "k \<ge> length seg")
    case True
    then have "\<not> occurs_at str i (contents b)" if "start \<le> i" for i
      using before [OF that] lc 1(3) by (cases "i < start + k") (auto simp: seg occurs_at_def)
    with True show ?thesis by (subst find_loop.simps) (auto simp: Let_def seg_def [symmetric] k_def [symmetric])
  next
    case kl: False
    define s' where "s' = start + k"
    show ?thesis
    proof (cases "b_left b - s' < length str")
      case True
      then have "\<not> occurs_at str i (contents b)" if "start \<le> i" for i
        using before [OF that] lc by (cases "i < s'") (auto simp: s'_def occurs_at_def)
      with True kl show ?thesis
        by (subst find_loop.simps) (auto simp: Let_def seg_def [symmetric] k_def [symmetric] s'_def [symmetric])
    next
      case room: False
      have sl: "s' < b_left b" using kl lc by (auto simp: s'_def seg)
      have cmp: "take (length str) (drop (b_used b + s') (b_data b)) = take (length str) (drop s' (contents b))"
        using room by (simp add: contents_def drop_take add.commute min_absorb1)
      show ?thesis
      proof (cases "take (length str) (drop s' (contents b)) = str")
        case True
        then have "occurs_at str s' (contents b)" using room sl lc by (auto simp: occurs_at_def)
        moreover have "find_loop b str start = Some s'"
          using True kl room cmp
          by (subst find_loop.simps) (auto simp: Let_def seg_def [symmetric] k_def [symmetric] s'_def [symmetric])
        ultimately show ?thesis using before by (auto simp: s'_def)
      next
        case False
        then have no: "\<not> occurs_at str s' (contents b)" by (simp add: occurs_at_def)
        have run: "find_loop b str start = find_loop b str (s' + 1)"
          using False kl room cmp
          by (subst find_loop.simps) (auto simp: Let_def seg_def [symmetric] k_def [symmetric] s'_def [symmetric])
        have IH: "case find_loop b str (s' + 1) of None \<Rightarrow> \<forall>i \<ge> s' + 1. \<not> occurs_at str i (contents b)
            | Some i \<Rightarrow> s' + 1 \<le> i \<and> occurs_at str i (contents b)
               \<and> (\<forall>j. s' + 1 \<le> j \<and> j < i \<longrightarrow> \<not> occurs_at str j (contents b))"
          by (rule 1(1) [OF seg_def k_def kl s'_def room _ 1(2,3)]) (use False cmp in simp)
        have split: "j < s' \<or> j = s' \<or> s' + 1 \<le> j" for j by linarith
        show ?thesis
        proof (cases "find_loop b str (s' + 1)")
          case None
          then show ?thesis using IH run before no split unfolding s'_def by (simp, metis)
        next
          case (Some i)
          then show ?thesis using IH run before no split unfolding s'_def by (simp, metis le_add1 order_trans less_or_eq_imp_le)
        qed
      qed
    qed
  qed
qed

text \<open>Reading: the contents grow by what the descriptor delivers, up to its end or an error.\<close>

fun delivered :: "read_result list \<Rightarrow> string \<times> bool" where
  "delivered [] = ([], True)"
| "delivered (Interrupted # fd) = delivered fd"
| "delivered (EndOfFile # fd) = ([], True)"
| "delivered (ReadError # fd) = ([], False)"
| "delivered (Data d # fd) = (if d = [] then ([], True) else apfst ((@) d) (delivered fd))"

lemma buffer_read_contents:
  assumes "buffer_ok b"
  shows "\<exists>n b' fd'. buffer_read b fd = Some (n, b', fd') \<and> buffer_ok b' \<and> b_size b' = b_size b
    \<and> (b_used b + b_left b < b_size b \<longrightarrow>
        (\<exists>got. contents b' = contents b @ got \<and> n = (if got \<noteq> [] then int (length got) else if snd (delivered fd) then 0 else -1)
           \<and> delivered fd = (if got \<noteq> [] then apfst ((@) got) (delivered fd') else ([], snd (delivered fd)))))"
  using assms
proof (induction b fd rule: buffer_read.induct)
  case (2 b fd)
  then show ?case by (simp only: buffer_read.simps delivered.simps)
next
  case (5 b d fd)
  define n where "n = b_size b - (b_used b + b_left b)"
  define got where "got = take n d"
  have fits: "b_used b + b_left b + length got \<le> b_size b" using 5 by (auto simp: got_def n_def buffer_ok_def)
  obtain b' where b': "poke b (b_used b + b_left b) got = Some b'" "b_size b' = b_size b" "b_used b' = b_used b"
    "b_left b' = b_left b" "length (b_data b') = b_size b"
    "take (b_left b + length got) (drop (b_used b) (b_data b')) = contents b @ got"
    by (rule poke_append [OF 5 fits])
  define fd' where "fd' = (if length d \<le> n then fd else Data (drop n d) # fd)"
  have D: "delivered (Data d # fd) = (if got \<noteq> [] then apfst ((@) got) (delivered fd') else ([], snd (delivered (Data d # fd))))"
    if "0 < n"
    using that by (cases "delivered fd") (auto simp: fd'_def got_def)
  have E: "got = [] \<Longrightarrow> 0 < n \<Longrightarrow> snd (delivered (Data d # fd))" by (auto simp: got_def)
  define b1 where "b1 = b'\<lparr>b_left := b_left b' + length got\<rparr>"
  show ?case
  proof (intro exI conjI impI)
    show "buffer_read b (Data d # fd) = Some (int (length got), b1, fd')"
      using b'(1) by (simp add: Let_def n_def got_def fd'_def b1_def)
    show "buffer_ok b1" "b_size b1 = b_size b" using b' fits by (simp_all add: b1_def buffer_ok_def)
    show "contents b1 = contents b @ got" using b' by (simp add: b1_def contents_def)
    assume "b_used b + b_left b < b_size b"
    then have n: "0 < n" by (simp add: n_def)
    show "delivered (Data d # fd) = (if got \<noteq> [] then apfst ((@) got) (delivered fd') else ([], snd (delivered (Data d # fd))))"
      by (rule D [OF n])
    show "int (length got) = (if got \<noteq> [] then int (length got) else if snd (delivered (Data d # fd)) then 0 else - 1)"
      using E [OF _ n] by (simp del: delivered.simps)
  qed
qed auto

lemma read_all_loop_contents:
  assumes "buffer_ok b" "0 < b_size b"
  shows "\<exists>b'. read_all_loop b fd = Some (snd (delivered fd), b') \<and> buffer_ok b'
    \<and> contents b' = contents b @ fst (delivered fd)"
  using assms
proof (induction b fd rule: read_all_loop.induct)
  case (1 b fd)
  define b0 where "b0 = (if b_size b \<le> b_used b + b_left b then buffer_resize b (b_size b * 2) else b)"
  have b0: "buffer_ok b0" "contents b0 = contents b" "b_used b0 + b_left b0 < b_size b0" "0 < b_size b0"
    using buffer_resize_facts [OF 1(2), of "b_size b * 2"] 1(2,3) by (auto simp: b0_def buffer_ok_def)
  obtain n b1 fd1 where rd: "buffer_read b0 fd = Some (n, b1, fd1)" "buffer_ok b1" "b_size b1 = b_size b0"
    "\<exists>got. contents b1 = contents b0 @ got \<and> n = (if got \<noteq> [] then int (length got) else if snd (delivered fd) then 0 else -1)
       \<and> delivered fd = (if got \<noteq> [] then apfst ((@) got) (delivered fd1) else ([], snd (delivered fd)))"
    using buffer_read_contents [OF b0(1), of fd] b0(3) by blast
  then obtain got where got: "contents b1 = contents b0 @ got"
    "n = (if got \<noteq> [] then int (length got) else if snd (delivered fd) then 0 else -1)"
    "delivered fd = (if got \<noteq> [] then apfst ((@) got) (delivered fd1) else ([], snd (delivered fd)))" by blast
  note u = read_all_loop.simps [of b fd, unfolded Let_def, folded b0_def]
  show ?case
  proof (cases "got = []")
    case True
    with got(3) have "fst (delivered fd) = []" by (metis fst_conv)
    with True got(1,2) rd(1,2) b0(2) show ?thesis unfolding u by auto
  next
    case False
    then have n: "0 < n" using got(2) by simp
    have "0 < b_size b1" using rd(3) b0(4) by simp
    from 1(1) [OF refl b0_def rd(1) refl refl n rd(2) this]
    obtain b' where "read_all_loop b1 fd1 = Some (snd (delivered fd1), b')" "buffer_ok b'"
      "contents b' = contents b1 @ fst (delivered fd1)" by blast
    moreover have "delivered fd = apfst ((@) got) (delivered fd1)" using got(3) False by simp
    ultimately show ?thesis using n rd(1) got(1) b0(2) unfolding u by (cases "delivered fd1") auto
  qed
qed

lemma buffer_read_all_contents:
  assumes "buffer_ok b"
  shows "\<exists>b'. buffer_read_all b fd = Some (snd (delivered fd), b') \<and> buffer_ok b'
    \<and> contents b' = contents b @ fst (delivered fd)"
proof -
  define b0 where "b0 = (if b_size b = 0 then buffer_resize b 1024 else b)"
  have "buffer_ok b0" "contents b0 = contents b" "0 < b_size b0"
    using buffer_resize_facts [OF assms, of 1024] assms by (auto simp: b0_def)
  from read_all_loop_contents [OF this(1,3), of fd] this(2) show ?thesis
    by (simp add: buffer_read_all_def b0_def)
qed

subsection \<open>Properties\<close>

text \<open>C32: from a buffer in a valid state every operation that stores data stays inside the allocation, leaves a valid
  state, and has the effect of its abstract counterpart on the unconsumed contents: appending (plain and
  formatted text, on the path that has to grow the buffer as well) appends, setting replaces,
  compacting changes nothing but moves the data to the front, and reading all appends what the descriptor delivers,
  interruptions skipped, and succeeds exactly when no error came before the end.\<close>

theorem buffer_refines_contents:
  assumes "buffer_ok b"
  shows "(\<exists>b'. buffer_append b d = Some b' \<and> buffer_ok b' \<and> contents b' = contents b @ d)
    \<and> (\<exists>b'. buffer_append_vsprintf b d = Some b' \<and> buffer_ok b' \<and> contents b' = contents b @ d)
    \<and> (\<exists>b'. buffer_set b d = Some b' \<and> buffer_ok b' \<and> contents b' = d)
    \<and> (\<exists>b'. buffer_vsprintf b d = Some b' \<and> buffer_ok b' \<and> contents b' = d)
    \<and> (\<exists>b'. buffer_compact b = Some b' \<and> buffer_ok b' \<and> contents b' = contents b \<and> b_used b' = 0)
    \<and> (\<exists>b'. buffer_read_all b fd = Some (snd (delivered fd), b') \<and> buffer_ok b'
         \<and> contents b' = contents b @ fst (delivered fd))"
  using buffer_append_contents [OF assms] buffer_append_vsprintf_contents [OF assms] buffer_set_contents [OF assms]
    buffer_vsprintf_contents [OF assms] buffer_compact_contents [OF assms] buffer_read_all_contents [OF assms]
  by blast

theorem buffer_refines_contents_witness:
  "\<exists>b'. buffer_append buffer_new ''abc'' = Some b' \<and> buffer_ok b' \<and> contents b' = ''abc''"
proof -
  have "buffer_ok buffer_new" "contents buffer_new = []" by (simp_all add: buffer_ok_def buffer_new_def contents_def)
  with buffer_refines_contents [of buffer_new "''abc''"] show ?thesis by simp
qed



end
