(* ===== verification/Overdata.thy ===== *)
theory Overdata
  imports Wire Vector Buffer
begin

text \<open>
  Overview data (\<^verbatim>\<open>storage/overdata.c\<close>): building the tab-separated overview line of an article in
  a buffer, checking such a line, and taking it apart. An article is the list of its octets, with indices for pointers
  (as in the theory of wire-format articles); the line that is checked is split in place, so
  a pointer to a field is the rest of that memory, nuls included. The vector of pointers of \<open>overview_split\<close> is a
  list of indices (adding to a vector always succeeds); \<^verbatim>\<open>atoi\<close> is used within the range of
  \<^verbatim>\<open>int\<close> only. The settings that name the extra fields are arguments.
\<close>

definition fields :: "string list" where
  "fields = [''Subject'', ''From'', ''Date'', ''Message-ID'', ''References'', ''Bytes'', ''Lines'']"

definition overview_fields :: "string list" where
  "overview_fields = fields"

text \<open>A vector of settings may be absent, and may hold NULL pointers.\<close>

definition overview_extra_fields ::
    "string option list option \<Rightarrow> string option list option \<Rightarrow> bool \<Rightarrow> string list" where
  "overview_extra_fields advertised hidden_fields hidden =
     (let listed = (\<lambda>v. case v of None \<Rightarrow> [] | Some ss \<Rightarrow> List.map_filter (\<lambda>s. s) ss)
      in [''Xref''] @ listed advertised @ (if hidden then listed hidden_fields else []))"

subsection \<open>Building\<close>

lemma wire_findheader_bounds:
  "wire_findheader art header s = Some q \<Longrightarrow> length header + 2 \<le> q \<and> q < length art"
  using findheader_loop_sound [of art header s 0 q]
  by (auto simp: wire_findheader_def line_start_def split: if_splits)

text \<open>The search for the last Xref field; \<open>None\<close> is a field without end.\<close>

function xref_loop :: "string \<Rightarrow> string \<Rightarrow> nat \<Rightarrow> nat \<Rightarrow> nat \<Rightarrow> (nat \<times> nat) option" where
  "xref_loop art header nxt data e =
     (case wire_findheader (drop nxt art) header False of
        None \<Rightarrow> Some (data, e)
      | Some k \<Rightarrow>
          (case wire_endheader art (nxt + k) of
             None \<Rightarrow> None
           | Some e' \<Rightarrow> xref_loop art header (nxt + k) (nxt + k) e'))"
  by pat_completeness auto
termination
  by (relation "measure (\<lambda>(art, h, nxt, d, e). length art - nxt)") (auto dest!: wire_findheader_bounds)

declare xref_loop.simps [simp del]

definition clean_octet :: "char \<Rightarrow> char" where
  "clean_octet c = (if c = NUL \<or> c = HT \<or> c = LF \<or> c = CR then SP else c)"

function copy_loop :: "string \<Rightarrow> nat \<Rightarrow> nat \<Rightarrow> nat \<Rightarrow> buffer \<Rightarrow> buffer option" where
  "copy_loop art p e offset b =
     (if p \<le> e then
        if octet art p = CR \<and> octet art (p + 1) = LF then copy_loop art (p + 2) e offset b
        else (case poke b offset [clean_octet (octet art p)] of
                None \<Rightarrow> None
              | Some b \<Rightarrow> copy_loop art (p + 1) e (offset + 1) (b\<lparr>b_left := b_left b + 1\<rparr>))
      else Some b)"
  by pat_completeness auto
termination
  by (relation "measure (\<lambda>(art, p, e, off, b). Suc e - p)") auto

declare copy_loop.simps [simp del]

definition find_value :: "string \<Rightarrow> string \<Rightarrow> (nat \<times> nat) option" where
  "find_value art header =
     (case wire_findheader art header False of
        None \<Rightarrow> None
      | Some data \<Rightarrow>
        (case wire_endheader art data of
           None \<Rightarrow> None
         | Some e \<Rightarrow>
             if map tolower header = ''xref'' then xref_loop art header (e + 1) data e else Some (data, e)))"

definition build_header :: "string \<Rightarrow> string \<Rightarrow> buffer \<Rightarrow> buffer option" where
  "build_header art header overview =
     (case find_value art header of
        None \<Rightarrow> Some overview
      | Some (data, e) \<Rightarrow>
          let sz = e - data + 1; offset = b_used overview + b_left overview
          in copy_loop art data e offset (buffer_resize overview (offset + sz)))"

fun standard_loop :: "string \<Rightarrow> nat \<Rightarrow> string list \<Rightarrow> buffer \<Rightarrow> buffer option" where
  "standard_loop art field [] b = Some b"
| "standard_loop art field (f # fs) b =
     (case buffer_append b [HT] of
        None \<Rightarrow> None
      | Some b \<Rightarrow>
        (case (if field = 5 then buffer_append b (show_nat (length art)) else build_header art f b) of
           None \<Rightarrow> None
         | Some b \<Rightarrow> standard_loop art (field + 1) fs b))"

fun extra_loop :: "string \<Rightarrow> string list \<Rightarrow> buffer \<Rightarrow> buffer option" where
  "extra_loop art [] b = Some b"
| "extra_loop art (f # fs) b =
     (case Option.bind (Option.bind (buffer_append b [HT]) (\<lambda>b. buffer_append b f)) (\<lambda>b. buffer_append b '': '') of
        None \<Rightarrow> None
      | Some b \<Rightarrow>
        (case build_header art f b of None \<Rightarrow> None | Some b \<Rightarrow> extra_loop art fs b))"

definition overview_build ::
    "nat \<Rightarrow> string \<Rightarrow> string list option \<Rightarrow> buffer option \<Rightarrow> buffer option" where
  "overview_build number art extra overview =
     (let b = (case overview of None \<Rightarrow> buffer_new | Some b \<Rightarrow> b)
      in case buffer_set b (show_nat number) of
           None \<Rightarrow> None
         | Some b \<Rightarrow>
           (case standard_loop art 0 fields b of
              None \<Rightarrow> None
            | Some b \<Rightarrow>
              (case (case extra of None \<Rightarrow> Some b | Some fs \<Rightarrow> extra_loop art fs b) of
                 None \<Rightarrow> None
               | Some b \<Rightarrow> buffer_append b [CR, LF])))"

subsection \<open>Checking\<close>

text \<open>Pointers into the split memory: the string at \<open>p\<close> ends at the first nul.\<close>

fun valid_number :: "string \<Rightarrow> bool" where
  "valid_number [] = True"
| "valid_number (c # p) = (if c = NUL then True else if \<not> isdigit c then False else valid_number p)"

fun name_loop :: "string \<Rightarrow> string option" where
  "name_loop [] = Some []"
| "name_loop (c # p) =
     (if c = NUL \<or> c = CHR '':'' then Some (c # p) else if \<not> isgraph c then None else name_loop p)"

fun line_loop :: "string \<Rightarrow> bool" where
  "line_loop [] = True"
| "line_loop (c # p) =
     (if c = NUL then True
      else if c = CR \<and> peek p = LF \<and> peek (tl p) = NUL then True
      else if c = CR \<or> c = LF then False
      else line_loop p)"

definition valid_overview_string :: "string \<Rightarrow> bool \<Rightarrow> bool" where
  "valid_overview_string p full =
     (if full then
        if peek p = NUL \<or> peek p = CR \<and> peek (tl p) = LF \<and> peek (drop 2 p) = NUL then True
        else (case name_loop p of
                None \<Rightarrow> False
              | Some p \<Rightarrow>
                  if peek p \<noteq> CHR '':'' then False
                  else let p = tl p in if peek p \<noteq> SP then False else line_loop (tl p))
      else line_loop (tl p))"

definition strtoul :: "string \<Rightarrow> nat" where
  "strtoul s = (let v = dec_value (takeWhile isdigit s) in if v > SIZE_MAX then SIZE_MAX else v)"

definition overview_check :: "string \<Rightarrow> nat \<Rightarrow> bool option" where
  "overview_check data article =
     (let copy = xstrndup data (length data)
      in case cvector_split copy HT None of
           None \<Rightarrow> None
         | Some (mem, v) \<Rightarrow>
           let strings = map (\<lambda>p. drop p mem) (List.map_filter (\<lambda>p. p) (v_list v))
           in Some
             (if v_count v < 8 then False
              else if \<not> valid_number (strings ! 0) then False
              else if strtoul (strings ! 0) \<noteq> article then False
              else if \<not> valid_number (strings ! 6) then False
              else if list_ex (\<lambda>i. \<not> valid_overview_string (strings ! i) False) [1..<6] then False
              else if list_ex (\<lambda>i. \<not> valid_overview_string (strings ! i) True) [8..<v_count v] then False
              else True))"

subsection \<open>Taking a line apart\<close>

fun field_index :: "string \<Rightarrow> string list \<Rightarrow> int \<Rightarrow> int" where
  "field_index f [] i = -1"
| "field_index f (g # gs) i = (if map tolower f = map tolower g then i else field_index f gs (i + 1))"

definition overview_index :: "string \<Rightarrow> string list \<Rightarrow> int" where
  "overview_index field extra =
     (let i = field_index field fields 0
      in if i \<noteq> -1 then i else field_index field extra (int (length fields)))"

definition atoi :: "string \<Rightarrow> int" where
  "atoi s =
     (let s = dropWhile (\<lambda>c. c = SP \<or> (9 \<le> byte c \<and> byte c \<le> 13)) s;
          neg = (peek s = CHR ''-'');
          s = (if neg \<or> peek s = CHR ''+'' then tl s else s);
          v = int (dec_value (takeWhile isdigit s))
      in if neg then - v else v)"

text \<open>The pointers are indices; the last one, \<open>line + length - 1\<close>, may lie before the line.\<close>

function split_fields :: "string \<Rightarrow> nat \<Rightarrow> bool \<Rightarrow> int list" where
  "split_fields line p first =
     (let here = (if first then [] else [int p])
      in case memchr_from line p HT (length line - p) of
           Some q \<Rightarrow> here @ split_fields line (q + 1) False
         | None \<Rightarrow> here @ [int (length line) - 1])"
  by pat_completeness auto
termination
proof (relation "measure (\<lambda>(l, p, f). length l - p)", goal_cases)
  case (2 line p first here q)
  then show ?case using memchr_from_Some(1,3) [OF 2(2)] by simp
qed simp

declare split_fields.simps [simp del]

definition overview_split :: "string \<Rightarrow> int \<times> int list" where
  "overview_split line = (atoi line, split_fields line 0 True)"

text \<open>\<^verbatim>\<open>xstrndup\<close> with a \<^verbatim>\<open>size_t\<close> length: a negative difference is a huge number.\<close>

definition copy_field :: "string \<Rightarrow> int \<Rightarrow> int \<Rightarrow> string" where
  "copy_field line p len = xstrndup (drop (nat p) line) (if len < 0 then length line else nat len)"

definition overview_get_standard_header :: "string \<Rightarrow> int list \<Rightarrow> nat \<Rightarrow> string option" where
  "overview_get_standard_header line vector element =
     (if element + 1 \<ge> length vector \<or> element > length fields - 1 then None
      else Some (copy_field line (vector ! element) (vector ! (element + 1) - vector ! element - 1)))"

fun extra_header_loop :: "string \<Rightarrow> int list \<Rightarrow> string \<Rightarrow> nat list \<Rightarrow> string option" where
  "extra_header_loop line vector header [] = None"
| "extra_header_loop line vector header (i # is) =
     (let p = vector ! i; n = length header
      in if map tolower (take n (drop (nat p) line)) = map tolower header
            \<and> octet line (nat p + n) = CHR '':'' \<and> octet line (nat p + n + 1) = SP
         then Some (copy_field line (p + int n + 2) (vector ! (i + 1) - (p + int n + 2) - 1))
         else extra_header_loop line vector header is)"

definition overview_get_extra_header :: "string \<Rightarrow> int list \<Rightarrow> string \<Rightarrow> string option" where
  "overview_get_extra_header line vector header =
     extra_header_loop line vector header [length fields..<length vector - 1]"

subsection \<open>The line that is built\<close>

function copied :: "string \<Rightarrow> nat \<Rightarrow> nat \<Rightarrow> string" where
  "copied art p e =
     (if p \<le> e then
        if octet art p = CR \<and> octet art (p + 1) = LF then copied art (p + 2) e
        else clean_octet (octet art p) # copied art (p + 1) e
      else [])"
  by pat_completeness auto
termination by (relation "measure (\<lambda>(art, p, e). Suc e - p)") auto

declare copied.simps [simp del]

lemma poke_back:
  assumes "buffer_ok b" "b_used b + b_left b < b_size b"
  shows "\<exists>b'. poke b (b_used b + b_left b) [c] = Some b' \<and> buffer_ok (b'\<lparr>b_left := b_left b' + 1\<rparr>)
    \<and> contents (b'\<lparr>b_left := b_left b' + 1\<rparr>) = contents b @ [c]
    \<and> b_size b' = b_size b \<and> b_used b' = b_used b \<and> b_left b' = b_left b"
proof -
  have "b_used b + b_left b + length [c] \<le> b_size b" using assms(2) by simp
  then obtain b' where "poke b (b_used b + b_left b) [c] = Some b'" "b_size b' = b_size b" "b_used b' = b_used b"
    "b_left b' = b_left b" "length (b_data b') = b_size b"
    "take (b_left b + length [c]) (drop (b_used b) (b_data b')) = contents b @ [c]"
    by (rule poke_append [OF assms(1)])
  with assms(2) show ?thesis by (auto simp: buffer_ok_def contents_def)
qed

lemma copy_loop_contents:
  assumes "buffer_ok b" "offset = b_used b + b_left b" "b_used b + b_left b + (Suc e - p) \<le> b_size b"
  shows "\<exists>b'. copy_loop art p e offset b = Some b' \<and> buffer_ok b' \<and> contents b' = contents b @ copied art p e"
  using assms
proof (induction art p e offset b rule: copy_loop.induct)
  case (1 art p e offset b)
  show ?case
  proof (cases "p \<le> e")
    case le: True
    show ?thesis
    proof (cases "octet art p = CR \<and> octet art (p + 1) = LF")
      case True
      then show ?thesis
        using 1(1) [OF le True] 1(3-5) le by (subst copy_loop.simps, subst copied.simps) simp
    next
      case False
      obtain b1 where b1: "poke b offset [clean_octet (octet art p)] = Some b1" "buffer_ok (b1\<lparr>b_left := b_left b1 + 1\<rparr>)"
        "contents (b1\<lparr>b_left := b_left b1 + 1\<rparr>) = contents b @ [clean_octet (octet art p)]"
        "b_size b1 = b_size b" "b_used b1 = b_used b" "b_left b1 = b_left b"
      proof -
        have "b_used b + b_left b < b_size b" using 1(5) le by linarith
        from poke_back [OF 1(3) this, of "clean_octet (octet art p)"] 1(4) that show ?thesis by blast
      qed
      have "\<exists>b'. copy_loop art (p + 1) e (offset + 1) (b1\<lparr>b_left := b_left b1 + 1\<rparr>) = Some b' \<and> buffer_ok b'
          \<and> contents b' = contents (b1\<lparr>b_left := b_left b1 + 1\<rparr>) @ copied art (p + 1) e"
        by (rule 1(2) [OF le False b1(1,2)]) (use b1(4-6) 1(4,5) le in simp_all)
      with le False b1(1,3) show ?thesis by (subst copy_loop.simps, subst copied.simps) auto
    qed
  next
    case False
    with 1(3) show ?thesis by (subst copy_loop.simps, subst copied.simps) simp
  qed
qed

definition header_value :: "string \<Rightarrow> string \<Rightarrow> string" where
  "header_value art header = (case find_value art header of None \<Rightarrow> [] | Some (data, e) \<Rightarrow> copied art data e)"

lemma build_header_contents:
  assumes "buffer_ok b"
  shows "\<exists>b'. build_header art header b = Some b' \<and> buffer_ok b' \<and> contents b' = contents b @ header_value art header"
proof (cases "find_value art header")
  case (Some de)
  obtain data e where de: "de = (data, e)" by fastforce
  define b1 where "b1 = buffer_resize b (b_used b + b_left b + (e - data + 1))"
  note r = buffer_resize_facts [OF assms, of "b_used b + b_left b + (e - data + 1)", folded b1_def]
  have "\<exists>b'. copy_loop art data e (b_used b + b_left b) b1 = Some b' \<and> buffer_ok b' \<and> contents b' = contents b1 @ copied art data e"
    by (rule copy_loop_contents [OF r(1)]) (use r in auto)
  with Some de r(3) show ?thesis
    by (simp add: build_header_def header_value_def Let_def b1_def)
qed (use assms in \<open>simp add: build_header_def header_value_def\<close>)

definition clean :: "string \<Rightarrow> bool" where
  "clean w \<longleftrightarrow> set w \<inter> {NUL, HT, LF, CR} = {}"

lemma clean_simps [simp]:
  "clean []" "clean (c # w) \<longleftrightarrow> c \<notin> {NUL, HT, LF, CR} \<and> clean w" "clean (v @ w) \<longleftrightarrow> clean v \<and> clean w"
  by (auto simp: clean_def)

lemma clean_copied: "clean (copied art p e)"
proof (induction art p e rule: copied.induct)
  case (1 art p e)
  then show ?case by (subst copied.simps) (auto simp: clean_octet_def)
qed

lemma clean_header_value: "clean (header_value art header)"
  by (auto simp: header_value_def clean_copied split: option.split)

lemma clean_digits: "clean (show_nat n)"
  using show_nat_facts(2) [of NUL n] show_nat_facts(2) [of HT n] show_nat_facts(2) [of LF n] show_nat_facts(2) [of CR n]
  by (auto simp: clean_def isdigit_def)

fun standard_values :: "string \<Rightarrow> nat \<Rightarrow> string list \<Rightarrow> string list" where
  "standard_values art i [] = []"
| "standard_values art i (f # fs) =
     (if i = 5 then show_nat (length art) else header_value art f) # standard_values art (i + 1) fs"

definition extra_values :: "string \<Rightarrow> string list \<Rightarrow> string list" where
  "extra_values art extra = map (\<lambda>f. f @ '': '' @ header_value art f) extra"

definition overview_values :: "nat \<Rightarrow> string \<Rightarrow> string list \<Rightarrow> string list" where
  "overview_values number art extra = show_nat number # standard_values art 0 fields @ extra_values art extra"

definition overview_text :: "nat \<Rightarrow> string \<Rightarrow> string list \<Rightarrow> string" where
  "overview_text number art extra = glue HT (overview_values number art extra) @ [CR, LF]"

lemma standard_loop_contents:
  assumes "buffer_ok b"
  shows "\<exists>b'. standard_loop art i fs b = Some b' \<and> buffer_ok b'
    \<and> contents b' = contents b @ joined [HT] (standard_values art i fs)"
  using assms
proof (induction fs arbitrary: i b)
  case (Cons f fs)
  obtain b1 where b1: "buffer_append b [HT] = Some b1" "buffer_ok b1" "contents b1 = contents b @ [HT]"
    using buffer_append_contents [OF Cons.prems] by blast
  obtain b2 where b2: "(if i = 5 then buffer_append b1 (show_nat (length art)) else build_header art f b1) = Some b2"
    "buffer_ok b2" "contents b2 = contents b1 @ (if i = 5 then show_nat (length art) else header_value art f)"
    using buffer_append_contents [OF b1(2), of "show_nat (length art)"] build_header_contents [OF b1(2), of art f]
    by (cases "i = 5") auto
  obtain b' where b': "standard_loop art (i + 1) fs b2 = Some b'" "buffer_ok b'"
    "contents b' = contents b2 @ joined [HT] (standard_values art (i + 1) fs)"
    using Cons.IH [OF b2(2)] by blast
  have "standard_loop art i (f # fs) b = Some b'" using b1(1) b2(1) b'(1) by (simp only: standard_loop.simps option.case)
  with b'(2,3) b1(3) b2(3) show ?case by simp
qed simp

lemma extra_loop_contents:
  assumes "buffer_ok b"
  shows "\<exists>b'. extra_loop art fs b = Some b' \<and> buffer_ok b'
    \<and> contents b' = contents b @ joined [HT] (extra_values art fs)"
  using assms
proof (induction fs arbitrary: b)
  case (Cons f fs)
  obtain b1 where b1: "buffer_append b [HT] = Some b1" "buffer_ok b1" "contents b1 = contents b @ [HT]"
    using buffer_append_contents [OF Cons.prems] by blast
  obtain b2 where b2: "buffer_append b1 f = Some b2" "buffer_ok b2" "contents b2 = contents b1 @ f"
    using buffer_append_contents [OF b1(2)] by blast
  obtain b3 where b3: "buffer_append b2 '': '' = Some b3" "buffer_ok b3" "contents b3 = contents b2 @ '': ''"
    using buffer_append_contents [OF b2(2)] by blast
  obtain b4 where b4: "build_header art f b3 = Some b4" "buffer_ok b4" "contents b4 = contents b3 @ header_value art f"
    using build_header_contents [OF b3(2)] by blast
  from Cons.IH [OF b4(2)] b1 b2 b3 b4 show ?case by (auto simp: extra_values_def)
qed (simp add: extra_values_def)

lemma joined_append: "joined s (ws @ vs) = joined s ws @ joined s vs"
  by (induction ws) auto

lemma overview_build_text:
  assumes "\<forall>b. overview = Some b \<longrightarrow> buffer_ok b"
  shows "\<exists>b'. overview_build number art (Some extra) overview = Some b' \<and> buffer_ok b'
    \<and> contents b' = overview_text number art extra"
proof -
  define b0 where "b0 = (case overview of None \<Rightarrow> buffer_new | Some b \<Rightarrow> b)"
  have b0: "buffer_ok b0" using assms by (auto simp: b0_def buffer_ok_def buffer_new_def split: option.split)
  obtain b1 where b1: "buffer_set b0 (show_nat number) = Some b1" "buffer_ok b1" "contents b1 = show_nat number"
    using buffer_set_contents [OF b0] by blast
  obtain b2 where b2: "standard_loop art 0 fields b1 = Some b2" "buffer_ok b2"
    "contents b2 = contents b1 @ joined [HT] (standard_values art 0 fields)"
    using standard_loop_contents [OF b1(2)] by blast
  obtain b3 where b3: "extra_loop art extra b2 = Some b3" "buffer_ok b3"
    "contents b3 = contents b2 @ joined [HT] (extra_values art extra)"
    using extra_loop_contents [OF b2(2)] by blast
  obtain b4 where b4: "buffer_append b3 [CR, LF] = Some b4" "buffer_ok b4" "contents b4 = contents b3 @ [CR, LF]"
    using buffer_append_contents [OF b3(2)] by blast
  have "contents b4 = overview_text number art extra"
    using b1(3) b2(3) b3(3) b4(3) glue_joined [of HT "show_nat number" "standard_values art 0 fields @ extra_values art extra"]
    by (simp add: overview_text_def overview_values_def joined_append del: joined.simps)
  with b1 b2 b3 b4 show ?thesis by (simp add: overview_build_def Let_def b0_def [symmetric])
qed

subsection \<open>The line that is built passes the check\<close>

definition field_name :: "string \<Rightarrow> bool" where
  "field_name f \<longleftrightarrow> f \<noteq> [] \<and> (\<forall>c \<in> set f. isgraph c \<and> c \<noteq> CHR '':'')"

lemma field_name_clean: "field_name f \<Longrightarrow> clean f \<and> CHR '':'' \<notin> set f"
  by (force simp: field_name_def clean_def isgraph_def)

text \<open>The values with the line end on the last one: what splitting the line at tabs gives.\<close>

fun with_end :: "string list \<Rightarrow> string list" where
  "with_end [] = []"
| "with_end [w] = [w @ [CR, LF]]"
| "with_end (w # ws) = w # with_end ws"

lemma with_end_facts:
  "ws \<noteq> [] \<Longrightarrow> glue HT (with_end ws) = glue HT ws @ [CR, LF]" "length (with_end ws) = length ws"
  "i < length ws \<Longrightarrow> with_end ws ! i = (if Suc i = length ws then ws ! i @ [CR, LF] else ws ! i)"
proof -
  have ne: "ws \<noteq> [] \<Longrightarrow> with_end ws \<noteq> []" for ws by (induction ws rule: with_end.induct) auto
  show "ws \<noteq> [] \<Longrightarrow> glue HT (with_end ws) = glue HT ws @ [CR, LF]"
    by (induction ws rule: with_end.induct) (auto simp: glue_Cons ne)
  show "length (with_end ws) = length ws" by (induction ws rule: with_end.induct) auto
  show "i < length ws \<Longrightarrow> with_end ws ! i = (if Suc i = length ws then ws ! i @ [CR, LF] else ws ! i)"
  proof (induction ws arbitrary: i rule: with_end.induct)
    case (3 w v vs)
    then show ?case by (cases i) auto
  qed auto
qed

lemma clean_values:
  assumes "\<forall>f \<in> set extra. field_name f"
  shows "\<forall>w \<in> set (overview_values number art extra). clean w"
proof -
  have "\<forall>w \<in> set (standard_values art i fs). clean w" for i fs
    by (induction fs arbitrary: i) (auto simp: clean_digits clean_header_value)
  then show ?thesis
    using assms field_name_clean by (auto simp: overview_values_def extra_values_def clean_digits clean_header_value)
qed

lemma length_overview_values: "length (overview_values number art extra) = 8 + length extra"
  by (simp add: overview_values_def extra_values_def fields_def)

lemma nth_tails_rest:
  "i < length ws \<Longrightarrow> \<exists>r. tails ws ! i = ws ! i @ NUL # r \<and> (Suc i < length ws \<longrightarrow> r = tails ws ! Suc i)"
proof -
  assume i: "i < length ws"
  then have d: "drop i ws = ws ! i # drop (Suc i) ws" by (simp add: Cons_nth_drop_Suc)
  show ?thesis
    using i d by (cases "Suc i < length ws") (auto simp: nth_tails glue_Cons)
qed

lemma valid_number_digits: "\<forall>c \<in> set d. isdigit c \<Longrightarrow> valid_number (d @ NUL # r)"
  by (induction d) auto

lemma line_loop_clean:
  "clean w \<Longrightarrow> line_loop (w @ NUL # r)" "clean w \<Longrightarrow> line_loop (w @ CR # LF # NUL # r)"
  by (induction w) auto

lemma name_loop_name: "\<forall>c \<in> set f. isgraph c \<and> c \<noteq> CHR '':'' \<Longrightarrow> name_loop (f @ CHR '':'' # r) = Some (CHR '':'' # r)"
proof (induction f)
  case (Cons c f)
  then have "isgraph c" "c \<noteq> CHR '':''" by simp_all
  moreover from this have "c \<noteq> NUL" using NUL_classes(6) by metis
  ultimately show ?case using Cons by simp
qed simp

lemma valid_overview_string_value:
  assumes "clean w" "clean v"
  shows "valid_overview_string (w @ NUL # v @ NUL # r) False"
  using assms by (cases w) (auto simp: valid_overview_string_def line_loop_clean(1))

lemma valid_overview_string_extra:
  assumes "field_name f" "clean v" "e = [] \<or> e = [CR, LF]"
  shows "valid_overview_string ((f @ '': '' @ v) @ e @ NUL # r) True"
proof -
  obtain c f' where f: "f = c # f'" "isgraph c" using assms(1) by (cases f) (auto simp: field_name_def)
  have n: "name_loop (f @ CHR '':'' # SP # v @ e @ NUL # r) = Some (CHR '':'' # SP # v @ e @ NUL # r)"
    by (rule name_loop_name) (use assms(1) in \<open>simp add: field_name_def\<close>)
  have "line_loop (v @ e @ NUL # r)" using assms(2,3) line_loop_clean by auto
  moreover have "c \<noteq> NUL" "c \<noteq> CR" using f(2) by (auto simp: isgraph_def)
  ultimately show ?thesis using n f(1) by (auto simp: valid_overview_string_def Let_def)
qed

lemma overview_check_text:
  assumes "\<forall>f \<in> set extra. field_name f" "number \<le> SIZE_MAX"
  shows "overview_check (overview_text number art extra) number = Some True"
proof -
  define ws where "ws = overview_values number art extra"
  define es where "es = with_end ws"
  have lw: "length ws = 8 + length extra" by (simp add: ws_def length_overview_values)
  then have ne: "ws \<noteq> []" by auto
  have le: "length es = length ws" by (simp add: es_def with_end_facts)
  have cl: "clean (ws ! i)" if "i < length ws" for i
    using clean_values [OF assms(1), of number art] nth_mem [OF that] by (simp add: ws_def)
  have es_nth: "es ! i = (if Suc i = length ws then ws ! i @ [CR, LF] else ws ! i)" if "i < length ws" for i
    using with_end_facts(3) [OF that] by (simp add: es_def)
  have plain: "NUL \<notin> set w" "HT \<notin> set w" if "w \<in> set es" for w
  proof -
    obtain i where i: "i < length ws" "w = es ! i" using le \<open>w \<in> set es\<close> by (metis in_set_conv_nth)
    have "set w \<subseteq> set (ws ! i) \<union> {CR, LF}" unfolding i(2) es_nth [OF i(1)] by auto
    with cl [OF i(1)] show "NUL \<notin> set w" "HT \<notin> set w" by (auto simp: clean_def)
  qed
  have no_tab: "\<forall>w \<in> set es. HT \<notin> set w" using plain(2) by blast
  have es_ne: "es \<noteq> []" using le ne by auto
  have tx: "overview_text number art extra = glue HT es"
    using with_end_facts(1) [OF ne] by (simp add: overview_text_def ws_def es_def)
  have "NUL \<notin> set (glue HT vs)" if "\<forall>w \<in> set vs. NUL \<notin> set w" for vs
    using that by (induction "HT" vs rule: glue.induct) auto
  then have "NUL \<notin> set (glue HT es)" using plain(1) by blast
  then have copy: "xstrndup (overview_text number art extra) (length (overview_text number art extra)) = glue HT es"
    by (simp add: tx xstrndup_def)
  have pcs: "pieces HT [] (glue HT es) = es" by (rule pieces_glue [OF es_ne no_tab])
  obtain mem v starts where v: "cvector_split (glue HT es) HT None = Some (mem, v)" "v_list v = map Some starts"
    "v_count v = length es" "map (\<lambda>q. drop q mem) starts = tails es"
    using cvector_split_tails [of "glue HT es" HT None] unfolding pcs by blast
  have str: "map (\<lambda>p. drop p mem) (List.map_filter (\<lambda>p. p) (v_list v)) = tails es"
    using v(2,4) by (simp add: List.map_filter_def comp_def)
  have numw: "ws ! 0 = show_nat number" "ws ! 6 = show_nat (length art)"
    by (simp_all add: ws_def overview_values_def fields_def numeral_eq_Suc)
  have rest: "\<exists>r. tails es ! i = es ! i @ NUL # r \<and> (Suc i < length es \<longrightarrow> r = tails es ! Suc i)" if "i < length es" for i
    using nth_tails_rest [OF that] .
  obtain r0 r6 where r: "tails es ! 0 = show_nat number @ NUL # r0" "tails es ! 6 = show_nat (length art) @ NUL # r6"
    using rest [of 0] rest [of 6] es_nth [of 0] es_nth [of 6] le lw numw by auto
  have num: "valid_number (tails es ! 0)" "valid_number (tails es ! 6)"
    unfolding r using show_nat_facts(2) by (auto intro!: valid_number_digits)
  have val: "strtoul (tails es ! 0) = number"
    unfolding r strtoul_def using assms(2) by (simp add: takeWhile_show_nat show_nat_facts)
  have std: "valid_overview_string (tails es ! i) False" if "1 \<le> i" "i < 6" for i
  proof -
    have i: "i < length es" "Suc i < length es" "Suc (Suc i) < length ws" using that le lw by auto
    obtain r' where "tails es ! Suc i = es ! Suc i @ NUL # r'" using rest [OF i(2)] by blast
    with rest [OF i(1)] i have "tails es ! i = ws ! i @ NUL # ws ! Suc i @ NUL # r'" using es_nth le by auto
    with valid_overview_string_value cl i le show ?thesis by auto
  qed
  have ext: "valid_overview_string (tails es ! i) True" if i8: "8 \<le> i" and il: "i < length es" for i
  proof -
    have "ws ! (8 + j) = extra_values art extra ! j" for j
      by (simp add: ws_def overview_values_def fields_def numeral_eq_Suc)
    from this [of "i - 8"] le_add_diff_inverse [OF i8] have "ws ! i = extra_values art extra ! (i - 8)" by metis
    moreover have "i - 8 < length extra" using i8 il le lw by linarith
    then have "extra ! (i - 8) \<in> set extra"
      "extra_values art extra ! (i - 8) = extra ! (i - 8) @ '': '' @ header_value art (extra ! (i - 8))"
      by (simp_all add: extra_values_def)
    ultimately obtain f where f: "f \<in> set extra" "ws ! i = f @ '': '' @ header_value art f" by metis
    obtain r' where "tails es ! i = es ! i @ NUL # r'" using rest [OF il] by blast
    then have "tails es ! i = (f @ '': '' @ header_value art f) @ (if Suc i = length ws then [CR, LF] else []) @ NUL # r'"
      using es_nth [of i] il le f(2) by auto
    with valid_overview_string_extra [of f "header_value art f"] f(1) assms(1) clean_header_value show ?thesis by auto
  qed
  show ?thesis
    using num val std ext lw le
    unfolding overview_check_def copy Let_def v(1) option.case prod.case str v(3)
    by (auto simp: list_ex_iff)
qed

subsection \<open>Taking the line apart gives the values back\<close>

fun starts_from :: "nat \<Rightarrow> string list \<Rightarrow> int list" where
  "starts_from p [] = []"
| "starts_from p (w # ws) = int p # starts_from (p + length w + 1) ws"

lemma length_starts_from [simp]: "length (starts_from p ws) = length ws"
  by (induction ws arbitrary: p) auto

lemma memchr_from_append:
  assumes "c \<notin> set w"
  shows "memchr_from (pre @ w @ c # r) (length pre) c (length (pre @ w @ c # r) - length pre) = Some (length pre + length w)"
    "memchr_from (pre @ w) (length pre) c (length (pre @ w) - length pre) = None"
  using assms by (simp_all add: memchr_from_def Let_def)

lemma split_fields_starts:
  assumes "ws \<noteq> []" "\<forall>w \<in> set ws. HT \<notin> set w"
  shows "split_fields (pre @ glue HT ws) (length pre) first
    = (if first then tl (starts_from (length pre) ws) else starts_from (length pre) ws) @ [int (length (pre @ glue HT ws)) - 1]"
  using assms
proof (induction ws arbitrary: pre first)
  case (Cons w ws)
  show ?case
  proof (cases "ws = []")
    case True
    with Cons.prems(2) memchr_from_append(2) [of HT w pre] show ?thesis
      by (subst split_fields.simps) simp
  next
    case False
    have g: "pre @ glue HT (w # ws) = pre @ w @ HT # glue HT ws" using False by (simp add: glue_Cons)
    have "split_fields (pre @ glue HT (w # ws)) (length pre) first
        = (if first then [] else [int (length pre)]) @ split_fields ((pre @ w @ [HT]) @ glue HT ws) (length (pre @ w @ [HT])) False"
      unfolding g using Cons.prems(2) memchr_from_append(1) [of HT w pre "glue HT ws"]
      by (subst split_fields.simps) simp
    also have "\<dots> = (if first then [] else [int (length pre)]) @ starts_from (length (pre @ w @ [HT])) ws
        @ [int (length (pre @ glue HT (w # ws))) - 1]"
      using Cons.IH [OF False, of "pre @ w @ [HT]" False] Cons.prems(2) g by simp
    finally show ?thesis by simp
  qed
qed simp

lemma starts_from_at:
  assumes "i < length ws"
  shows "\<exists>a. pre @ glue HT ws = a @ glue HT (drop i ws) \<and> starts_from (length pre) ws ! i = int (length a)
    \<and> (Suc i < length ws \<longrightarrow> starts_from (length pre) ws ! Suc i = int (length a + length (ws ! i) + 1))"
  using assms
proof (induction ws arbitrary: pre i)
  case (Cons w ws)
  show ?case
  proof (cases i)
    case 0
    then show ?thesis by (cases ws) (auto intro: exI [of _ pre])
  next
    case (Suc j)
    then have j: "j < length ws" "ws \<noteq> []" using Cons.prems by auto
    have "pre @ glue HT (w # ws) = (pre @ w @ [HT]) @ glue HT ws" using j(2) by (simp add: glue_Cons)
    moreover have "starts_from (length (pre @ w @ [HT])) ws = starts_from (length pre + length w + 1) ws" by simp
    ultimately show ?thesis using Cons.IH [OF j(1), of "pre @ w @ [HT]"] Suc by (simp only: starts_from.simps drop_Suc_Cons nth_Cons_Suc length_Cons Suc_less_eq)
  qed
qed simp

lemma atoi_number: "atoi (show_nat n @ HT # r) = int n"
proof -
  obtain c d where c: "show_nat n = c # d" using show_nat_facts(3) [of n] by (cases "show_nat n") auto
  then have "isdigit c" using show_nat_facts(2) [of c n] by simp
  then have "\<not> (c = SP \<or> 9 \<le> byte c \<and> byte c \<le> 13)" "c \<noteq> CHR ''-''" "c \<noteq> CHR ''+''"
    by (auto simp: isdigit_def)
  then have "dropWhile (\<lambda>c. c = SP \<or> (9 \<le> byte c \<and> byte c \<le> 13)) (show_nat n @ HT # r) = show_nat n @ HT # r"
    "peek (show_nat n @ HT # r) \<noteq> CHR ''-''" "peek (show_nat n @ HT # r) \<noteq> CHR ''+''"
    unfolding c by auto
  then show ?thesis
    using takeWhile_show_nat(1) [of "HT # r" n] show_nat_facts(1) [of n]
    unfolding atoi_def Let_def by (simp add: isdigit_def)
qed

lemma copy_field_prefix:
  assumes "NUL \<notin> set w"
  shows "copy_field (a @ w @ r) (int (length a)) (int (length w)) = w"
  using assms by (simp add: copy_field_def xstrndup_def)

text \<open>The length of the value with index \<open>i\<close>, by the pointers.\<close>

lemma overview_field_pointers:
  assumes "\<forall>f \<in> set extra. field_name f" and ws_def: "ws = overview_values number art extra"
    and vec_def: "vec = snd (overview_split (overview_text number art extra))"
  shows "length vec = length ws"
    "Suc i < length ws \<Longrightarrow> \<exists>a r. overview_text number art extra = a @ ws ! Suc i @ r \<and> vec ! i = int (length a)
      \<and> vec ! Suc i = int (length a + length (ws ! Suc i) + 1)"
proof -
  let ?t = "overview_text number art extra"
  define es where "es = with_end ws"
  have lw: "length ws = 8 + length extra" by (simp add: ws_def length_overview_values)
  then have ne: "ws \<noteq> []" by auto
  have le: "length es = length ws" by (simp add: es_def with_end_facts)
  have es_nth: "es ! i = (if Suc i = length ws then ws ! i @ [CR, LF] else ws ! i)" if "i < length ws" for i
    using with_end_facts(3) [OF that] by (simp add: es_def)
  have no_tab: "HT \<notin> set w" if "w \<in> set es" for w
  proof -
    obtain i where i: "i < length ws" "w = es ! i" using le \<open>w \<in> set es\<close> by (metis in_set_conv_nth)
    have "clean (ws ! i)" using clean_values [OF assms(1), of number art] nth_mem [OF i(1)] by (simp add: ws_def)
    moreover have "set w \<subseteq> set (ws ! i) \<union> {CR, LF}" unfolding i(2) es_nth [OF i(1)] by auto
    ultimately show ?thesis by (auto simp: clean_def)
  qed
  have es_ne: "es \<noteq> []" using le ne by auto
  have t: "?t = glue HT es" using with_end_facts(1) [OF ne] by (simp add: overview_text_def ws_def es_def)
  have vec: "vec = tl (starts_from 0 es) @ [int (length ?t) - 1]"
    using split_fields_starts [OF es_ne, of "[]" True] no_tab by (simp add: vec_def overview_split_def t)
  have "0 < length ws" using ne by simp
  then show "length vec = length ws" unfolding vec by (simp add: le)
  assume i: "Suc i < length ws"
  then have ie: "Suc i < length es" using le by simp
  obtain a where a: "[] @ glue HT es = a @ glue HT (drop (Suc i) es)" "starts_from 0 es ! Suc i = int (length a)"
    "Suc (Suc i) < length es \<longrightarrow> starts_from 0 es ! Suc (Suc i) = int (length a + length (es ! Suc i) + 1)"
    using starts_from_at [OF ie, of "[]"] unfolding list.size(3) by blast
  have v: "vec ! j = starts_from 0 es ! Suc j" if "Suc j < length es" for j
  proof -
    have j: "j < length (tl (starts_from 0 es))" using that by simp
    then have "vec ! j = tl (starts_from 0 es) ! j" unfolding vec by (rule nth_append_left)
    also have "\<dots> = starts_from 0 es ! Suc j" using j by (rule nth_tl)
    finally show ?thesis .
  qed
  have v_i: "vec ! i = int (length a)" using v [OF ie] a(2) by simp
  have d: "drop (Suc i) es = es ! Suc i # drop (Suc (Suc i)) es" using ie by (simp add: Cons_nth_drop_Suc)
  show "\<exists>a r. ?t = a @ ws ! Suc i @ r \<and> vec ! i = int (length a) \<and> vec ! Suc i = int (length a + length (ws ! Suc i) + 1)"
  proof (cases "Suc (Suc i) < length es")
    case True
    then have "glue HT (drop (Suc i) es) = es ! Suc i @ HT # glue HT (drop (Suc (Suc i)) es)"
      unfolding d by (intro glue_Cons) simp
    moreover have "vec ! Suc i = int (length a + length (es ! Suc i) + 1)" using v [OF True] a(3) True by simp
    moreover have "es ! Suc i = ws ! Suc i" using es_nth [OF i] True le by simp
    ultimately show ?thesis using a(1) v_i t by (intro exI [of _ a] exI [of _ "HT # glue HT (drop (Suc (Suc i)) es)"]) simp
  next
    case False
    then have at_end: "Suc (Suc i) = length ws" using ie le by simp
    then have "glue HT (drop (Suc i) es) = ws ! Suc i @ [CR, LF]" using d es_nth [OF i] le by simp
    then have tt: "?t = a @ ws ! Suc i @ [CR, LF]" using a(1) t by simp
    moreover have "vec ! Suc i = int (length ?t) - 1" unfolding vec using le by (simp add: nth_append at_end [symmetric])
    ultimately show ?thesis using v_i by (intro exI [of _ a] exI [of _ "[CR, LF]"]) simp
  qed
qed

lemma clean_no_NUL: "clean w \<Longrightarrow> NUL \<notin> set w" by (auto simp: clean_def)

lemma overview_standard_header:
  assumes "\<forall>f \<in> set extra. field_name f" "i \<le> 6"
  shows "overview_get_standard_header (overview_text number art extra) (snd (overview_split (overview_text number art extra))) i
    = Some (overview_values number art extra ! Suc i)"
proof -
  define ws where "ws = overview_values number art extra"
  define vec where "vec = snd (overview_split (overview_text number art extra))"
  have lv: "length vec = 8 + length extra"
    using overview_field_pointers(1) [OF assms(1) refl vec_def] by (simp add: length_overview_values)
  have i: "Suc i < length ws" using assms(2) by (simp add: ws_def length_overview_values)
  obtain a r where a: "overview_text number art extra = a @ ws ! Suc i @ r" "vec ! i = int (length a)"
    "vec ! Suc i = int (length a + length (ws ! Suc i) + 1)"
    using overview_field_pointers(2) [OF assms(1) ws_def vec_def i] by blast
  have "NUL \<notin> set (ws ! Suc i)" using clean_values [OF assms(1), of number art] nth_mem [OF i] clean_no_NUL by (auto simp: ws_def)
  from copy_field_prefix [OF this, of a r] a assms(2) lv
  have "overview_get_standard_header (overview_text number art extra) vec i = Some (ws ! Suc i)"
    by (simp add: overview_get_standard_header_def fields_def)
  then show ?thesis by (simp add: ws_def vec_def)
qed

text \<open>An extra field is recognised by its name alone, whatever its value is.\<close>

lemma octet_append: "octet (a @ w) (length a + n) = octet w n"
  by (simp add: octet_def nth_append)

lemma tolower_colon: "tolower c = CHR '':'' \<longleftrightarrow> c = CHR '':''"
  by (auto simp: tolower_def isupper_def dest!: arg_cong [of _ _ byte])

lemma extra_name_match:
  assumes "field_name f" "field_name g"
  shows "map tolower (take (length g) (f @ '': '' @ v)) = map tolower g \<and> octet (f @ '': '' @ v) (length g) = CHR '':''
      \<and> octet (f @ '': '' @ v) (length g + 1) = SP \<longleftrightarrow> map tolower f = map tolower g" (is "?m \<longleftrightarrow> _")
proof
  assume m: ?m
  have "CHR '':'' \<notin> set f" "CHR '':'' \<notin> set g" using assms field_name_clean by auto
  consider "length g < length f" | "length g = length f" | "length f < length g" by linarith
  then show "map tolower f = map tolower g"
  proof cases
    case 1
    with m have "f ! length g = CHR '':''"
      using octet_nth [of "length g" "f @ '': '' @ v"] by (simp add: nth_append)
    with 1 \<open>CHR '':'' \<notin> set f\<close> show ?thesis by (metis nth_mem)
  next
    case 3
    with m have "map tolower g ! length f = map tolower (take (length g) (f @ '': '' @ v)) ! length f" by simp
    also have "\<dots> = CHR '':''" using 3 by (simp add: nth_append tolower_colon)
    finally show ?thesis using 3 \<open>CHR '':'' \<notin> set g\<close> by (simp add: tolower_colon) (metis nth_mem)
  qed (use m in simp)
next
  assume e: "map tolower f = map tolower g"
  then have "length f = length g" by (metis length_map)
  with e show ?m by (simp add: octet_def nth_append)
qed

lemma extra_header_loop_found:
  assumes "i \<in> set is"
    and "\<forall>j \<in> set is. (map tolower (take (length h) (drop (nat (vec ! j)) line)) = map tolower h
        \<and> octet line (nat (vec ! j) + length h) = CHR '':'' \<and> octet line (nat (vec ! j) + length h + 1) = SP) = (j = i)"
  shows "extra_header_loop line vec h is
    = Some (copy_field line (vec ! i + int (length h) + 2) (vec ! (i + 1) - (vec ! i + int (length h) + 2) - 1))"
  using assms
proof (induction "is")
  case (Cons j js)
  then show ?case by (cases "j = i") (auto simp: Let_def)
qed simp

lemma extra_value_nth:
  "k < length extra \<Longrightarrow> overview_values number art extra ! (8 + k) = extra ! k @ '': '' @ header_value art (extra ! k)"
proof -
  have "overview_values number art extra ! (8 + k) = extra_values art extra ! k"
    by (simp add: overview_values_def fields_def numeral_eq_Suc)
  then show "k < length extra \<Longrightarrow> ?thesis" by (simp add: extra_values_def)
qed

lemma overview_extra_header:
  assumes "\<forall>f \<in> set extra. field_name f" "distinct (map (map tolower) extra)" "k < length extra"
    "field_name h" "map tolower h = map tolower (extra ! k)"
  shows "overview_get_extra_header (overview_text number art extra) (snd (overview_split (overview_text number art extra))) h
    = Some (header_value art (extra ! k))"
proof -
  define line where "line = overview_text number art extra"
  define ws where "ws = overview_values number art extra"
  define vec where "vec = snd (overview_split line)"
  note vec' = vec_def [unfolded line_def]
  have lv: "length vec = 8 + length extra"
    using overview_field_pointers(1) [OF assms(1) refl vec'] by (simp add: length_overview_values)
  have at: "\<exists>a r. line = a @ extra ! m @ '': '' @ header_value art (extra ! m) @ r \<and> vec ! (7 + m) = int (length a)
      \<and> vec ! (7 + m + 1) = int (length a + length (extra ! m) + 2 + length (header_value art (extra ! m)) + 1)"
    if "m < length extra" for m
  proof -
    have "Suc (7 + m) < length ws" using that by (simp add: ws_def length_overview_values)
    from overview_field_pointers(2) [OF assms(1) ws_def vec' this] obtain a r where
      "line = a @ ws ! Suc (7 + m) @ r" "vec ! (7 + m) = int (length a)"
      "vec ! Suc (7 + m) = int (length a + length (ws ! Suc (7 + m)) + 1)" unfolding line_def by blast
    moreover have "ws ! Suc (7 + m) = extra ! m @ '': '' @ header_value art (extra ! m)"
      using extra_value_nth [OF that, of number art] by (simp add: ws_def)
    ultimately show ?thesis by (intro exI [of _ a] exI [of _ r]) simp
  qed
  have hit: "(map tolower (take (length h) (drop (nat (vec ! j)) line)) = map tolower h
      \<and> octet line (nat (vec ! j) + length h) = CHR '':'' \<and> octet line (nat (vec ! j) + length h + 1) = SP) = (j = 7 + k)"
    if "j \<in> set [7..<length vec - 1]" for j
  proof -
    define m where "m = j - 7"
    have m: "j = 7 + m" "m < length extra" using that lv by (auto simp: m_def)
    obtain a r where a: "line = a @ extra ! m @ '': '' @ header_value art (extra ! m) @ r" "vec ! (7 + m) = int (length a)"
      using at [OF m(2)] by blast
    have "field_name (extra ! m)" using assms(1) m(2) by simp
    from extra_name_match [OF this assms(4), of "header_value art (extra ! m) @ r"]
    have "(map tolower (take (length h) (drop (nat (vec ! j)) line)) = map tolower h
        \<and> octet line (nat (vec ! j) + length h) = CHR '':'' \<and> octet line (nat (vec ! j) + length h + 1) = SP)
      = (map tolower (extra ! m) = map tolower h)"
      unfolding m(1) a add.assoc by (simp only: nat_int octet_append append_eq_conv_conj drop_append) simp
    also have "\<dots> = (m = k)" using assms(2,3,5) m(2) by (auto simp: distinct_conv_nth)
    finally show ?thesis using m(1) by simp
  qed
  obtain a r where a: "line = a @ extra ! k @ '': '' @ header_value art (extra ! k) @ r" "vec ! (7 + k) = int (length a)"
      "vec ! (7 + k + 1) = int (length a + length (extra ! k) + 2 + length (header_value art (extra ! k)) + 1)"
    using at [OF assms(3)] by blast
  have lh: "length h = length (extra ! k)" using assms(5) by (metis length_map)
  have "NUL \<notin> set (header_value art (extra ! k))" using clean_header_value clean_no_NUL by blast
  from copy_field_prefix [OF this, of "a @ extra ! k @ '': ''" r]
  have copy: "copy_field line (vec ! (7 + k) + int (length h) + 2) (vec ! (7 + k + 1) - (vec ! (7 + k) + int (length h) + 2) - 1)
    = header_value art (extra ! k)"
    unfolding a(2,3) lh by (simp add: a(1) algebra_simps)
  have "7 + k \<in> set [7..<length vec - 1]" using lv assms(3) by simp
  from extra_header_loop_found [OF this] hit
  have "extra_header_loop line vec h [7..<length vec - 1] = Some (header_value art (extra ! k))"
    unfolding copy [symmetric] by blast
  then have "overview_get_extra_header line vec h = Some (header_value art (extra ! k))"
    unfolding overview_get_extra_header_def by (simp add: fields_def eval_nat_numeral)
  then show ?thesis unfolding vec_def line_def .
qed

subsection \<open>The properties\<close>

text \<open>C34: an article's overview line is built inside the allocation of any valid buffer, whatever it held, is the article
  number, the values of the standard fields and the named values of the extra fields between tabs and nothing else, and
  passes the check for that article number.\<close>

theorem overview_build_passes_check:
  assumes "\<forall>b. overview = Some b \<longrightarrow> buffer_ok b" "\<forall>f \<in> set extra. field_name f" "number \<le> SIZE_MAX"
  shows "\<exists>b. overview_build number art (Some extra) overview = Some b \<and> buffer_ok b
    \<and> contents b = overview_text number art extra \<and> overview_check (contents b) number = Some True"
proof -
  obtain b where "overview_build number art (Some extra) overview = Some b" "buffer_ok b" "contents b = overview_text number art extra"
    using overview_build_text [OF assms(1)] by blast
  with overview_check_text [OF assms(2,3), of art] show ?thesis
    by auto
qed

theorem overview_build_passes_check_witness:
  "\<exists>b. overview_build 42 (''Subject: a'' @ [HT] @ ''b'' @ [CR, LF, CR, LF]) (Some [''Xref'']) None = Some b
    \<and> overview_check (contents b) 42 = Some True"
proof -
  have "(42::nat) \<le> SIZE_MAX" "field_name ''Xref''"
    by (simp_all add: SIZE_MAX_def field_name_def isgraph_def)
  with overview_build_passes_check [of None "[''Xref'']" 42 "''Subject: a'' @ [HT] @ ''b'' @ [CR, LF, CR, LF]"]
  show ?thesis by auto
qed



end
