(* ===== verification/Wip.thy ===== *)
theory Wip
  imports Md5
begin

text \<open>
  Articles in progress (\<^verbatim>\<open>innd/wip.c\<close>) and the commands of \<^verbatim>\<open>innd/nc.c\<close> and
  \<^verbatim>\<open>innd/chan.c\<close> that use it: which channel is sending which message identifier, so that no
  other channel is asked for the same article. The entries live on a heap, the chain of a bucket is the list of the
  addresses of its nodes, and the channels hold addresses as well; reading or freeing an address that is not
  allocated gives \<open>None\<close>. The address that \<^verbatim>\<open>xmalloc\<close> returns, the time and the settings
  are arguments.
\<close>

record wip =
  MessageID :: hash
  Timestamp :: int
  Chan :: nat

record channel =
  CurrentMessageIDHash :: hash
  PrecommitWIP :: "nat option list"
  PrecommitiCachenext :: nat
  ArtBeg :: int
  ArtMax :: int

record wip_state =
  wip_heap :: "nat \<Rightarrow> wip option"
  WIPtable :: "nat \<Rightarrow> nat list"
  channels :: "nat \<Rightarrow> channel"

record wip_settings =
  wipcheck :: nat
  wipexpire :: nat

definition WIPTABLESIZE :: nat where "WIPTABLESIZE = 1024"
definition WIP_ARTMAX :: int where "WIP_ARTMAX = 300"
definition PRECOMMITCACHESIZE :: nat where "PRECOMMITCACHESIZE = 128"

text \<open>The first eight octets of a hash as a little-endian \<^verbatim>\<open>unsigned long\<close>.\<close>

definition wip_bucket :: "hash \<Rightarrow> nat" where
  "wip_bucket h = foldr (\<lambda>c n. byte c + 256 * n) (take 8 h) 0 mod WIPTABLESIZE"

definition WIPsetup :: "wip_state \<Rightarrow> wip_state" where
  "WIPsetup st = st\<lparr>WIPtable := (\<lambda>_. [])\<rparr>"

definition WIPnew :: "nat \<Rightarrow> int \<Rightarrow> string \<Rightarrow> nat \<Rightarrow> wip_state \<Rightarrow> nat \<times> wip_state" where
  "WIPnew a now messageid cp st =
     (let hash = Hash messageid; b = wip_bucket hash
      in (a, st\<lparr>wip_heap := (wip_heap st)(a \<mapsto> \<lparr>MessageID = hash, Timestamp = now, Chan = cp\<rparr>),
                WIPtable := (WIPtable st)(b := a # WIPtable st b)\<rparr>))"

text \<open>The loop that clears the place of an entry in a channel's cache: the first one only.\<close>

fun clear_loop :: "nat \<Rightarrow> nat option list \<Rightarrow> nat option list" where
  "clear_loop p [] = []"
| "clear_loop p (q # qs) = (if q = Some p then None # qs else q # clear_loop p qs)"

definition clear_precommit :: "nat \<Rightarrow> nat \<Rightarrow> wip_state \<Rightarrow> wip_state" where
  "clear_precommit c p st =
     st\<lparr>channels := (channels st)(c := (channels st c)\<lparr>PrecommitWIP := clear_loop p (PrecommitWIP (channels st c))\<rparr>)\<rparr>"

definition WIPfree :: "nat option \<Rightarrow> wip_state \<Rightarrow> wip_state option" where
  "WIPfree wp st =
     (case wp of None \<Rightarrow> Some st
      | Some p \<Rightarrow>
        (case wip_heap st p of None \<Rightarrow> None
         | Some w \<Rightarrow>
           let b = wip_bucket (MessageID w); st = clear_precommit (Chan w) p st
           in if p \<notin> set (WIPtable st b) then Some st
              else Some (st\<lparr>WIPtable := (WIPtable st)(b := remove1 p (WIPtable st b)),
                             wip_heap := (wip_heap st)(p := None)\<rparr>)))"

fun precomfree_loop :: "nat \<Rightarrow> nat list \<Rightarrow> wip_state \<Rightarrow> wip_state option" where
  "precomfree_loop c [] st = Some st"
| "precomfree_loop c (i # is) st =
     (case WIPfree (PrecommitWIP (channels st c) ! i) st of
        None \<Rightarrow> None | Some st \<Rightarrow> precomfree_loop c is st)"

definition WIPprecomfree :: "nat \<Rightarrow> wip_state \<Rightarrow> wip_state option" where
  "WIPprecomfree cp st = precomfree_loop cp [0..<PRECOMMITCACHESIZE] st"

text \<open>The search of a chain; the outer \<open>None\<close> is a freed node.\<close>

fun chain_loop :: "(nat \<Rightarrow> wip option) \<Rightarrow> hash \<Rightarrow> nat list \<Rightarrow> nat option option" where
  "chain_loop hp h [] = Some None"
| "chain_loop hp h (p # ps) =
     (case hp p of None \<Rightarrow> None
      | Some w \<Rightarrow> if MessageID w = h then Some (Some p) else chain_loop hp h ps)"

definition WIPbyhash :: "hash \<Rightarrow> wip_state \<Rightarrow> nat option option" where
  "WIPbyhash hash st = chain_loop (wip_heap st) hash (WIPtable st (wip_bucket hash))"

definition WIPbyid :: "string \<Rightarrow> wip_state \<Rightarrow> nat option option" where
  "WIPbyid messageid st =
     (let hash = Hash messageid in chain_loop (wip_heap st) hash (WIPtable st (wip_bucket hash)))"

text \<open>\<^verbatim>\<open>ArtMax\<close> is turned into an \<^verbatim>\<open>unsigned long\<close>: a negative one is huge.\<close>

definition wait_time :: "channel \<Rightarrow> int" where
  "wait_time ch = (if ArtBeg ch = 0 then 0 else if ArtMax ch < 0 \<or> ArtMax ch > WIP_ARTMAX then WIP_ARTMAX else ArtMax ch)"

definition set_channel :: "nat \<Rightarrow> channel \<Rightarrow> wip_state \<Rightarrow> wip_state" where
  "set_channel c ch st = st\<lparr>channels := (channels st)(c := ch)\<rparr>"

text \<open>The new entry goes into the ring of the offers of a channel, or becomes its current article.\<close>

definition ring_index :: "channel \<Rightarrow> nat" where
  "ring_index ch = (if PrecommitiCachenext ch = PRECOMMITCACHESIZE then 0 else PrecommitiCachenext ch)"

definition add_precommit :: "nat \<Rightarrow> nat \<Rightarrow> wip_state \<Rightarrow> wip_state option" where
  "add_precommit wp cp st =
     (let i = ring_index (channels st cp);
          st = set_channel cp ((channels st cp)\<lparr>PrecommitiCachenext := i\<rparr>) st
      in case WIPfree (PrecommitWIP (channels st cp) ! i) st of
           None \<Rightarrow> None
         | Some st \<Rightarrow>
             let ch = channels st cp
             in Some (set_channel cp (ch\<lparr>PrecommitWIP := (PrecommitWIP ch)[i := Some wp], PrecommitiCachenext := i + 1\<rparr>) st))"

definition add_current :: "nat \<Rightarrow> nat \<Rightarrow> wip_state \<Rightarrow> wip_state option" where
  "add_current wp cp st =
     (case WIPbyhash (CurrentMessageIDHash (channels st cp)) st of
        None \<Rightarrow> None
      | Some old \<Rightarrow>
        (case WIPfree old st of None \<Rightarrow> None
         | Some st \<Rightarrow>
           (case wip_heap st wp of None \<Rightarrow> None
            | Some w \<Rightarrow> Some (set_channel cp ((channels st cp)\<lparr>CurrentMessageIDHash := MessageID w\<rparr>) st))))"

lemma chain_loop_found: "chain_loop hp h ps = Some (Some p) \<Longrightarrow> p \<in> set ps \<and> (\<exists>w. hp p = Some w \<and> MessageID w = h)"
  by (induction ps) (auto split: option.splits if_splits)

function WIPinprogress ::
    "wip_settings \<Rightarrow> int \<Rightarrow> nat \<Rightarrow> string \<Rightarrow> nat \<Rightarrow> bool \<Rightarrow> wip_state \<Rightarrow> (bool \<times> wip_state) option" where
  "WIPinprogress conf now a msgid cp Precommit st =
     (case WIPbyid msgid st of
        None \<Rightarrow> None
      | Some (Some p) \<Rightarrow>
        (case wip_heap st p of None \<Rightarrow> None
         | Some wp \<Rightarrow>
           let i = wait_time (channels st (Chan wp))
           in if now - Timestamp wp < i + int (wipcheck conf) then Some (True, st)
              else if now - Timestamp wp > i + int (wipexpire conf) then
                (case WIPfree (Some p) (clear_precommit (Chan wp) p st) of
                   None \<Rightarrow> None
                 | Some st \<Rightarrow> map_option (\<lambda>(_, st). (False, st)) (WIPinprogress conf now a msgid cp Precommit st))
              else Some (Chan wp = cp, st))
      | Some None \<Rightarrow>
        (case WIPnew a now msgid cp st of
           (wp, st) \<Rightarrow>
             map_option (\<lambda>st. (False, st)) (if Precommit then add_precommit wp cp st else add_current wp cp st)))"
  by pat_completeness auto
termination
proof (relation "measure (\<lambda>(conf, now, a, m, cp, pre, st). length (WIPtable st (wip_bucket (Hash m))))", goal_cases)
  case (2 conf now a m cp pre st r p w i st')
  let ?b = "wip_bucket (Hash m)"
  from 2 have "chain_loop (wip_heap st) (Hash m) (WIPtable st ?b) = Some (Some p)"
    by (simp add: WIPbyid_def Let_def)
  from chain_loop_found [OF this] 2 have p: "p \<in> set (WIPtable st ?b)" "MessageID w = Hash m" by auto
  with 2 have "WIPtable st' ?b = remove1 p (WIPtable st ?b)"
    by (auto simp: WIPfree_def clear_precommit_def Let_def)
  with p(1) length_pos_if_in_set [OF p(1)] show ?case by (simp add: length_remove1)
qed simp

declare WIPinprogress.simps [simp del]

subsection \<open>The commands\<close>

definition NCclearwip :: "nat \<Rightarrow> wip_state \<Rightarrow> wip_state option" where
  "NCclearwip cp st =
     (case WIPbyhash (CurrentMessageIDHash (channels st cp)) st of
        None \<Rightarrow> None
      | Some wp \<Rightarrow>
        (case WIPfree wp st of None \<Rightarrow> None
         | Some st \<Rightarrow>
             let ch = channels st cp
             in Some (set_channel cp (ch\<lparr>CurrentMessageIDHash := HashClear (CurrentMessageIDHash ch), ArtBeg := 0\<rparr>) st)))"

text \<open>The answers to an offer of an article, behind the filters and the history.\<close>

datatype offer_reply = SendIt | Defer

definition NCihave_offer :: "wip_settings \<Rightarrow> int \<Rightarrow> nat \<Rightarrow> string \<Rightarrow> nat \<Rightarrow> wip_state \<Rightarrow> (offer_reply \<times> wip_state) option" where
  "NCihave_offer conf now a msgid cp st =
     (case WIPinprogress conf now a msgid cp False st of
        None \<Rightarrow> None
      | Some (True, st) \<Rightarrow> Some (Defer, st)
      | Some (False, st) \<Rightarrow> Some (SendIt, set_channel cp ((channels st cp)\<lparr>ArtBeg := now\<rparr>) st))"

definition NCcheck_offer :: "wip_settings \<Rightarrow> int \<Rightarrow> nat \<Rightarrow> string \<Rightarrow> nat \<Rightarrow> wip_state \<Rightarrow> (offer_reply \<times> wip_state) option" where
  "NCcheck_offer conf now a msgid cp st =
     map_option (\<lambda>(busy, st). (if busy then Defer else SendIt, st)) (WIPinprogress conf now a msgid cp True st)"

definition NCtakethis_wip :: "int \<Rightarrow> nat \<Rightarrow> string \<Rightarrow> nat \<Rightarrow> wip_state \<Rightarrow> wip_state option" where
  "NCtakethis_wip now a mid cp st =
     (let st = set_channel cp ((channels st cp)\<lparr>ArtBeg := now\<rparr>) st
      in case WIPbyid mid st of
           None \<Rightarrow> None
         | Some r \<Rightarrow>
           (case (case r of None \<Rightarrow> WIPnew a now mid cp st | Some p \<Rightarrow> (p, st)) of
              (p, st) \<Rightarrow>
                (case wip_heap st p of None \<Rightarrow> None
                 | Some w \<Rightarrow> Some (set_channel cp ((channels st cp)\<lparr>CurrentMessageIDHash := MessageID w\<rparr>) st))))"

definition CHANclose_wip :: "nat \<Rightarrow> wip_state \<Rightarrow> wip_state option" where
  "CHANclose_wip cp st = (case WIPprecomfree cp st of None \<Rightarrow> None | Some st \<Rightarrow> NCclearwip cp st)"

subsection \<open>The invariant\<close>

text \<open>The table holds exactly the allocated entries, each in its bucket, at most one of a message identifier; the cache
  of a channel holds allocated entries of that channel, each once.\<close>

definition table_ok :: "wip_state \<Rightarrow> bool" where
  "table_ok st \<longleftrightarrow> (\<forall>b. distinct (WIPtable st b)
     \<and> set (WIPtable st b) = {p. \<exists>w. wip_heap st p = Some w \<and> wip_bucket (MessageID w) = b})"

definition unique_ok :: "wip_state \<Rightarrow> bool" where
  "unique_ok st \<longleftrightarrow> (\<forall>p q w v. wip_heap st p = Some w \<longrightarrow> wip_heap st q = Some v \<longrightarrow> MessageID w = MessageID v \<longrightarrow> p = q)"

definition entries_ok :: "(nat \<Rightarrow> wip option) \<Rightarrow> nat \<Rightarrow> nat option list \<Rightarrow> bool" where
  "entries_ok hp c slots \<longleftrightarrow> (\<forall>i < PRECOMMITCACHESIZE. \<forall>p. slots ! i = Some p \<longrightarrow>
     (\<exists>w. hp p = Some w \<and> Chan w = c) \<and> (\<forall>j < PRECOMMITCACHESIZE. slots ! j = Some p \<longrightarrow> j = i))"

definition cache_ok :: "(nat \<Rightarrow> wip option) \<Rightarrow> nat \<Rightarrow> channel \<Rightarrow> bool" where
  "cache_ok hp c ch \<longleftrightarrow> length (PrecommitWIP ch) = PRECOMMITCACHESIZE \<and> PrecommitiCachenext ch \<le> PRECOMMITCACHESIZE
     \<and> entries_ok hp c (PrecommitWIP ch)"

definition wip_ok :: "wip_state \<Rightarrow> bool" where
  "wip_ok st \<longleftrightarrow> table_ok st \<and> unique_ok st \<and> (\<forall>c. cache_ok (wip_heap st) c (channels st c))"

text \<open>The abstract state: who is sending what, since when.\<close>

definition pending :: "wip_state \<Rightarrow> hash \<Rightarrow> (nat \<times> int) option" where
  "pending st h =
     (case WIPbyhash h st of Some (Some p) \<Rightarrow> map_option (\<lambda>w. (Chan w, Timestamp w)) (wip_heap st p) | _ \<Rightarrow> None)"

lemma chain_loop_finds:
  assumes "\<forall>q \<in> set ps. \<exists>w. hp q = Some w" "\<forall>q w. hp q = Some w \<longrightarrow> MessageID w = h \<longrightarrow> q \<in> set ps"
    "\<forall>p q w v. hp p = Some w \<longrightarrow> hp q = Some v \<longrightarrow> MessageID w = MessageID v \<longrightarrow> p = q"
  shows "chain_loop hp h ps = Some (Some p) \<longleftrightarrow> (\<exists>w. hp p = Some w \<and> MessageID w = h)"
    "chain_loop hp h ps = Some None \<longleftrightarrow> (\<forall>p w. hp p = Some w \<longrightarrow> MessageID w \<noteq> h)"
proof -
  have total: "chain_loop hp h qs \<noteq> None \<and> (\<forall>q \<in> set qs. \<forall>w. hp q = Some w \<longrightarrow> MessageID w = h \<longrightarrow> chain_loop hp h qs = Some (Some q))"
    if "\<forall>q \<in> set qs. \<exists>w. hp q = Some w" for qs
    using that
  proof (induction qs)
    case (Cons q qs)
    then obtain w where "hp q = Some w" by auto
    with Cons assms(3) show ?case by (auto split: option.splits)
  qed simp
  show "chain_loop hp h ps = Some (Some p) \<longleftrightarrow> (\<exists>w. hp p = Some w \<and> MessageID w = h)"
    using total [OF assms(1)] assms(2) chain_loop_found by metis
  show "chain_loop hp h ps = Some None \<longleftrightarrow> (\<forall>p w. hp p = Some w \<longrightarrow> MessageID w \<noteq> h)"
  proof
    assume "chain_loop hp h ps = Some None"
    then show "\<forall>p w. hp p = Some w \<longrightarrow> MessageID w \<noteq> h" using total [OF assms(1)] assms(2) by force
  next
    assume r: "\<forall>p w. hp p = Some w \<longrightarrow> MessageID w \<noteq> h"
    obtain r where "chain_loop hp h ps = Some r" using total [OF assms(1)] by blast
    moreover from this have "r = None" using chain_loop_found [of hp h ps] r by (cases r) auto
    ultimately show "chain_loop hp h ps = Some None" by simp
  qed
qed

lemma WIPbyhash_finds:
  assumes "table_ok st" "unique_ok st"
  shows "WIPbyhash h st = Some (Some p) \<longleftrightarrow> (\<exists>w. wip_heap st p = Some w \<and> MessageID w = h)"
    "WIPbyhash h st = Some None \<longleftrightarrow> (\<forall>p w. wip_heap st p = Some w \<longrightarrow> MessageID w \<noteq> h)"
    "\<exists>r. WIPbyhash h st = Some r"
proof -
  have "\<forall>q \<in> set (WIPtable st (wip_bucket h)). \<exists>w. wip_heap st q = Some w"
    "\<forall>q w. wip_heap st q = Some w \<longrightarrow> MessageID w = h \<longrightarrow> q \<in> set (WIPtable st (wip_bucket h))"
    using assms(1) by (auto simp: table_ok_def)
  note f = chain_loop_finds [OF this assms(2) [unfolded unique_ok_def]]
  show "WIPbyhash h st = Some (Some p) \<longleftrightarrow> (\<exists>w. wip_heap st p = Some w \<and> MessageID w = h)"
    "WIPbyhash h st = Some None \<longleftrightarrow> (\<forall>p w. wip_heap st p = Some w \<longrightarrow> MessageID w \<noteq> h)"
    unfolding WIPbyhash_def by (rule f)+
  then show "\<exists>r. WIPbyhash h st = Some r"
    unfolding WIPbyhash_def using f by metis
qed

lemma WIPbyid_WIPbyhash: "WIPbyid m st = WIPbyhash (Hash m) st"
  by (simp add: WIPbyid_def WIPbyhash_def Let_def)

lemma pending_Some:
  assumes "table_ok st" "unique_ok st"
  shows "pending st h = Some (c, t) \<longleftrightarrow> (\<exists>p w. wip_heap st p = Some w \<and> MessageID w = h \<and> Chan w = c \<and> Timestamp w = t)"
proof
  assume "pending st h = Some (c, t)"
  then show "\<exists>p w. wip_heap st p = Some w \<and> MessageID w = h \<and> Chan w = c \<and> Timestamp w = t"
    using WIPbyhash_finds(1) [OF assms] by (fastforce simp: pending_def split: option.splits)
next
  assume "\<exists>p w. wip_heap st p = Some w \<and> MessageID w = h \<and> Chan w = c \<and> Timestamp w = t"
  then obtain p w where "wip_heap st p = Some w" "MessageID w = h" "Chan w = c" "Timestamp w = t" by blast
  moreover from this have "WIPbyhash h st = Some (Some p)" using WIPbyhash_finds(1) [OF assms] by blast
  ultimately show "pending st h = Some (c, t)" by (simp add: pending_def)
qed

lemma pending_None:
  assumes "table_ok st" "unique_ok st"
  shows "pending st h = None \<longleftrightarrow> (\<forall>p w. wip_heap st p = Some w \<longrightarrow> MessageID w \<noteq> h)"
  using pending_Some [OF assms, of h] by (metis option.exhaust surj_pair option.distinct(1))

text \<open>The abstract state is a function of the heap alone.\<close>

lemma pending_eqI:
  assumes "table_ok st" "unique_ok st"
    and "\<And>c t. f = Some (c, t) \<longleftrightarrow> (\<exists>p w. wip_heap st p = Some w \<and> MessageID w = h \<and> Chan w = c \<and> Timestamp w = t)"
  shows "pending st h = f"
proof -
  have "f = Some ct \<longleftrightarrow> pending st h = Some ct" for ct
    using assms(3) [of "fst ct" "snd ct"] pending_Some [OF assms(1,2), of h "fst ct" "snd ct"] by simp
  then show ?thesis by (metis option.exhaust)
qed

subsection \<open>Adding and removing an entry\<close>

lemma clear_loop_facts:
  "length (clear_loop p qs) = length qs"
  "i < length qs \<Longrightarrow> clear_loop p qs ! i = qs ! i \<or> clear_loop p qs ! i = None \<and> qs ! i = Some p"
  "i < length qs \<Longrightarrow> qs ! i = Some p \<Longrightarrow> \<forall>j < length qs. qs ! j = Some p \<longrightarrow> j = i \<Longrightarrow> clear_loop p qs ! i = None"
proof -
  show "length (clear_loop p qs) = length qs" by (induction qs) auto
  show "i < length qs \<Longrightarrow> clear_loop p qs ! i = qs ! i \<or> clear_loop p qs ! i = None \<and> qs ! i = Some p"
  proof (induction qs arbitrary: i)
    case (Cons q qs)
    then show ?case by (cases i) auto
  qed simp
  show "i < length qs \<Longrightarrow> qs ! i = Some p \<Longrightarrow> \<forall>j < length qs. qs ! j = Some p \<longrightarrow> j = i \<Longrightarrow> clear_loop p qs ! i = None"
  proof (induction qs arbitrary: i)
    case (Cons q qs)
    show ?case
    proof (cases i)
      case (Suc k)
      have u: "(q # qs) ! j = Some p \<Longrightarrow> j < Suc (length qs) \<Longrightarrow> j = Suc k" for j
        using Cons.prems(3) [rule_format, of j] unfolding Suc length_Cons by blast
      have "q \<noteq> Some p" using u [of 0] by auto
      have c: "\<forall>j < length qs. qs ! j = Some p \<longrightarrow> j = k"
      proof (intro allI impI)
        fix j assume "j < length qs" "qs ! j = Some p"
        then have "Suc j = Suc k" by (intro u) simp_all
        then show "j = k" by simp
      qed
      have "clear_loop p qs ! k = None" by (rule Cons.IH [OF _ _ c]) (use Cons.prems(1,2) Suc in simp_all)
      with \<open>q \<noteq> Some p\<close> show ?thesis unfolding Suc by simp
    qed (use Cons.prems(2) in simp)
  qed simp
qed

lemma cache_okD:
  assumes "cache_ok hp c ch" "i < PRECOMMITCACHESIZE"
  shows "PrecommitWIP ch ! i = Some p \<Longrightarrow> \<exists>w. hp p = Some w \<and> Chan w = c"
    "j < PRECOMMITCACHESIZE \<Longrightarrow> PrecommitWIP ch ! i = Some p \<Longrightarrow> PrecommitWIP ch ! j = Some p \<Longrightarrow> j = i"
  using assms unfolding cache_ok_def entries_ok_def by blast+

lemma cache_ok_heap:
  assumes "cache_ok hp c ch" "\<And>i p. i < PRECOMMITCACHESIZE \<Longrightarrow> PrecommitWIP ch ! i = Some p \<Longrightarrow> hp' p = hp p"
  shows "cache_ok hp' c ch"
  unfolding cache_ok_def entries_ok_def
proof (intro conjI allI impI)
  fix i p
  assume i: "i < PRECOMMITCACHESIZE" "PrecommitWIP ch ! i = Some p"
  from cache_okD(1) [OF assms(1) this] assms(2) [OF this] show "\<exists>w. hp' p = Some w \<and> Chan w = c" by simp
  fix j
  assume "j < PRECOMMITCACHESIZE" "PrecommitWIP ch ! j = Some p"
  from cache_okD(2) [OF assms(1) i(1) this(1) i(2) this(2)] show "j = i" .
qed (use assms(1) in \<open>simp_all add: cache_ok_def\<close>)

lemma cache_ok_clear:
  assumes "cache_ok hp c ch"
  shows "cache_ok hp c (ch\<lparr>PrecommitWIP := clear_loop p (PrecommitWIP ch)\<rparr>)"
    "i < PRECOMMITCACHESIZE \<Longrightarrow> clear_loop p (PrecommitWIP ch) ! i \<noteq> Some p"
proof -
  have l: "length (PrecommitWIP ch) = PRECOMMITCACHESIZE" using assms by (simp add: cache_ok_def)
  have c: "clear_loop p (PrecommitWIP ch) ! j = PrecommitWIP ch ! j \<or>
      clear_loop p (PrecommitWIP ch) ! j = None \<and> PrecommitWIP ch ! j = Some p" if "j < PRECOMMITCACHESIZE" for j
    using clear_loop_facts(2) [of j "PrecommitWIP ch" p] that l by simp
  show "cache_ok hp c (ch\<lparr>PrecommitWIP := clear_loop p (PrecommitWIP ch)\<rparr>)"
    unfolding cache_ok_def entries_ok_def
  proof (intro conjI allI impI)
    fix i q
    assume i: "i < PRECOMMITCACHESIZE" "PrecommitWIP (ch\<lparr>PrecommitWIP := clear_loop p (PrecommitWIP ch)\<rparr>) ! i = Some q"
    then have q: "PrecommitWIP ch ! i = Some q" using c [of i] by auto
    then show "\<exists>w. hp q = Some w \<and> Chan w = c" using cache_okD(1) [OF assms i(1)] by blast
    fix j
    assume j: "j < PRECOMMITCACHESIZE" "PrecommitWIP (ch\<lparr>PrecommitWIP := clear_loop p (PrecommitWIP ch)\<rparr>) ! j = Some q"
    then have "PrecommitWIP ch ! j = Some q" using c [of j] by auto
    from cache_okD(2) [OF assms i(1) j(1) q this] show "j = i" .
  qed (use assms in \<open>simp_all add: cache_ok_def clear_loop_facts(1)\<close>)
  assume i: "i < PRECOMMITCACHESIZE"
  show "clear_loop p (PrecommitWIP ch) ! i \<noteq> Some p"
  proof
    assume e: "clear_loop p (PrecommitWIP ch) ! i = Some p"
    then have p: "PrecommitWIP ch ! i = Some p" using c [OF i] by simp
    then have "\<forall>j < length (PrecommitWIP ch). PrecommitWIP ch ! j = Some p \<longrightarrow> j = i"
      using cache_okD(2) [OF assms i] l by simp
    from clear_loop_facts(3) [OF _ p this] i l e show False by simp
  qed
qed

lemma wip_ok_channel:
  assumes "wip_ok st" "cache_ok (wip_heap st) c ch"
  shows "wip_ok (set_channel c ch st)"
  using assms by (simp add: wip_ok_def table_ok_def unique_ok_def set_channel_def)

lemma set_channel_simps [simp]:
  "wip_heap (set_channel c ch st) = wip_heap st" "WIPtable (set_channel c ch st) = WIPtable st"
  "channels (set_channel c ch st) d = (if d = c then ch else channels st d)"
  by (simp_all add: set_channel_def)

lemma clear_precommit_channel:
  "clear_precommit c p st = set_channel c ((channels st c)\<lparr>PrecommitWIP := clear_loop p (PrecommitWIP (channels st c))\<rparr>) st"
  by (simp add: clear_precommit_def set_channel_def)

lemma pending_same: "wip_heap st' = wip_heap st \<Longrightarrow> WIPtable st' = WIPtable st \<Longrightarrow> pending st' = pending st"
  by (intro ext) (simp only: pending_def WIPbyhash_def)

lemma pending_set_channel [simp]: "pending (set_channel c ch st) = pending st"
  by (rule pending_same) simp_all

lemma wip_okD:
  assumes "wip_ok st"
  shows "table_ok st" "unique_ok st" "cache_ok (wip_heap st) c (channels st c)"
  using assms by (simp_all add: wip_ok_def)

lemma WIPnew_ok:
  assumes "wip_ok st" "wip_heap st a = None" "pending st (Hash m) = None"
    and w_def: "w = \<lparr>MessageID = Hash m, Timestamp = now, Chan = cp\<rparr>"
  shows "fst (WIPnew a now m cp st) = a" "wip_heap (snd (WIPnew a now m cp st)) = (wip_heap st)(a \<mapsto> w)"
    "channels (snd (WIPnew a now m cp st)) = channels st" "wip_ok (snd (WIPnew a now m cp st))"
    "pending (snd (WIPnew a now m cp st)) = (pending st)(Hash m \<mapsto> (cp, now))"
proof -
  let ?st = "snd (WIPnew a now m cp st)"
  have st: "wip_heap ?st = (wip_heap st)(a \<mapsto> w)" "channels ?st = channels st"
    "WIPtable ?st = (WIPtable st)(wip_bucket (Hash m) := a # WIPtable st (wip_bucket (Hash m)))"
    by (simp_all add: WIPnew_def Let_def w_def)
  note ok = wip_okD [OF assms(1)]
  have new: "MessageID v \<noteq> Hash m" if "wip_heap st p = Some v" for p v
    using pending_None [OF ok(1,2)] assms(3) that by blast
  have tbl: "table_ok ?st" unfolding table_ok_def
  proof
    fix b
    have "a \<notin> set (WIPtable st b)" using ok(1) assms(2) by (auto simp: table_ok_def)
    then show "distinct (WIPtable ?st b) \<and> set (WIPtable ?st b) = {p. \<exists>w. wip_heap ?st p = Some w \<and> wip_bucket (MessageID w) = b}"
      using ok(1) assms(2) unfolding st table_ok_def by (auto simp: w_def)
  qed
  have uni: "unique_ok ?st"
    unfolding unique_ok_def
  proof (intro allI impI)
    fix p q v v'
    assume *: "wip_heap ?st p = Some v" "wip_heap ?st q = Some v'" "MessageID v = MessageID v'"
    show "p = q"
    proof (cases "p = a \<or> q = a")
      case True
      with * new [of q v'] new [of p v] show ?thesis unfolding st by (auto simp: w_def split: if_splits)
    next
      case False
      with * have "wip_heap st p = Some v" "wip_heap st q = Some v'" unfolding st by simp_all
      with *(3) ok(2) show ?thesis unfolding unique_ok_def by blast
    qed
  qed
  have "cache_ok (wip_heap ?st) c (channels ?st c)" for c
    unfolding st
  proof (rule cache_ok_heap [OF ok(3) [of c]])
    fix i p
    assume "i < PRECOMMITCACHESIZE" "PrecommitWIP (channels st c) ! i = Some p"
    from cache_okD(1) [OF ok(3) this] assms(2) show "((wip_heap st)(a \<mapsto> w)) p = wip_heap st p" by auto
  qed
  with tbl uni show "wip_ok ?st" by (simp add: wip_ok_def)
  show "pending ?st = (pending st)(Hash m \<mapsto> (cp, now))"
  proof (intro ext pending_eqI [OF tbl uni])
    fix h c t
    show "((pending st)(Hash m \<mapsto> (cp, now))) h = Some (c, t) \<longleftrightarrow>
        (\<exists>p w. wip_heap ?st p = Some w \<and> MessageID w = h \<and> Chan w = c \<and> Timestamp w = t)"
    proof (cases "h = Hash m")
      case True
      then show ?thesis using new unfolding st by (auto simp: w_def)
    next
      case False
      then have "wip_heap ?st p = Some v \<and> MessageID v = h \<longleftrightarrow> wip_heap st p = Some v \<and> MessageID v = h" for p v
        using assms(2) unfolding st by (auto simp: w_def)
      with False show ?thesis using pending_Some [OF ok(1,2), of h c t] by (metis fun_upd_other)
    qed
  qed
  show "fst (WIPnew a now m cp st) = a" by (simp add: WIPnew_def Let_def)
qed (simp_all add: WIPnew_def Let_def w_def)

text \<open>What freeing does to the channels: the entry disappears from the caches, nothing else changes.\<close>

definition forgets :: "nat option \<Rightarrow> channel \<Rightarrow> channel \<Rightarrow> bool" where
  "forgets wp ch ch' \<longleftrightarrow> CurrentMessageIDHash ch' = CurrentMessageIDHash ch \<and> PrecommitiCachenext ch' = PrecommitiCachenext ch
     \<and> ArtBeg ch' = ArtBeg ch \<and> ArtMax ch' = ArtMax ch
     \<and> (\<forall>i < PRECOMMITCACHESIZE. PrecommitWIP ch' ! i = (if PrecommitWIP ch ! i = wp then None else PrecommitWIP ch ! i))"

lemma forgetsD:
  assumes "forgets wp ch ch'"
  shows "CurrentMessageIDHash ch' = CurrentMessageIDHash ch" "PrecommitiCachenext ch' = PrecommitiCachenext ch"
    "ArtBeg ch' = ArtBeg ch" "ArtMax ch' = ArtMax ch" "ring_index ch' = ring_index ch" "wait_time ch' = wait_time ch"
    "i < PRECOMMITCACHESIZE \<Longrightarrow> PrecommitWIP ch' ! i = (if PrecommitWIP ch ! i = wp then None else PrecommitWIP ch ! i)"
  using assms by (simp_all add: forgets_def ring_index_def wait_time_def)

lemma cache_ok_length: "cache_ok hp c ch \<Longrightarrow> length (PrecommitWIP ch) = PRECOMMITCACHESIZE"
  by (simp add: cache_ok_def)

lemma forgets_clear:
  assumes "cache_ok hp c ch"
  shows "forgets (Some p) ch (ch\<lparr>PrecommitWIP := clear_loop p (PrecommitWIP ch)\<rparr>)"
  unfolding forgets_def
proof (intro conjI allI impI)
  fix i assume i: "i < PRECOMMITCACHESIZE"
  show "PrecommitWIP (ch\<lparr>PrecommitWIP := clear_loop p (PrecommitWIP ch)\<rparr>) ! i
      = (if PrecommitWIP ch ! i = Some p then None else PrecommitWIP ch ! i)"
    using cache_ok_clear(2) [OF assms i, of p] clear_loop_facts(2) [of i "PrecommitWIP ch" p] cache_ok_length [OF assms] i by auto
qed simp_all

lemma forgets_same:
  "\<forall>i < PRECOMMITCACHESIZE. PrecommitWIP ch ! i \<noteq> Some p \<Longrightarrow> forgets (Some p) ch ch"
  by (simp add: forgets_def)

lemma WIPfree_ok:
  assumes "wip_ok st" "wip_heap st p = Some w"
  shows "\<exists>st'. WIPfree (Some p) st = Some st' \<and> wip_ok st' \<and> wip_heap st' = (wip_heap st)(p := None)
    \<and> pending st' = (pending st)(MessageID w := None) \<and> (\<forall>c. forgets (Some p) (channels st c) (channels st' c))"
proof -
  note ok = wip_okD [OF assms(1)]
  define b where "b = wip_bucket (MessageID w)"
  define st1 where "st1 = clear_precommit (Chan w) p st"
  define st' where "st' = st1\<lparr>WIPtable := (WIPtable st1)(b := remove1 p (WIPtable st1 b)), wip_heap := (wip_heap st1)(p := None)\<rparr>"
  have st': "wip_heap st' = (wip_heap st)(p := None)" "WIPtable st' = (WIPtable st)(b := remove1 p (WIPtable st b))"
    "channels st' = channels st1"
    by (simp_all add: st'_def st1_def clear_precommit_channel)
  have in_b: "p \<in> set (WIPtable st b)" using ok(1) assms(2) by (auto simp: table_ok_def b_def)
  have free: "WIPfree (Some p) st = Some st'"
    using assms(2) in_b by (simp add: WIPfree_def Let_def b_def [symmetric] st1_def [symmetric] st'_def)
      (simp add: st1_def clear_precommit_channel)
  have fg: "forgets (Some p) (channels st c) (channels st' c)" for c
  proof (cases "c = Chan w")
    case True
    with forgets_clear [OF ok(3), of p c] show ?thesis by (simp add: st' st1_def clear_precommit_channel)
  next
    case False
    have "PrecommitWIP (channels st c) ! i \<noteq> Some p" if "i < PRECOMMITCACHESIZE" for i
      using cache_okD(1) [OF ok(3) that, of c p] assms(2) False by auto
    with False show ?thesis by (simp add: st' st1_def clear_precommit_channel forgets_same)
  qed
  have tbl: "table_ok st'" unfolding table_ok_def
  proof
    fix d
    have "p \<notin> set (WIPtable st d)" if "d \<noteq> b" using ok(1) assms(2) that by (auto simp: table_ok_def b_def)
    then show "distinct (WIPtable st' d) \<and> set (WIPtable st' d) = {q. \<exists>v. wip_heap st' q = Some v \<and> wip_bucket (MessageID v) = d}"
      using ok(1) unfolding st' table_ok_def by auto
  qed
  have uni: "unique_ok st'" unfolding unique_ok_def
  proof (intro allI impI)
    fix q r v u
    assume *: "wip_heap st' q = Some v" "wip_heap st' r = Some u" "MessageID v = MessageID u"
    then have "wip_heap st q = Some v" "wip_heap st r = Some u" unfolding st' by (auto split: if_splits)
    with *(3) ok(2) show "q = r" unfolding unique_ok_def by blast
  qed
  have "cache_ok (wip_heap st') c (channels st' c)" for c
  proof (rule cache_ok_heap)
    show "cache_ok (wip_heap st) c (channels st' c)"
      using ok(3) [of c] cache_ok_clear(1) [OF ok(3), of c p] unfolding st' by (auto simp: st1_def clear_precommit_channel)
    fix i q
    assume i: "i < PRECOMMITCACHESIZE" "PrecommitWIP (channels st' c) ! i = Some q"
    with forgetsD(7) [OF fg i(1)] have "q \<noteq> p" by (auto split: if_splits)
    then show "wip_heap st' q = wip_heap st q" by (simp add: st')
  qed
  with tbl uni have ok': "wip_ok st'" by (simp add: wip_ok_def)
  have "pending st' = (pending st)(MessageID w := None)"
  proof (intro ext pending_eqI [OF tbl uni])
    fix h c t
    have eq: "wip_heap st' q = Some v \<and> MessageID v = h \<longleftrightarrow> wip_heap st q = Some v \<and> MessageID v = h \<and> h \<noteq> MessageID w" for q v
      using ok(2) assms(2) unfolding st' unique_ok_def by auto
    show "((pending st)(MessageID w := None)) h = Some (c, t) \<longleftrightarrow>
        (\<exists>q v. wip_heap st' q = Some v \<and> MessageID v = h \<and> Chan v = c \<and> Timestamp v = t)"
      using pending_Some [OF ok(1,2), of h c t] eq by (cases "h = MessageID w") (simp, metis, simp, metis)
  qed
  with free ok' st'(1) fg show ?thesis by blast
qed

definition hash_at :: "wip_state \<Rightarrow> nat option \<Rightarrow> hash option" where
  "hash_at st wp = (case wp of None \<Rightarrow> None | Some p \<Rightarrow> map_option MessageID (wip_heap st p))"

fun without :: "(hash \<Rightarrow> 'a option) \<Rightarrow> hash option \<Rightarrow> hash \<Rightarrow> 'a option" where
  "without f None = f"
| "without f (Some h) = f(h := None)"

lemma WIPfree_opt:
  assumes "wip_ok st" "\<And>p. wp = Some p \<Longrightarrow> wip_heap st p \<noteq> None"
  shows "\<exists>st'. WIPfree wp st = Some st' \<and> wip_ok st' \<and> pending st' = without (pending st) (hash_at st wp)
    \<and> (\<forall>q. wip_heap st' q = (if wp = Some q then None else wip_heap st q))
    \<and> (\<forall>c. forgets wp (channels st c) (channels st' c))"
proof (cases wp)
  case None
  with assms(1) show ?thesis by (simp add: WIPfree_def hash_at_def forgets_def)
next
  case (Some p)
  then obtain w where w: "wip_heap st p = Some w" using assms(2) by auto
  from WIPfree_ok [OF assms(1) this] obtain st' where "WIPfree (Some p) st = Some st'" "wip_ok st'"
    "wip_heap st' = (wip_heap st)(p := None)" "pending st' = (pending st)(MessageID w := None)"
    "\<forall>c. forgets (Some p) (channels st c) (channels st' c)" by blast
  with Some w show ?thesis by (intro exI [of _ st']) (simp add: hash_at_def)
qed

lemma ring_index_less: "cache_ok hp c ch \<Longrightarrow> ring_index ch < PRECOMMITCACHESIZE"
  by (auto simp: cache_ok_def ring_index_def PRECOMMITCACHESIZE_def)

lemma cache_ok_next:
  "cache_ok hp c ch \<Longrightarrow> n \<le> PRECOMMITCACHESIZE \<Longrightarrow> cache_ok hp c (ch\<lparr>PrecommitiCachenext := n\<rparr>)"
  by (simp add: cache_ok_def)

lemma cache_ok_add:
  assumes "cache_ok hp c ch" "i < PRECOMMITCACHESIZE" "hp a = Some w" "Chan w = c"
    "\<And>j. j < PRECOMMITCACHESIZE \<Longrightarrow> PrecommitWIP ch ! j \<noteq> Some a" "n \<le> PRECOMMITCACHESIZE"
  shows "cache_ok hp c (ch\<lparr>PrecommitWIP := (PrecommitWIP ch)[i := Some a], PrecommitiCachenext := n\<rparr>)"
  unfolding cache_ok_def entries_ok_def
proof (intro conjI allI impI)
  let ?s = "(PrecommitWIP ch)[i := Some a]"
  have nth: "?s ! j = (if j = i then Some a else PrecommitWIP ch ! j)" if "j < PRECOMMITCACHESIZE" for j
    using that cache_ok_length [OF assms(1)] by simp
  fix j p
  assume j: "j < PRECOMMITCACHESIZE" "PrecommitWIP (ch\<lparr>PrecommitWIP := ?s, PrecommitiCachenext := n\<rparr>) ! j = Some p"
  show "\<exists>w. hp p = Some w \<and> Chan w = c"
    using j nth [OF j(1)] assms(3,4) cache_okD(1) [OF assms(1) j(1)] by (auto split: if_splits)
  fix k
  assume k: "k < PRECOMMITCACHESIZE" "PrecommitWIP (ch\<lparr>PrecommitWIP := ?s, PrecommitiCachenext := n\<rparr>) ! k = Some p"
  show "k = j"
    using j k nth [OF j(1)] nth [OF k(1)] assms(5) cache_okD(2) [OF assms(1) j(1) k(1)] by (auto split: if_splits)
qed (use assms(1,6) in \<open>simp_all add: cache_ok_def\<close>)

definition evicted :: "bool \<Rightarrow> nat \<Rightarrow> wip_state \<Rightarrow> hash option" where
  "evicted Precommit cp st =
     (if Precommit then hash_at st (PrecommitWIP (channels st cp) ! ring_index (channels st cp))
      else Some (CurrentMessageIDHash (channels st cp)))"

lemma add_precommit_ok:
  assumes "wip_ok st" "wip_heap st a = Some w" "Chan w = cp" "\<And>j. j < PRECOMMITCACHESIZE \<Longrightarrow> PrecommitWIP (channels st cp) ! j \<noteq> Some a"
  shows "\<exists>st'. add_precommit a cp st = Some st' \<and> wip_ok st' \<and> pending st' = without (pending st) (evicted True cp st)"
proof -
  note ok = wip_okD [OF assms(1)]
  define i where "i = ring_index (channels st cp)"
  define st1 where "st1 = set_channel cp ((channels st cp)\<lparr>PrecommitiCachenext := i\<rparr>) st"
  have i: "i < PRECOMMITCACHESIZE" using ring_index_less [OF ok(3)] by (simp add: i_def)
  have ok1: "wip_ok st1"
    unfolding st1_def using i by (intro wip_ok_channel assms(1) cache_ok_next ok(3)) simp
  define wp where "wp = PrecommitWIP (channels st cp) ! i"
  have "wip_heap st1 p \<noteq> None" if "wp = Some p" for p
    using cache_okD(1) [OF ok(3) i that [unfolded wp_def]] by (auto simp: st1_def)
  from WIPfree_opt [OF ok1 this] obtain st2 where st2: "WIPfree wp st1 = Some st2" "wip_ok st2"
    "pending st2 = without (pending st1) (hash_at st1 wp)" "\<forall>q. wip_heap st2 q = (if wp = Some q then None else wip_heap st1 q)"
    "forgets wp (channels st1 cp) (channels st2 cp)" by blast
  define ch where "ch = channels st2 cp"
  define st' where "st' = set_channel cp (ch\<lparr>PrecommitWIP := (PrecommitWIP ch)[i := Some a], PrecommitiCachenext := i + 1\<rparr>) st2"
  have "add_precommit a cp st = Some st'"
    using st2(1) by (simp add: add_precommit_def Let_def i_def [symmetric] st1_def [symmetric] st'_def ch_def)
      (simp add: st1_def wp_def Let_def)
  moreover have "wip_ok st'" unfolding st'_def
  proof (intro wip_ok_channel st2(2) cache_ok_add)
    show "cache_ok (wip_heap st2) cp ch" using wip_okD(3) [OF st2(2)] by (simp add: ch_def)
    have "wp \<noteq> Some a" using assms(4) [OF i] by (simp add: wp_def)
    then show "wip_heap st2 a = Some w" using st2(4) assms(2) by (simp add: st1_def)
    show "PrecommitWIP ch ! j \<noteq> Some a" if "j < PRECOMMITCACHESIZE" for j
      using forgetsD(7) [OF st2(5) that] assms(4) [OF that] by (simp add: ch_def st1_def)
  qed (use i assms(3) in simp_all)
  moreover have "pending st' = without (pending st) (evicted True cp st)"
    using st2(3) by (simp add: st'_def st1_def evicted_def wp_def i_def hash_at_def split: option.split)
  ultimately show ?thesis by blast
qed

lemma free_by_hash:
  assumes "wip_ok st"
  shows "\<exists>old st'. WIPbyhash h st = Some old \<and> WIPfree old st = Some st' \<and> wip_ok st' \<and> pending st' = (pending st)(h := None)
    \<and> (\<forall>q w. wip_heap st q = Some w \<longrightarrow> MessageID w \<noteq> h \<longrightarrow> wip_heap st' q = Some w)
    \<and> (\<forall>c. forgets old (channels st c) (channels st' c))"
proof -
  note ok = wip_okD [OF assms]
  obtain old where old: "WIPbyhash h st = Some old" using WIPbyhash_finds(3) [OF ok(1,2)] by blast
  have hp: "\<exists>w. wip_heap st p = Some w \<and> MessageID w = h" if "old = Some p" for p
    using WIPbyhash_finds(1) [OF ok(1,2)] old that by blast
  then obtain st' where st': "WIPfree old st = Some st'" "wip_ok st'" "pending st' = without (pending st) (hash_at st old)"
    "\<forall>q. wip_heap st' q = (if old = Some q then None else wip_heap st q)" "\<forall>c. forgets old (channels st c) (channels st' c)"
    using WIPfree_opt [OF assms, of old] by (metis option.distinct(1))
  have "without (pending st) (hash_at st old) = (pending st)(h := None)"
  proof (cases old)
    case None
    then have "pending st h = None" using old by (simp add: pending_def)
    with None show ?thesis by (auto simp: hash_at_def)
  next
    case (Some p)
    with hp show ?thesis by (auto simp: hash_at_def)
  qed
  moreover have "\<forall>q w. wip_heap st q = Some w \<longrightarrow> MessageID w \<noteq> h \<longrightarrow> wip_heap st' q = Some w"
    using st'(4) hp by fastforce
  ultimately show ?thesis using old st' by metis
qed

lemma wip_ok_current:
  assumes "wip_ok st" "PrecommitWIP ch = PrecommitWIP (channels st c)" "PrecommitiCachenext ch = PrecommitiCachenext (channels st c)"
  shows "wip_ok (set_channel c ch st)"
  using wip_ok_channel [OF assms(1), of c ch] wip_okD(3) [OF assms(1), of c] assms(2,3) by (simp add: cache_ok_def)

lemma add_current_ok:
  assumes "wip_ok st" "wip_heap st a = Some w" "MessageID w \<noteq> CurrentMessageIDHash (channels st cp)"
  shows "\<exists>st'. add_current a cp st = Some st' \<and> wip_ok st' \<and> pending st' = without (pending st) (evicted False cp st)"
proof -
  obtain old st1 where st1: "WIPbyhash (CurrentMessageIDHash (channels st cp)) st = Some old" "WIPfree old st = Some st1" "wip_ok st1"
    "pending st1 = (pending st)(CurrentMessageIDHash (channels st cp) := None)" "wip_heap st1 a = Some w"
    using free_by_hash [OF assms(1), of "CurrentMessageIDHash (channels st cp)"] assms(2,3) by metis
  define st' where "st' = set_channel cp ((channels st1 cp)\<lparr>CurrentMessageIDHash := MessageID w\<rparr>) st1"
  have "add_current a cp st = Some st'" using st1(1,2,5) by (simp add: add_current_def st'_def)
  moreover have "wip_ok st'" unfolding st'_def by (rule wip_ok_current [OF st1(3)]) simp_all
  moreover have "pending st' = without (pending st) (evicted False cp st)" using st1(4) by (simp add: st'_def evicted_def)
  ultimately show ?thesis by blast
qed

subsection \<open>What an offer does\<close>

text \<open>The answer to an offer and the new abstract state: refused while another copy is expected within the time to
  check, accepted when nobody is sending the article or the sender is overdue.\<close>

definition offer_spec ::
    "wip_settings \<Rightarrow> int \<Rightarrow> string \<Rightarrow> nat \<Rightarrow> bool \<Rightarrow> wip_state \<Rightarrow> bool \<times> (hash \<Rightarrow> (nat \<times> int) option)" where
  "offer_spec conf now m cp Precommit st =
     (let registered = (without (pending st) (evicted Precommit cp st))(Hash m \<mapsto> (cp, now))
      in case pending st (Hash m) of
           None \<Rightarrow> (False, registered)
         | Some (c, t) \<Rightarrow>
             if now - t < wait_time (channels st c) + int (wipcheck conf) then (True, pending st)
             else if now - t > wait_time (channels st c) + int (wipexpire conf) then (False, registered)
             else (c = cp, pending st))"

lemma WIPinprogress_new:
  assumes "wip_ok st" "wip_heap st a = None" "pending st (Hash m) = None"
    "Precommit \<or> CurrentMessageIDHash (channels st cp) \<noteq> Hash m"
  shows "\<exists>st'. WIPinprogress conf now a m cp Precommit st = Some (False, st') \<and> wip_ok st'
    \<and> pending st' = (without (pending st) (evicted Precommit cp st))(Hash m \<mapsto> (cp, now))"
proof -
  note ok = wip_okD [OF assms(1)]
  define w where "w = \<lparr>MessageID = Hash m, Timestamp = now, Chan = cp\<rparr>"
  define st1 where "st1 = snd (WIPnew a now m cp st)"
  note new = WIPnew_ok [OF assms(1-3) w_def, folded st1_def]
  have none: "WIPbyid m st = Some None"
    using WIPbyhash_finds(2) [OF ok(1,2)] pending_None [OF ok(1,2)] assms(3) by (simp add: WIPbyid_WIPbyhash)
  have fresh: "PrecommitWIP (channels st cp) ! j \<noteq> Some a" if "j < PRECOMMITCACHESIZE" for j
    using cache_okD(1) [OF ok(3) that, of cp] assms(2) by auto
  have ha: "wip_heap st1 a = Some w" using new(2) by simp
  have ev: "without (pending st1) (evicted Precommit cp st1) = (without (pending st) (evicted Precommit cp st))(Hash m \<mapsto> (cp, now))"
  proof -
    have e: "evicted Precommit cp st1 = evicted Precommit cp st"
      using fresh [OF ring_index_less [OF ok(3)]] new(2,3) by (auto simp: evicted_def hash_at_def split: option.split)
    have "evicted Precommit cp st \<noteq> Some (Hash m)"
    proof (cases Precommit)
      case True
      then show ?thesis
        using pending_None [OF ok(1,2)] assms(3) by (fastforce simp: evicted_def hash_at_def split: option.splits)
    qed (use assms(4) in \<open>simp add: evicted_def\<close>)
    with new(5) show ?thesis unfolding e by (cases "evicted Precommit cp st") (auto simp: fun_upd_twist)
  qed
  have "\<exists>st'. (if Precommit then add_precommit a cp st1 else add_current a cp st1) = Some st' \<and> wip_ok st'
      \<and> pending st' = without (pending st1) (evicted Precommit cp st1)"
  proof (cases Precommit)
    case True
    from add_precommit_ok [OF new(4) ha] fresh new(3) show ?thesis using True by (simp add: w_def)
  next
    case False
    from add_current_ok [OF new(4) ha, of cp] new(3) assms(4) show ?thesis using False by (simp add: w_def)
  qed
  then obtain st' where "(if Precommit then add_precommit a cp st1 else add_current a cp st1) = Some st'" "wip_ok st'"
    "pending st' = without (pending st1) (evicted Precommit cp st1)" by blast
  moreover have "WIPnew a now m cp st = (a, st1)" using new(1) by (simp add: st1_def prod_eq_iff)
  ultimately show ?thesis using none ev by (subst WIPinprogress.simps) simp
qed

lemma clear_precommit_ok:
  assumes "wip_ok st"
  shows "wip_ok (clear_precommit c p st)" "wip_heap (clear_precommit c p st) = wip_heap st"
    "pending (clear_precommit c p st) = pending st"
    "wip_heap st p = Some w \<Longrightarrow> Chan w = c \<Longrightarrow> forgets (Some p) (channels st d) (channels (clear_precommit c p st) d)"
proof -
  note ok = wip_okD(3) [OF assms]
  show "wip_ok (clear_precommit c p st)"
    unfolding clear_precommit_channel by (rule wip_ok_channel [OF assms cache_ok_clear(1) [OF ok]])
  show "wip_heap (clear_precommit c p st) = wip_heap st" "pending (clear_precommit c p st) = pending st"
    unfolding clear_precommit_channel by simp_all
  assume w: "wip_heap st p = Some w" "Chan w = c"
  show "forgets (Some p) (channels st d) (channels (clear_precommit c p st) d)"
  proof (cases "d = c")
    case True
    with forgets_clear [OF ok, of p d] show ?thesis by (auto simp: clear_precommit_channel)
  next
    case False
    have "PrecommitWIP (channels st d) ! i \<noteq> Some p" if "i < PRECOMMITCACHESIZE" for i
      using cache_okD(1) [OF ok that, of d p] w False by auto
    with False show ?thesis by (simp add: clear_precommit_channel forgets_same)
  qed
qed

lemma forgets_trans:
  "forgets wp ch ch' \<Longrightarrow> forgets wp ch' ch'' \<Longrightarrow> forgets wp ch ch''"
  by (simp add: forgets_def)

lemma WIPinprogress_spec:
  assumes "wip_ok st" "wip_heap st a = None" "Precommit \<or> CurrentMessageIDHash (channels st cp) \<noteq> Hash m"
  shows "\<exists>st'. WIPinprogress conf now a m cp Precommit st = Some (fst (offer_spec conf now m cp Precommit st), st') \<and> wip_ok st'
    \<and> pending st' = snd (offer_spec conf now m cp Precommit st)"
proof (cases "pending st (Hash m)")
  case None
  with WIPinprogress_new [OF assms(1,2) None assms(3), of conf now] show ?thesis by (simp add: offer_spec_def)
next
  case (Some ct)
  obtain c t where ct: "ct = (c, t)" by fastforce
  note ok = wip_okD [OF assms(1)]
  obtain p w where w: "wip_heap st p = Some w" "MessageID w = Hash m" "Chan w = c" "Timestamp w = t"
    using Some ct pending_Some [OF ok(1,2)] by blast
  have byid: "WIPbyid m st = Some (Some p)"
    using WIPbyhash_finds(1) [OF ok(1,2)] w(1,2) by (simp add: WIPbyid_WIPbyhash)
  define i where "i = wait_time (channels st c)"
  show ?thesis
  proof (cases "now - t > i + int (wipexpire conf) \<and> \<not> now - t < i + int (wipcheck conf)")
    case False
    with Some ct byid w assms(1) show ?thesis
      by (subst WIPinprogress.simps) (auto simp: offer_spec_def Let_def i_def)
  next
    case True
    define st1 where "st1 = clear_precommit c p st"
    note ok1 = clear_precommit_ok [OF assms(1), where c = c and p = p, folded st1_def]
    obtain st2 where st2: "WIPfree (Some p) st1 = Some st2" "wip_ok st2" "wip_heap st2 = (wip_heap st1)(p := None)"
      "pending st2 = (pending st1)(Hash m := None)" "\<forall>d. forgets (Some p) (channels st1 d) (channels st2 d)"
      using WIPfree_ok [OF ok1(1), of p w] w ok1(2) by auto
    have fg: "forgets (Some p) (channels st cp) (channels st2 cp)"
      using forgets_trans [OF ok1(4) [OF w(1,3)]] st2(5) by blast
    have "wip_heap st2 a = None" using st2(3) ok1(2) assms(2) by simp
    moreover have "pending st2 (Hash m) = None" using st2(4) by simp
    moreover have "Precommit \<or> CurrentMessageIDHash (channels st2 cp) \<noteq> Hash m"
      using assms(3) forgetsD(1) [OF fg] by simp
    ultimately obtain st' where st': "WIPinprogress conf now a m cp Precommit st2 = Some (False, st')" "wip_ok st'"
      "pending st' = (without (pending st2) (evicted Precommit cp st2))(Hash m \<mapsto> (cp, now))"
      using WIPinprogress_new [OF st2(2)] by blast
    have "(without (pending st2) (evicted Precommit cp st2))(Hash m \<mapsto> (cp, now))
        = (without (pending st) (evicted Precommit cp st))(Hash m \<mapsto> (cp, now))"
    proof (cases Precommit)
      case True
      let ?s = "PrecommitWIP (channels st cp) ! ring_index (channels st cp)"
      have r: "PrecommitWIP (channels st2 cp) ! ring_index (channels st2 cp) = (if ?s = Some p then None else ?s)"
        unfolding forgetsD(5) [OF fg] by (rule forgetsD(7) [OF fg ring_index_less [OF ok(3)]])
      show ?thesis
      proof (cases "?s = Some p")
        case True
        then have "evicted Precommit cp st2 = None" "evicted Precommit cp st = Some (Hash m)"
          using r \<open>Precommit\<close> w(1,2) by (simp_all add: evicted_def hash_at_def)
        with st2(4) ok1(3) show ?thesis by simp
      next
        case False
        then have "evicted Precommit cp st2 = evicted Precommit cp st"
          using r \<open>Precommit\<close> st2(3) ok1(2) by (auto simp: evicted_def hash_at_def split: option.split)
        then show ?thesis using st2(4) ok1(3) by (cases "evicted Precommit cp st") (auto simp: fun_upd_twist)
      qed
    next
      case False
      then have "evicted Precommit cp st2 = evicted Precommit cp st" by (simp add: evicted_def forgetsD(1) [OF fg])
      then show ?thesis using st2(4) ok1(3) by (cases "evicted Precommit cp st") (auto simp: fun_upd_twist)
    qed
    with Some ct True have spec: "offer_spec conf now m cp Precommit st = (False, pending st')"
      using st'(3) by (simp add: offer_spec_def Let_def i_def)
    have "WIPinprogress conf now a m cp Precommit st = Some (False, st')"
      using byid w True st2(1) st'(1) by (subst WIPinprogress.simps) (simp add: Let_def i_def [symmetric] st1_def [symmetric])
    with spec st'(2) show ?thesis by simp
  qed
qed

subsection \<open>The commands keep the invariant\<close>

lemma NCclearwip_ok:
  assumes "wip_ok st"
  shows "\<exists>st'. NCclearwip cp st = Some st' \<and> wip_ok st' \<and> pending st' = (pending st)(CurrentMessageIDHash (channels st cp) := None)
    \<and> CurrentMessageIDHash (channels st' cp) = HashClear (CurrentMessageIDHash (channels st cp))"
proof -
  obtain old st1 where st1: "WIPbyhash (CurrentMessageIDHash (channels st cp)) st = Some old" "WIPfree old st = Some st1"
    "wip_ok st1" "pending st1 = (pending st)(CurrentMessageIDHash (channels st cp) := None)"
    "forgets old (channels st cp) (channels st1 cp)"
    using free_by_hash [OF assms, of "CurrentMessageIDHash (channels st cp)"] by metis
  define ch where "ch = channels st1 cp"
  define st' where "st' = set_channel cp (ch\<lparr>CurrentMessageIDHash := HashClear (CurrentMessageIDHash ch), ArtBeg := 0\<rparr>) st1"
  have "NCclearwip cp st = Some st'" using st1(1,2) by (simp add: NCclearwip_def st'_def ch_def Let_def)
  moreover have "wip_ok st'" unfolding st'_def ch_def by (rule wip_ok_current [OF st1(3)]) simp_all
  ultimately show ?thesis using st1(4) forgetsD(1) [OF st1(5)] by (simp add: st'_def ch_def)
qed

lemma precomfree_loop_ok:
  assumes "wip_ok st" "\<forall>i \<in> set is. i < PRECOMMITCACHESIZE"
  shows "\<exists>st'. precomfree_loop cp is st = Some st' \<and> wip_ok st' \<and> (\<forall>i \<in> set is. PrecommitWIP (channels st' cp) ! i = None)
    \<and> (\<forall>i < PRECOMMITCACHESIZE. PrecommitWIP (channels st cp) ! i = None \<longrightarrow> PrecommitWIP (channels st' cp) ! i = None)
    \<and> CurrentMessageIDHash (channels st' cp) = CurrentMessageIDHash (channels st cp)"
  using assms
proof (induction "is" arbitrary: st)
  case (Cons i "is")
  then have i: "i < PRECOMMITCACHESIZE" by simp
  define wp where "wp = PrecommitWIP (channels st cp) ! i"
  have "wip_heap st p \<noteq> None" if "wp = Some p" for p
    using cache_okD(1) [OF wip_okD(3) [OF Cons.prems(1)] i, of cp p] that by (auto simp: wp_def)
  from WIPfree_opt [OF Cons.prems(1) this] obtain st1 where st1: "WIPfree wp st = Some st1" "wip_ok st1"
    "forgets wp (channels st cp) (channels st1 cp)" by blast
  from Cons.IH [OF st1(2)] Cons.prems(2) obtain st' where st': "precomfree_loop cp is st1 = Some st'" "wip_ok st'"
    "\<forall>i \<in> set is. PrecommitWIP (channels st' cp) ! i = None"
    "\<forall>i < PRECOMMITCACHESIZE. PrecommitWIP (channels st1 cp) ! i = None \<longrightarrow> PrecommitWIP (channels st' cp) ! i = None"
    "CurrentMessageIDHash (channels st' cp) = CurrentMessageIDHash (channels st1 cp)" by auto
  have "PrecommitWIP (channels st1 cp) ! i = None" using forgetsD(7) [OF st1(3) i] by (simp add: wp_def)
  then have "\<forall>j \<in> set (i # is). PrecommitWIP (channels st' cp) ! j = None" using st'(3,4) i by simp
  moreover have "\<forall>j < PRECOMMITCACHESIZE. PrecommitWIP (channels st cp) ! j = None \<longrightarrow> PrecommitWIP (channels st' cp) ! j = None"
    using st'(4) forgetsD(7) [OF st1(3)] by simp
  moreover have "precomfree_loop cp (i # is) st = Some st'" using st1(1) st'(1) by (simp add: wp_def)
  ultimately show ?case using st'(2,5) forgetsD(1) [OF st1(3)] by auto
qed simp

lemma CHANclose_wip_ok:
  assumes "wip_ok st"
  shows "\<exists>st'. CHANclose_wip cp st = Some st' \<and> wip_ok st'"
proof -
  obtain st1 where "WIPprecomfree cp st = Some st1" "wip_ok st1"
    using precomfree_loop_ok [OF assms, of "[0..<PRECOMMITCACHESIZE]" cp] by (auto simp: WIPprecomfree_def)
  with NCclearwip_ok [of st1 cp] show ?thesis by (auto simp: CHANclose_wip_def)
qed

lemma NCcheck_offer_spec:
  assumes "wip_ok st" "wip_heap st a = None"
  shows "\<exists>st'. NCcheck_offer conf now a m cp st
      = Some (if fst (offer_spec conf now m cp True st) then Defer else SendIt, st') \<and> wip_ok st'
    \<and> pending st' = snd (offer_spec conf now m cp True st)"
proof -
  obtain st1 where "WIPinprogress conf now a m cp True st = Some (fst (offer_spec conf now m cp True st), st1)" "wip_ok st1"
    "pending st1 = snd (offer_spec conf now m cp True st)"
    using WIPinprogress_spec [OF assms, of True] by blast
  then show ?thesis by (intro exI [of _ st1]) (simp add: NCcheck_offer_def)
qed

lemma NCihave_offer_spec:
  assumes "wip_ok st" "wip_heap st a = None" "CurrentMessageIDHash (channels st cp) \<noteq> Hash m"
  shows "\<exists>st'. NCihave_offer conf now a m cp st
      = Some (if fst (offer_spec conf now m cp False st) then Defer else SendIt, st') \<and> wip_ok st'
    \<and> pending st' = snd (offer_spec conf now m cp False st)"
proof -
  obtain st1 where "WIPinprogress conf now a m cp False st = Some (fst (offer_spec conf now m cp False st), st1)" "wip_ok st1"
    "pending st1 = snd (offer_spec conf now m cp False st)"
    using WIPinprogress_spec [OF assms(1,2)] assms(3) by blast
  then show ?thesis
    using wip_ok_current [of st1 "(channels st1 cp)\<lparr>ArtBeg := now\<rparr>" cp]
    by (cases "fst (offer_spec conf now m cp False st)") (auto simp: NCihave_offer_def)
qed

lemma NCtakethis_wip_ok:
  assumes "wip_ok st" "wip_heap st a = None"
  shows "\<exists>st'. NCtakethis_wip now a m cp st = Some st' \<and> wip_ok st' \<and> CurrentMessageIDHash (channels st' cp) = Hash m
    \<and> pending st' = (case pending st (Hash m) of None \<Rightarrow> (pending st)(Hash m \<mapsto> (cp, now)) | Some _ \<Rightarrow> pending st)"
proof -
  define st1 where "st1 = set_channel cp ((channels st cp)\<lparr>ArtBeg := now\<rparr>) st"
  have ok1: "wip_ok st1" unfolding st1_def by (rule wip_ok_current [OF assms(1)]) simp_all
  note ok = wip_okD [OF ok1]
  have p1: "pending st1 = pending st" and h1: "wip_heap st1 a = None" using assms(2) by (simp_all add: st1_def)
  have "\<exists>p w st2. (case WIPbyid m st1 of None \<Rightarrow> None | Some r \<Rightarrow>
        Some (case r of None \<Rightarrow> WIPnew a now m cp st1 | Some p \<Rightarrow> (p, st1))) = Some (p, st2) \<and> wip_ok st2
      \<and> wip_heap st2 p = Some w \<and> MessageID w = Hash m
      \<and> pending st2 = (case pending st (Hash m) of None \<Rightarrow> (pending st)(Hash m \<mapsto> (cp, now)) | Some _ \<Rightarrow> pending st)"
  proof (cases "pending st (Hash m)")
    case None
    then have n: "pending st1 (Hash m) = None" by (simp add: p1)
    then have "WIPbyid m st1 = Some None"
      using WIPbyhash_finds(2) [OF ok(1,2)] pending_None [OF ok(1,2)] by (simp add: WIPbyid_WIPbyhash)
    with WIPnew_ok [OF ok1 h1 n refl, where now = now and cp = cp] None p1 show ?thesis
      by (cases "WIPnew a now m cp st1") auto
  next
    case (Some ct)
    then obtain p w where "wip_heap st1 p = Some w" "MessageID w = Hash m"
      using pending_Some [OF ok(1,2), of "Hash m" "fst ct" "snd ct"] p1 by auto
    moreover from this have "WIPbyid m st1 = Some (Some p)"
      using WIPbyhash_finds(1) [OF ok(1,2)] by (simp add: WIPbyid_WIPbyhash)
    ultimately show ?thesis using Some ok1 p1 by auto
  qed
  then obtain r p w st2 where r: "WIPbyid m st1 = Some r" "(case r of None \<Rightarrow> WIPnew a now m cp st1 | Some p \<Rightarrow> (p, st1)) = (p, st2)"
    "wip_ok st2" "wip_heap st2 p = Some w" "MessageID w = Hash m"
    "pending st2 = (case pending st (Hash m) of None \<Rightarrow> (pending st)(Hash m \<mapsto> (cp, now)) | Some _ \<Rightarrow> pending st)"
    by (auto split: option.splits)
  define st' where "st' = set_channel cp ((channels st2 cp)\<lparr>CurrentMessageIDHash := MessageID w\<rparr>) st2"
  have "NCtakethis_wip now a m cp st = Some st'"
    using r(1,2,4) by (simp add: NCtakethis_wip_def Let_def st1_def [symmetric] st'_def)
  moreover have "wip_ok st'" unfolding st'_def by (rule wip_ok_current [OF r(3)]) simp_all
  ultimately show ?thesis using r(5,6) by (simp add: st'_def)
qed

subsection \<open>Sequences of commands\<close>

text \<open>The events of the server that use the table; \<open>Done\<close> is the end of an article, however it ends.\<close>

datatype wip_event =
    Check int nat string nat
  | Ihave int nat string nat
  | Takethis int nat string nat
  | Done nat
  | Close nat

fun wip_step :: "wip_settings \<Rightarrow> wip_event \<Rightarrow> wip_state \<Rightarrow> wip_state option" where
  "wip_step conf (Check now a m cp) st = map_option snd (NCcheck_offer conf now a m cp st)"
| "wip_step conf (Ihave now a m cp) st = map_option snd (NCihave_offer conf now a m cp st)"
| "wip_step conf (Takethis now a m cp) st = NCtakethis_wip now a m cp st"
| "wip_step conf (Done cp) st = NCclearwip cp st"
| "wip_step conf (Close cp) st = CHANclose_wip cp st"

text \<open>The allocator returns a free address; a channel offers an article by \<^verbatim>\<open>IHAVE\<close> only between articles,
  when it does not have the same article as its current one.\<close>

fun wip_enabled :: "wip_event \<Rightarrow> wip_state \<Rightarrow> bool" where
  "wip_enabled (Check now a m cp) st \<longleftrightarrow> wip_heap st a = None"
| "wip_enabled (Ihave now a m cp) st \<longleftrightarrow> wip_heap st a = None \<and> CurrentMessageIDHash (channels st cp) \<noteq> Hash m"
| "wip_enabled (Takethis now a m cp) st \<longleftrightarrow> wip_heap st a = None"
| "wip_enabled (Done cp) st \<longleftrightarrow> True"
| "wip_enabled (Close cp) st \<longleftrightarrow> True"

definition new_channel :: "channel \<Rightarrow> bool" where
  "new_channel ch \<longleftrightarrow> PrecommitWIP ch = replicate PRECOMMITCACHESIZE None \<and> PrecommitiCachenext ch = 0"

inductive wip_reachable :: "wip_settings \<Rightarrow> wip_state \<Rightarrow> bool" for conf where
  start: "wip_heap st = (\<lambda>_. None) \<Longrightarrow> \<forall>c. new_channel (channels st c) \<Longrightarrow> wip_reachable conf (WIPsetup st)"
| step: "wip_reachable conf st \<Longrightarrow> wip_enabled ev st \<Longrightarrow> wip_step conf ev st = Some st' \<Longrightarrow> wip_reachable conf st'"

lemma wip_step_ok:
  assumes "wip_ok st" "wip_enabled ev st"
  shows "\<exists>st'. wip_step conf ev st = Some st' \<and> wip_ok st'"
proof (cases ev)
  case (Check now a m cp)
  with NCcheck_offer_spec [OF assms(1), of a conf now m cp] assms(2) show ?thesis by auto
next
  case (Ihave now a m cp)
  with NCihave_offer_spec [OF assms(1), of a cp m conf now] assms(2) show ?thesis by auto
next
  case (Takethis now a m cp)
  with NCtakethis_wip_ok [OF assms(1), of a now m cp] assms(2) show ?thesis by auto
next
  case (Done cp)
  with NCclearwip_ok [OF assms(1), of cp] show ?thesis by auto
next
  case (Close cp)
  with CHANclose_wip_ok [OF assms(1), of cp] show ?thesis by auto
qed

lemma wip_setup_ok:
  assumes "wip_heap st = (\<lambda>_. None)" "\<forall>c. new_channel (channels st c)"
  shows "wip_ok (WIPsetup st)"
  using assms by (auto simp: wip_ok_def table_ok_def unique_ok_def cache_ok_def entries_ok_def WIPsetup_def new_channel_def)

lemma wip_reachable_ok: "wip_reachable conf st \<Longrightarrow> wip_ok st"
proof (induction rule: wip_reachable.induct)
  case (step st ev st')
  with wip_step_ok [of st ev conf] show ?case by auto
qed (rule wip_setup_ok)

lemma wait_time_bounds: "wait_time ch \<le> 300" "0 \<le> wait_time ch"
  by (simp_all add: wait_time_def WIP_ARTMAX_def)

subsection \<open>The properties\<close>



text \<open>A channel that is free, an article it never sends, and another channel that asks for it.\<close>

definition idle_channel :: channel where
  "idle_channel = \<lparr>CurrentMessageIDHash = replicate 16 NUL, PrecommitWIP = replicate PRECOMMITCACHESIZE None,
     PrecommitiCachenext = 0, ArtBeg = 0, ArtMax = 0\<rparr>"

definition idle_server :: wip_state where
  "idle_server = \<lparr>wip_heap = (\<lambda>_. None), WIPtable = (\<lambda>_. []), channels = (\<lambda>_. idle_channel)\<rparr>"

lemma idle_server_reachable: "wip_reachable conf (WIPsetup idle_server)"
  by (rule wip_reachable.start) (simp_all add: idle_server_def new_channel_def idle_channel_def)

lemma idle_server_empty: "wip_heap (WIPsetup idle_server) p = None" "pending (WIPsetup idle_server) h = None"
  by (simp_all add: WIPsetup_def idle_server_def pending_def WIPbyhash_def)


lemma idle_server_offer:
  assumes "NCcheck_offer conf now a m cp (WIPsetup idle_server) = Some (r, st)" "b \<noteq> a"
  shows "wip_heap st b = None"
proof -
  have "0 < PRECOMMITCACHESIZE" by (simp add: PRECOMMITCACHESIZE_def)
  then have "ring_index idle_channel = 0" "PrecommitWIP idle_channel ! 0 = None"
    by (simp_all add: ring_index_def idle_channel_def)
  moreover have "WIPbyid m (WIPsetup idle_server) = Some None" by (simp add: WIPbyid_def Let_def WIPsetup_def)
  ultimately show ?thesis
    using assms
    by (auto simp: NCcheck_offer_def WIPinprogress.simps WIPnew_def Let_def WIPsetup_def idle_server_def add_precommit_def WIPfree_def set_channel_def)
qed


end
