(* ===== verification/Cnfs.thy ===== *)
theory Cnfs
  imports Wire Encode
begin

unbundle bit_operations_syntax

text \<open>
  The cyclic article storage (\<^verbatim>\<open>storage/cnfs/cnfs.c\<close>): articles are written one behind the other
  into a buffer of fixed size, which starts again at its beginning when it is full; a bit per block says where
  articles start, and the number of the cycle in a token tells an article from those that overwrote it.

  This is the storage manager of the server, with the buffers opened once for reading and writing
  (\<^verbatim>\<open>SMpreopen\<close> and \<^verbatim>\<open>SMopenmode\<close>), built without \<^verbatim>\<open>OLD_CNFS\<close>. The mapped pages of a buffer are its
  external header and the words of the bit field; what is stored behind them is a function from offsets to octets, of
  the file or device. File offsets are natural numbers; cycle numbers wrap as the machine words they are. The time, the
  settings, and where a failing write stops are arguments; \<open>None\<close> is an access outside
  the mapped bit field, or a loop that does not end.
\<close>

subsection \<open>Data\<close>

definition TOKEN_CNFS :: char where "TOKEN_CNFS = CHR 0x03"
definition CNFSMAXCYCBUFFNAME :: nat where "CNFSMAXCYCBUFFNAME = 8"
definition CNFS_HDR_PAGESIZE :: nat where "CNFS_HDR_PAGESIZE = 16384"
definition CNFS_BEFOREBITF :: nat where "CNFS_BEFOREBITF = 512"
definition CNFS_DFL_BLOCKSIZE :: nat where "CNFS_DFL_BLOCKSIZE = 4096"
definition CNFS_MAX_BLOCKSIZE :: nat where "CNFS_MAX_BLOCKSIZE = 16384"
definition CNFSMASIZ :: nat where "CNFSMASIZ = 8"
definition CNFSNASIZ :: nat where "CNFSNASIZ = 16"
definition CNFSPASIZ :: nat where "CNFSPASIZ = 64"
definition CNFSLASIZ :: nat where "CNFSLASIZ = 16"
definition METACYCBUFF_UPDATE :: nat where "METACYCBUFF_UPDATE = 25"

datatype smerr = SMERR_NOERROR | SMERR_INTERNAL | SMERR_UNDEFINED | SMERR_NOENT | SMERR_TOKENSHORT | SMERR_NOBODY
  | SMERR_UNINIT | SMERR_CONFIG | SMERR_BADHANDLE | SMERR_BADTOKEN | SMERR_NOMATCH
datatype retrtype = RETR_ALL | RETR_HEAD | RETR_BODY | RETR_STAT
datatype metamode = INTERLEAVE | SEQUENTIAL

record cycbuffextern =
  x_magic :: string
  x_name :: string
  x_path :: string
  x_lena :: string
  x_freea :: string
  x_updateda :: string
  x_cyclenuma :: string
  x_metaname :: string
  x_orderinmeta :: string
  x_currentbuff :: string
  x_blksza :: string

record cycbuff =
  cb_name :: string
  cb_path :: string
  cb_len :: nat
  cb_free :: nat
  cb_updated :: nat
  cb_cyclenum :: u32
  cb_magicver :: nat
  cb_bitfield :: "u64 list"
  cb_minartoffset :: nat
  cb_needflush :: bool
  cb_blksz :: nat
  cb_currentbuff :: bool
  cb_metaname :: string
  cb_order :: nat
  cb_head :: cycbuffextern
  cb_file :: "nat \<Rightarrow> char"

record metacycbuff =
  mc_members :: "nat list"
  mc_memb_next :: nat
  mc_write_count :: nat
  mc_metamode :: metamode

record cnfs =
  cycbufftab :: "cycbuff list"
  metacycbufftab :: "metacycbuff list"
  metaexprulestab :: "(char \<times> nat) list"
  metabuff_update :: nat

record cnfs_settings =
  maxartsize :: nat
  cnfscheckfudgesize :: nat

subsection \<open>Numbers as octets and in hexadecimal\<close>

text \<open>\<^verbatim>\<open>htonl\<close> and the octets of its result in memory, and \<^verbatim>\<open>ntohl\<close> of four octets.\<close>

definition be32 :: "nat \<Rightarrow> string" where
  "be32 n = map (\<lambda>k. char_of (n div 256 ^ k)) [3, 2, 1, 0]"

definition be32_value :: "string \<Rightarrow> nat" where
  "be32_value q = foldl (\<lambda>v c. 256 * v + byte c) 0 (take 4 q)"

definition hextbl :: string where "hextbl = ''0123456789abcdef''"

fun hex_number :: "nat \<Rightarrow> string" where
  "hex_number n = (if n < 16 then [hextbl ! n] else hex_number (n div 16) @ [hextbl ! (n mod 16)])"

declare hex_number.simps [simp del]

definition CNFSofft2hex :: "nat \<Rightarrow> bool \<Rightarrow> string" where
  "CNFSofft2hex offset leadingzeros =
     (let digits = hex_number offset;
          buf = (if leadingzeros then replicate (16 - length digits) CHR ''0'' @ digits else digits)
      in if \<not> leadingzeros then
           (let p = dropWhile (\<lambda>c. c = CHR ''0'') buf in if p \<noteq> [] then p else [CHR ''0''])
         else buf)"

definition isalnum :: "char \<Rightarrow> bool" where
  "isalnum c \<longleftrightarrow> isalpha c \<or> isdigit c"

fun hex2offt_loop :: "string \<Rightarrow> nat \<Rightarrow> nat" where
  "hex2offt_loop [] n = n"
| "hex2offt_loop (c # hex) n =
     (if CHR ''0'' \<le> c \<and> c \<le> CHR ''9'' \<or> CHR ''a'' \<le> c \<and> c \<le> CHR ''f'' \<or> CHR ''A'' \<le> c \<and> c \<le> CHR ''F'' then
        let diff = (if CHR ''0'' \<le> c \<and> c \<le> CHR ''9'' then byte CHR ''0''
                    else if CHR ''a'' \<le> c \<and> c \<le> CHR ''f'' then byte CHR ''a'' - 10 else byte CHR ''A'' - 10);
            n = n + (byte c - diff)
        in hex2offt_loop hex (if isalnum (peek hex) then n * 16 else n)
      else n)"

definition CNFShex2offt :: "string \<Rightarrow> nat" where
  "CNFShex2offt hex = hex2offt_loop hex 0"

subsection \<open>Tokens\<close>

definition CNFSMakeToken :: "string \<Rightarrow> nat \<Rightarrow> nat \<Rightarrow> u32 \<Rightarrow> char \<Rightarrow> token" where
  "CNFSMakeToken cycbuffname offset blksz cycnum class =
     \<lparr>tok_type = TOKEN_CNFS, tok_class = class,
      tok_octets = take CNFSMAXCYCBUFFNAME (cycbuffname @ replicate CNFSMAXCYCBUFFNAME NUL)
        @ be32 (offset div blksz) @ be32 (unat cycnum)\<rparr>"

definition CNFSBreakToken :: "token \<Rightarrow> string \<times> nat \<times> u32" where
  "CNFSBreakToken t =
     (takeWhile (\<lambda>c. c \<noteq> NUL) (take CNFSMAXCYCBUFFNAME (tok_octets t)),
      be32_value (drop 8 (tok_octets t)), word_of_nat (be32_value (drop 12 (tok_octets t))))"

fun name_index :: "string \<Rightarrow> cycbuff list \<Rightarrow> nat \<Rightarrow> nat option" where
  "name_index name [] i = None"
| "name_index name (cb # cbs) i = (if name = cb_name cb then Some i else name_index name cbs (i + 1))"

definition CNFSgetcycbuffbyname :: "string \<Rightarrow> cnfs \<Rightarrow> nat option" where
  "CNFSgetcycbuffbyname name st = name_index name (cycbufftab st) 0"

subsection \<open>The header of a buffer\<close>

definition strncpy :: "nat \<Rightarrow> string \<Rightarrow> string" where
  "strncpy n s = take n s @ replicate (n - length s) NUL"

text \<open>A field copied to a buffer that ends with a nul.\<close>

definition field_text :: "string \<Rightarrow> string" where
  "field_text f = takeWhile (\<lambda>c. c \<noteq> NUL) (take CNFSLASIZ f)"

definition CNFSflushhead :: "nat \<Rightarrow> cycbuff \<Rightarrow> bool \<times> cycbuff" where
  "CNFSflushhead now cb =
     (if \<not> cb_needflush cb then (True, cb)
      else if cb_magicver cb = 3 \<or> cb_magicver cb = 4 then
        (let cb = cb\<lparr>cb_updated := now\<rparr>;
             rpx = \<lparr>x_magic = strncpy CNFSMASIZ (if cb_magicver cb = 3 then ''CBuf3'' else ''CBuf4''),
                    x_name = strncpy CNFSNASIZ (cb_name cb),
                    x_path = strncpy CNFSPASIZ (cb_path cb),
                    x_lena = strncpy CNFSLASIZ (CNFSofft2hex (cb_len cb) True),
                    x_freea = strncpy CNFSLASIZ (CNFSofft2hex (cb_free cb) True),
                    x_updateda = strncpy CNFSLASIZ (CNFSofft2hex (cb_updated cb) True),
                    x_cyclenuma = strncpy CNFSLASIZ (CNFSofft2hex (unat (cb_cyclenum cb)) True),
                    x_metaname = strncpy CNFSNASIZ (cb_metaname cb),
                    x_orderinmeta = strncpy CNFSLASIZ (CNFSofft2hex (cb_order cb) True),
                    x_currentbuff = strncpy CNFSMASIZ (if cb_currentbuff cb then ''TRUE'' else ''FALSE''),
                    x_blksza = strncpy CNFSLASIZ (CNFSofft2hex (cb_blksz cb) True)\<rparr>
         in (True, cb\<lparr>cb_head := rpx, cb_needflush := False\<rparr>))
      else (False, cb))"

definition CNFSReadFreeAndCycle :: "cycbuff \<Rightarrow> cycbuff" where
  "CNFSReadFreeAndCycle cb =
     cb\<lparr>cb_free := CNFShex2offt (field_text (x_freea (cb_head cb))),
        cb_updated := CNFShex2offt (field_text (x_updateda (cb_head cb))),
        cb_cyclenum := word_of_nat (CNFShex2offt (field_text (x_cyclenuma (cb_head cb))))\<rparr>"

text \<open>The C string in a character array, and the comparison of at most \<open>n\<close> characters.\<close>

definition cstring :: "string \<Rightarrow> string" where
  "cstring f = takeWhile (\<lambda>c. c \<noteq> NUL) f"

definition same_prefix :: "nat \<Rightarrow> string \<Rightarrow> string \<Rightarrow> bool" where
  "same_prefix n a b \<longleftrightarrow> take n (cstring a) = take n (cstring b)"

text \<open>\<^verbatim>\<open>CNFSinit_disks\<close> for one buffer, whose file has been opened and mapped: \<open>None\<close> is failure.\<close>

definition read_head :: "cycbuff \<Rightarrow> cycbuff option" where
  "read_head cb =
     (let x = cb_head cb;
          cb = (if same_prefix 5 (x_magic x) ''CBuf3'' then cb\<lparr>cb_magicver := 3, cb_blksz := 512\<rparr> else cb\<lparr>cb_magicver := 0\<rparr>);
          cb = (if same_prefix 5 (x_magic x) ''CBuf4'' then cb\<lparr>cb_magicver := 4\<rparr> else cb)
      in if cb_magicver cb \<ge> 3 then
           if \<not> same_prefix CNFSNASIZ (x_name x) (cb_name cb) then None
           else if CNFShex2offt (field_text (x_lena x)) \<noteq> cb_len cb then None
           else
             let cb = CNFSReadFreeAndCycle cb;
                 cb = cb\<lparr>cb_metaname := cstring (x_metaname x), cb_order := CNFShex2offt (field_text (x_orderinmeta x)),
                         cb_currentbuff := same_prefix CNFSMASIZ (x_currentbuff x) ''TRUE''\<rparr>;
                 cb = (if cb_magicver cb > 3 then cb\<lparr>cb_blksz := CNFShex2offt (field_text (x_blksza x))\<rparr> else cb)
             in if cb_blksz cb < 512 \<or> cb_blksz cb > CNFS_MAX_BLOCKSIZE \<or> 2 * (cb_blksz cb div 2) \<noteq> cb_blksz cb then None
                else Some cb
         else Some (cb\<lparr>cb_magicver := 4, cb_updated := 0, cb_cyclenum := 1, cb_currentbuff := True, cb_order := 0,
                       cb_needflush := True, cb_blksz := CNFS_DFL_BLOCKSIZE, cb_free := 0, cb_metaname := []\<rparr>))"

definition min_art_offset :: "nat \<Rightarrow> nat \<Rightarrow> nat" where
  "min_art_offset len blksz =
     (let minartoffset = len div (blksz * 8) + CNFS_BEFOREBITF
      in minartoffset + (CNFS_HDR_PAGESIZE - (minartoffset AND (CNFS_HDR_PAGESIZE - 1))))"

definition CNFSinit_disks :: "nat \<Rightarrow> cycbuff \<Rightarrow> cycbuff option" where
  "CNFSinit_disks now cb =
     (case read_head cb of None \<Rightarrow> None
      | Some cb \<Rightarrow>
        let cb = cb\<lparr>cb_minartoffset := min_art_offset (cb_len cb) (cb_blksz cb)\<rparr>;
            cb = (if cb_free cb = 0 then cb\<lparr>cb_free := cb_minartoffset cb\<rparr> else cb)
        in if cb_needflush cb then
             (case CNFSflushhead now cb of (ok, cb) \<Rightarrow> if ok then Some cb else None)
           else Some cb)"

subsection \<open>The bit field\<close>

text \<open>The tables of masks, filled from the last place down; bit 0 is the leftmost of a word.\<close>

fun mask_loop :: "nat \<Rightarrow> u64 \<Rightarrow> u64 \<Rightarrow> u64 list \<times> u64 list \<Rightarrow> u64 list \<times> u64 list" where
  "mask_loop 0 on off arrays = arrays"
| "mask_loop (Suc i) on off (onarray, offarray) =
     (let on' = push_bit 1 on in mask_loop i on' (on' XOR -1) (on # onarray, off # offarray))"

definition onarray :: "u64 list" where "onarray = fst (mask_loop 64 1 (1 XOR -1) ([], []))"
definition offarray :: "u64 list" where "offarray = snd (mask_loop 64 1 (1 XOR -1) ([], []))"

definition CNFSUsedBlock :: "cycbuff \<Rightarrow> nat \<Rightarrow> bool \<Rightarrow> bool \<Rightarrow> (nat \<times> cycbuff) option" where
  "CNFSUsedBlock cb offset set_operation setbitvalue =
     (if offset < cb_minartoffset cb \<and> setbitvalue \<or> offset > cb_len cb then Some (0, cb)
      else if offset mod cb_blksz cb \<noteq> 0 then Some (0, cb)
      else
        let blocknum = offset div cb_blksz cb; longoffset = blocknum div 64; bitoffset = blocknum mod 64
        in if longoffset \<ge> length (cb_bitfield cb) then None
           else
             let bitlong = cb_bitfield cb ! longoffset
             in if set_operation then
                  let bitlong = (if setbitvalue then bitlong OR onarray ! bitoffset else bitlong AND offarray ! bitoffset)
                  in Some (2, cb\<lparr>cb_bitfield := (cb_bitfield cb)[longoffset := bitlong]\<rparr>)
                else Some (if bitlong AND onarray ! bitoffset \<noteq> 0 then 1 else 0, cb))"

text \<open>The loops that clear the bits of the blocks from \<open>middle\<close> up to \<open>limit\<close>.\<close>

function clear_blocks :: "nat \<Rightarrow> int \<Rightarrow> cycbuff \<Rightarrow> cycbuff option" where
  "clear_blocks middle limit cb =
     (if int middle < limit then
        if cb_blksz cb = 0 then None
        else (case CNFSUsedBlock cb middle True False of None \<Rightarrow> None
              | Some (_, cb') \<Rightarrow> clear_blocks (middle + cb_blksz cb) limit cb')
      else Some cb)"
  by pat_completeness auto
termination by (relation "measure (\<lambda>(m, l, cb). nat (l - int m))") auto

declare clear_blocks.simps [simp del]

definition CNFSArtMayBeHere :: "cycbuff \<Rightarrow> nat \<Rightarrow> u32 \<Rightarrow> nat option" where
  "CNFSArtMayBeHere cb offset cycnum =
     (if \<not> (cycnum = cb_cyclenum cb \<or> cycnum = cb_cyclenum cb - 1 \<and> offset \<ge> cb_free cb
            \<or> cycnum + 1 = 0 \<and> cb_cyclenum cb = 2 \<and> offset > cb_free cb) then Some 0
      else map_option fst (CNFSUsedBlock cb offset False False))"

subsection \<open>Storing\<close>

text \<open>The header of an article: \<^verbatim>\<open>long\<close>, \<^verbatim>\<open>time_t\<close>, a class and padding.\<close>

definition SIZEOF_CNFSARTHEADER :: nat where "SIZEOF_CNFSARTHEADER = 24"

definition art_header :: "nat \<Rightarrow> nat \<Rightarrow> char \<Rightarrow> string" where
  "art_header sz arrived class =
     be32 sz @ replicate 4 NUL @ be32 arrived @ replicate 4 NUL @ [class] @ replicate 7 NUL"

definition write_at :: "nat \<Rightarrow> string \<Rightarrow> cycbuff \<Rightarrow> cycbuff" where
  "write_at offset data cb =
     cb\<lparr>cb_file := (\<lambda>i. if offset \<le> i \<and> i < offset + length data then data ! (i - offset) else cb_file cb i)\<rparr>"

definition read_at :: "nat \<Rightarrow> nat \<Rightarrow> cycbuff \<Rightarrow> string" where
  "read_at offset n cb = map (cb_file cb) [offset..<offset + n]"

definition find_rule :: "char \<Rightarrow> cnfs \<Rightarrow> nat option" where
  "find_rule class st = map_option snd (find (\<lambda>r. fst r = class) (metaexprulestab st))"

definition align_free :: "cycbuff \<Rightarrow> cycbuff" where
  "align_free cb =
     (let tonextblock = cb_blksz cb - (cb_free cb AND (cb_blksz cb - 1))
      in if tonextblock \<noteq> cb_blksz cb then cb\<lparr>cb_free := cb_free cb + tonextblock\<rparr> else cb)"

definition room_left :: "cycbuff \<Rightarrow> nat" where
  "room_left cb =
     (if cb_len cb < cb_free cb + cb_blksz cb + 1 then 0 else cb_len cb - cb_free cb - cb_blksz cb - 1)"

definition next_cyclenum :: "cycbuff \<Rightarrow> u32" where
  "next_cyclenum cb =
     (let n = cb_cyclenum cb + 1
      in if cb_magicver cb \<le> 3 then (if n = 0 then n + 2 else n)
         else if n AND 0xFFFFFF = 0 then 2 else n)"

definition roll_over :: "cycbuff \<Rightarrow> cycbuff option" where
  "roll_over cb =
     map_option (\<lambda>cb. cb\<lparr>cb_free := cb_minartoffset cb, cb_cyclenum := next_cyclenum cb, cb_needflush := True\<rparr>)
       (clear_blocks (cb_free cb) (int (cb_len cb) - int (cb_blksz cb) - 1) cb)"

definition put_cycbuff :: "nat \<Rightarrow> cycbuff \<Rightarrow> cnfs \<Rightarrow> cnfs" where
  "put_cycbuff c cb st = st\<lparr>cycbufftab := (cycbufftab st)[c := cb]\<rparr>"

definition put_meta :: "nat \<Rightarrow> metacycbuff \<Rightarrow> cnfs \<Rightarrow> cnfs" where
  "put_meta m mc st = st\<lparr>metacycbufftab := (metacycbufftab st)[m := mc]\<rparr>"

definition next_member :: "metacycbuff \<Rightarrow> metacycbuff" where
  "next_member mc = mc\<lparr>mc_memb_next := (mc_memb_next mc + 1) mod length (mc_members mc)\<rparr>"

text \<open>Making room: the buffer that is written to, and the new state. \<open>len\<close> is the length of the article.\<close>

definition make_room :: "nat \<Rightarrow> nat \<Rightarrow> nat \<Rightarrow> cnfs \<Rightarrow> (nat \<times> cnfs) option" where
  "make_room now len m st =
     (let mc = metacycbufftab st ! m; c = mc_members mc ! mc_memb_next mc;
          cb = align_free (cycbufftab st ! c)
      in if len > room_left cb then
           (case roll_over cb of None \<Rightarrow> None
            | Some cb \<Rightarrow>
              (case mc_metamode mc of
                 INTERLEAVE \<Rightarrow> Some (c, put_cycbuff c (snd (CNFSflushhead now cb)) st)
               | SEQUENTIAL \<Rightarrow>
                   let st = put_cycbuff c (snd (CNFSflushhead now (cb\<lparr>cb_currentbuff := False\<rparr>))) st;
                       mc = next_member mc; d = mc_members mc ! mc_memb_next mc
                   in Some (d, put_meta m mc (put_cycbuff d
                        (snd (CNFSflushhead now ((cycbufftab st ! d)\<lparr>cb_currentbuff := True, cb_needflush := True\<rparr>))) st))))
         else Some (c, put_cycbuff c cb st))"

fun flush_members :: "nat \<Rightarrow> nat list \<Rightarrow> cnfs \<Rightarrow> cnfs" where
  "flush_members now [] st = st"
| "flush_members now (c # cs) st = flush_members now cs (put_cycbuff c (snd (CNFSflushhead now (cycbufftab st ! c))) st)"

text \<open>The header, the article and the padding to a full block.\<close>

definition stored_octets :: "nat \<Rightarrow> string \<Rightarrow> nat \<Rightarrow> char \<Rightarrow> string" where
  "stored_octets blksz art arrived class =
     (let octets = art_header (length art) arrived class @ art; totlen = length octets
      in if totlen AND (blksz - 1) \<noteq> 0 then octets @ replicate (blksz - (totlen AND (blksz - 1))) NUL else octets)"

text \<open>The bookkeeping behind a write, and the bits of the blocks that were written.\<close>

definition count_write :: "nat \<Rightarrow> nat \<Rightarrow> cnfs \<Rightarrow> cnfs" where
  "count_write now m st =
     (let mc = metacycbufftab st ! m;
          mc = (if mc_metamode mc = INTERLEAVE then next_member mc else mc);
          mc = mc\<lparr>mc_write_count := mc_write_count mc + 1\<rparr>;
          st = put_meta m mc st
      in if mc_write_count mc mod metabuff_update st = 0 then flush_members now (mc_members mc) st else st)"

definition mark_blocks :: "nat \<Rightarrow> nat \<Rightarrow> cnfs \<Rightarrow> cnfs option" where
  "mark_blocks c artoffset st =
     (case CNFSUsedBlock (cycbufftab st ! c) artoffset True True of
        None \<Rightarrow> None
      | Some (_, cb) \<Rightarrow>
          map_option (\<lambda>cb. put_cycbuff c cb st) (clear_blocks (artoffset + cb_blksz cb) (int (cb_free cb)) cb))"

text \<open>\<open>failed\<close>: the number of octets after which the write fails, if it does. A missing token is the empty one.\<close>

definition cnfs_store ::
    "string \<Rightarrow> nat \<Rightarrow> char \<Rightarrow> nat \<Rightarrow> nat option \<Rightarrow> cnfs \<Rightarrow> (token option \<times> cnfs) option" where
  "cnfs_store art arrived class now failed st =
     (case find_rule class st of None \<Rightarrow> Some (None, st)
      | Some m \<Rightarrow>
        (case make_room now (length art) m st of None \<Rightarrow> None
         | Some (c, st) \<Rightarrow>
           let cb = cycbufftab st ! c; artoffset = cb_free cb;
               data = stored_octets (cb_blksz cb) art (if arrived = 0 then now else arrived) class
           in case failed of
                Some k \<Rightarrow> Some (None, put_cycbuff c (write_at artoffset (take k data) cb) st)
              | None \<Rightarrow>
                let st = put_cycbuff c ((write_at artoffset data cb)\<lparr>cb_needflush := True, cb_free := artoffset + length data\<rparr>) st;
                    st = count_write now m st
                in map_option (\<lambda>st. (Some (CNFSMakeToken (cb_name cb) artoffset (cb_blksz cb) (cb_cyclenum cb) class), st))
                     (mark_blocks c artoffset st)))"

subsection \<open>Retrieving and cancelling\<close>

record arthandle =
  ah_data :: "string option"
  ah_len :: nat
  ah_arrived :: nat

text \<open>What is handed out of the article \<open>base\<close>; a missing body is an error.\<close>

definition cut_article :: "string \<Rightarrow> nat \<Rightarrow> retrtype \<Rightarrow> smerr + arthandle" where
  "cut_article base arrived amount =
     (if amount = RETR_ALL then Inr \<lparr>ah_data = Some base, ah_len = length base, ah_arrived = arrived\<rparr>
      else (case wire_findbody base of None \<Rightarrow> Inl SMERR_NOBODY
            | Some p \<Rightarrow>
              if amount = RETR_HEAD then Inr \<lparr>ah_data = Some (take (p - 2) base), ah_len = p - 2, ah_arrived = arrived\<rparr>
              else if amount = RETR_BODY then Inr \<lparr>ah_data = Some (drop p base), ah_len = length base - p, ah_arrived = arrived\<rparr>
              else Inl SMERR_UNDEFINED))"

definition cnfs_retrieve ::
    "cnfs_settings \<Rightarrow> token \<Rightarrow> retrtype \<Rightarrow> cnfs \<Rightarrow> ((smerr + arthandle) \<times> cnfs) option" where
  "cnfs_retrieve conf t amount st =
     (if tok_type t \<noteq> TOKEN_CNFS then Some (Inl SMERR_INTERNAL, st)
      else case CNFSBreakToken t of
        (name, block, cycnum) \<Rightarrow>
          (case CNFSgetcycbuffbyname name st of None \<Rightarrow> Some (Inl SMERR_NOENT, st)
           | Some c \<Rightarrow>
             let cb = cycbufftab st ! c; offset = block * cb_blksz cb
             in case CNFSArtMayBeHere cb offset cycnum of
                  None \<Rightarrow> None
                | Some here \<Rightarrow>
                  if here = 0 then Some (Inl SMERR_NOENT, st)
                  else if amount = RETR_STAT then Some (Inr \<lparr>ah_data = None, ah_len = 0, ah_arrived = 0\<rparr>, st)
                  else
                    let cah = read_at offset SIZEOF_CNFSARTHEADER cb; sz = be32_value cah;
                        far = (\<lambda>cb. int offset > int (cb_len cb) - int (cb_blksz cb) - int sz - 1);
                        cb = (if far cb then CNFSReadFreeAndCycle cb else cb);
                        st = put_cycbuff c cb st
                    in if far cb then Some (Inl SMERR_UNDEFINED, st)
                       else if cnfscheckfudgesize conf \<noteq> 0 \<and> maxartsize conf \<noteq> 0
                            \<and> sz > maxartsize conf + cnfscheckfudgesize conf then Some (Inl SMERR_UNDEFINED, st)
                       else Some (cut_article (read_at (offset + SIZEOF_CNFSARTHEADER) sz cb) (be32_value (drop 8 cah)) amount, st)))"

definition cnfs_cancel :: "token \<Rightarrow> cnfs \<Rightarrow> (smerr option \<times> cnfs) option" where
  "cnfs_cancel t st =
     (if tok_type t \<noteq> TOKEN_CNFS then Some (Some SMERR_INTERNAL, st)
      else case CNFSBreakToken t of
        (name, block, cycnum) \<Rightarrow>
          (case CNFSgetcycbuffbyname name st of None \<Rightarrow> Some (Some SMERR_INTERNAL, st)
           | Some c \<Rightarrow>
             let cb = cycbufftab st ! c; offset = block * cb_blksz cb
             in if \<not> (cycnum = cb_cyclenum cb \<or> cycnum = cb_cyclenum cb - 1 \<and> offset > cb_free cb
                       \<or> cycnum + 1 = 0 \<and> cb_cyclenum cb = 2 \<and> offset > cb_free cb) then Some (Some SMERR_NOENT, st)
                else (case CNFSUsedBlock cb offset False False of None \<Rightarrow> None
                      | Some (used, _) \<Rightarrow>
                        if used = 0 then Some (Some SMERR_NOENT, st)
                        else (case CNFSUsedBlock cb offset True False of None \<Rightarrow> None
                              | Some (_, cb) \<Rightarrow> Some (None, put_cycbuff c cb st)))))"

subsection \<open>The bit field, as a set of blocks\<close>

lemma xor_minus_1_eq: "w XOR -1 = NOT (w :: u64)"
  by (rule bit_eqI) (simp add: bit_xor_iff bit_not_iff)

lemma mask_loop_tables:
  "mask_loop n on (NOT on) (a, b) =
     (map (\<lambda>i. push_bit (n - 1 - i) on) [0..<n] @ a, map (\<lambda>i. NOT (push_bit (n - 1 - i) on)) [0..<n] @ b)"
proof (induction n arbitrary: on a b)
  case (Suc n)
  have "push_bit 1 on XOR -1 = NOT (push_bit 1 on)" by (simp add: xor_minus_1_eq)
  then have "mask_loop (Suc n) on (NOT on) (a, b) = mask_loop n (push_bit 1 on) (NOT (push_bit 1 on)) (on # a, NOT on # b)"
    by (simp only: mask_loop.simps Let_def)
  moreover have "push_bit (n - 1 - i) (push_bit 1 on) = push_bit (n - i) on" if "i < n" for i
  proof -
    have "push_bit (n - 1 - i) (push_bit 1 on) = push_bit (n - 1 - i + 1) on" by (rule push_bit_push_bit)
    also have "n - 1 - i + 1 = n - i" using that by simp
    finally show ?thesis .
  qed
  ultimately show ?case by (simp add: Suc.IH)
qed simp

lemma masks:
  assumes "b < 64"
  shows "onarray ! b = 2 ^ (63 - b)" "offarray ! b = NOT (2 ^ (63 - b))"
proof -
  have e: "(1::u64) XOR -1 = NOT 1" by (simp add: xor_minus_1_eq)
  show "onarray ! b = 2 ^ (63 - b)" "offarray ! b = NOT (2 ^ (63 - b))"
    unfolding onarray_def offarray_def e mask_loop_tables using assms by simp_all
qed

definition used :: "cycbuff \<Rightarrow> nat \<Rightarrow> bool" where
  "used cb p \<longleftrightarrow> p \<le> cb_len cb \<and> p mod cb_blksz cb = 0
     \<and> bit (cb_bitfield cb ! (p div cb_blksz cb div 64)) (63 - p div cb_blksz cb mod 64)"

text \<open>A block size that is a power of two, and a mapping that has room for all blocks.\<close>

definition geometry :: "cycbuff \<Rightarrow> bool" where
  "geometry cb \<longleftrightarrow> (\<exists>k. 9 \<le> k \<and> k \<le> 14 \<and> cb_blksz cb = 2 ^ k)
     \<and> cb_minartoffset cb = min_art_offset (cb_len cb) (cb_blksz cb)
     \<and> length (cb_bitfield cb) = (cb_minartoffset cb - CNFS_BEFOREBITF) div 8"

lemma min_art_offset_facts:
  "min_art_offset len blksz mod 16384 = 0" "len div (blksz * 8) + 512 < min_art_offset len blksz"
proof -
  define m where "m = len div (blksz * 8) + 512"
  have "m AND 16383 = m mod 16384"
    using take_bit_eq_mask [of 14 m] by (simp add: take_bit_eq_mod mask_eq_exp_minus_1)
  then have e: "min_art_offset len blksz = m + (16384 - m mod 16384)"
    by (simp add: min_art_offset_def m_def CNFS_BEFOREBITF_def CNFS_HDR_PAGESIZE_def Let_def)
  have "m mod 16384 < 16384" by simp
  then show "len div (blksz * 8) + 512 < min_art_offset len blksz" unfolding e m_def [symmetric] by linarith
  have "q * 16384 + r + (16384 - r) = (q + 1) * 16384" if "r < 16384" for q r :: nat using that by simp
  from this [OF \<open>m mod 16384 < 16384\<close>, of "m div 16384"] have "m + (16384 - m mod 16384) = (m div 16384 + 1) * 16384"
    unfolding div_mult_mod_eq .
  then show "min_art_offset len blksz mod 16384 = 0" unfolding e by simp
qed

lemma geometryD:
  assumes "geometry cb"
  shows "0 < cb_blksz cb" "512 \<le> cb_blksz cb" "cb_minartoffset cb mod cb_blksz cb = 0" "512 < cb_minartoffset cb"
    "p \<le> cb_len cb \<Longrightarrow> p div cb_blksz cb div 64 < length (cb_bitfield cb)"
    "n AND (cb_blksz cb - 1) = n mod cb_blksz cb"
proof -
  obtain k where k: "9 \<le> k" "k \<le> 14" "cb_blksz cb = 2 ^ k" using assms by (auto simp: geometry_def)
  have m: "cb_minartoffset cb = min_art_offset (cb_len cb) (cb_blksz cb)"
    and l: "length (cb_bitfield cb) = (cb_minartoffset cb - 512) div 8"
    using assms by (simp_all add: geometry_def CNFS_BEFOREBITF_def)
  note f = min_art_offset_facts [of "cb_len cb" "cb_blksz cb", folded m]
  show "0 < cb_blksz cb" using k by simp
  show "512 \<le> cb_blksz cb" using power_increasing [OF k(1), of "2::nat"] k(3) by simp
  have "(2::nat) ^ k dvd 2 ^ 14" by (rule le_imp_power_dvd [OF k(2)])
  moreover have "(2::nat) ^ 14 = 16384" by simp
  ultimately have "cb_blksz cb dvd 16384" using k(3) by metis
  moreover have "16384 dvd cb_minartoffset cb" using f(1) by (simp add: mod_eq_0_iff_dvd)
  ultimately show "cb_minartoffset cb mod cb_blksz cb = 0" by (meson dvd_imp_mod_0 dvd_trans)
  show "512 < cb_minartoffset cb" using f(2) by linarith
  show "n AND (cb_blksz cb - 1) = n mod cb_blksz cb"
    using take_bit_eq_mask [of k n] k(3) by (simp add: take_bit_eq_mod mask_eq_exp_minus_1)
  assume "p \<le> cb_len cb"
  then have "p div (cb_blksz cb * 8) \<le> cb_len cb div (cb_blksz cb * 8)" by (rule div_le_mono)
  with f(2) have "p div (cb_blksz cb * 8) < cb_minartoffset cb - 512" by linarith
  moreover have "8 dvd cb_minartoffset cb - 512"
    using dvd_trans [of 8 16384 "cb_minartoffset cb"] f(1) by (intro dvd_diff_nat) (auto simp: mod_eq_0_iff_dvd)
  ultimately have "p div (cb_blksz cb * 8) div 8 < (cb_minartoffset cb - 512) div 8"
    by (metis dvd_div_mult_self less_mult_imp_div_less)
  moreover have "p div cb_blksz cb div 64 = p div (cb_blksz cb * 8) div 8" by (simp add: div_mult2_eq)
  ultimately show "p div cb_blksz cb div 64 < length (cb_bitfield cb)" using l by simp
qed

lemma CNFSUsedBlock_read:
  assumes "geometry cb"
  shows "CNFSUsedBlock cb p False False = Some (of_bool (used cb p), cb)"
proof -
  have "b < 64 \<Longrightarrow> w AND 2 ^ (63 - b) \<noteq> 0 \<longleftrightarrow> bit w (63 - b)" for w :: u64 and b
    by (simp add: and_exp_eq_0_iff_not_bit)
  then show ?thesis
    using geometryD(5) [OF assms, of p] by (cases "p \<le> cb_len cb") (simp_all add: CNFSUsedBlock_def used_def Let_def masks)
qed

lemma used_simps [simp]:
  "used (cb\<lparr>cb_free := f\<rparr>) = used cb" "used (cb\<lparr>cb_cyclenum := c\<rparr>) = used cb" "used (cb\<lparr>cb_needflush := n\<rparr>) = used cb"
  "used (cb\<lparr>cb_head := h\<rparr>) = used cb" "used (cb\<lparr>cb_updated := u\<rparr>) = used cb" "used (cb\<lparr>cb_currentbuff := v\<rparr>) = used cb"
  "used (write_at p d cb) = used cb"
  by (simp_all add: fun_eq_iff used_def write_at_def)

lemma write_at_simps [simp]:
  "cb_len (write_at p d cb) = cb_len cb" "cb_free (write_at p d cb) = cb_free cb" "cb_blksz (write_at p d cb) = cb_blksz cb"
  "cb_minartoffset (write_at p d cb) = cb_minartoffset cb" "cb_cyclenum (write_at p d cb) = cb_cyclenum cb"
  "cb_magicver (write_at p d cb) = cb_magicver cb" "cb_name (write_at p d cb) = cb_name cb"
  by (simp_all add: write_at_def)

lemma geometry_simps [simp]:
  "geometry (cb\<lparr>cb_free := f\<rparr>) = geometry cb" "geometry (cb\<lparr>cb_cyclenum := c\<rparr>) = geometry cb"
  "geometry (cb\<lparr>cb_needflush := n\<rparr>) = geometry cb" "geometry (cb\<lparr>cb_head := h\<rparr>) = geometry cb"
  "geometry (cb\<lparr>cb_updated := u\<rparr>) = geometry cb" "geometry (cb\<lparr>cb_currentbuff := v\<rparr>) = geometry cb"
  "geometry (write_at p d cb) = geometry cb"
  by (simp_all add: geometry_def write_at_def)

text \<open>A buffer with another bit field: what setting and clearing bits leaves.\<close>

definition with_bits :: "cycbuff \<Rightarrow> (nat \<Rightarrow> bool) \<Rightarrow> cycbuff \<Rightarrow> bool" where
  "with_bits cb U cb' \<longleftrightarrow> geometry cb' \<and> used cb' = U \<and> (\<exists>bits. cb' = cb\<lparr>cb_bitfield := bits\<rparr>)"

lemma bit_set_clear:
  assumes "m < 64" "n < 64"
  shows "bit ((w :: u64) OR 2 ^ m) n \<longleftrightarrow> n = m \<or> bit w n" "bit (w AND NOT (2 ^ m)) n \<longleftrightarrow> n \<noteq> m \<and> bit w n"
  using assms by (auto simp: bit_simps)

lemma CNFSUsedBlock_set:
  assumes "geometry cb" "p \<le> cb_len cb" "p mod cb_blksz cb = 0" "v \<Longrightarrow> cb_minartoffset cb \<le> p"
  shows "\<exists>cb'. CNFSUsedBlock cb p True v = Some (2, cb') \<and> with_bits cb (\<lambda>q. if q = p then v else used cb q) cb'"
proof -
  let ?b = "cb_blksz cb"
  define i where "i = p div ?b div 64"
  define j where "j = p div ?b mod 64"
  define w where "w = (if v then cb_bitfield cb ! i OR onarray ! j else cb_bitfield cb ! i AND offarray ! j)"
  define cb' where "cb' = cb\<lparr>cb_bitfield := (cb_bitfield cb)[i := w]\<rparr>"
  have i: "i < length (cb_bitfield cb)" using geometryD(5) [OF assms(1,2)] by (simp add: i_def)
  have j: "j < 64" by (simp add: j_def)
  have w: "bit w n \<longleftrightarrow> (if n = 63 - j then v else bit (cb_bitfield cb ! i) n)" if "n < 64" for n
    using that j by (simp add: w_def masks bit_set_clear)
  have "used cb' q = (if q = p then v else used cb q)" for q
  proof (cases "q mod ?b = 0 \<and> q \<le> cb_len cb")
    case True
    define n where "n = 63 - q div ?b mod 64"
    show ?thesis
    proof (cases "q div ?b div 64 = i")
      case True
      have "q = p \<longleftrightarrow> n = 63 - j"
      proof
        assume "n = 63 - j"
        then have "q div ?b mod 64 = j" using j by (simp add: n_def)
        with True have "q div ?b = p div ?b" unfolding i_def j_def by (metis div_mult_mod_eq)
        with assms(3) \<open>q mod ?b = 0 \<and> q \<le> cb_len cb\<close> show "q = p" by (metis div_mult_mod_eq)
      qed (simp add: n_def j_def)
      then show ?thesis
        using True \<open>q mod ?b = 0 \<and> q \<le> cb_len cb\<close> i w [of n] by (auto simp: used_def cb'_def n_def)
    next
      case False
      then have "q \<noteq> p" by (auto simp: i_def)
      with False show ?thesis by (simp add: used_def cb'_def)
    qed
  next
    case False
    with assms(2,3) show ?thesis by (auto simp: used_def cb'_def)
  qed
  then have u: "used cb' = (\<lambda>q. if q = p then v else used cb q)" by (simp add: fun_eq_iff)
  have "CNFSUsedBlock cb p True v = Some (2, cb')"
    using assms(2-4) i by (auto simp: CNFSUsedBlock_def Let_def i_def j_def w_def cb'_def)
  moreover have "geometry cb'" using assms(1) by (simp add: geometry_def cb'_def)
  ultimately show ?thesis using u unfolding with_bits_def cb'_def by blast
qed

lemma CNFSUsedBlock_clear:
  assumes "geometry cb"
  shows "\<exists>r cb'. CNFSUsedBlock cb p True False = Some (r, cb') \<and> with_bits cb (\<lambda>q. q \<noteq> p \<and> used cb q) cb'"
proof (cases "p \<le> cb_len cb \<and> p mod cb_blksz cb = 0")
  case True
  with CNFSUsedBlock_set [OF assms, of p False] show ?thesis by (auto simp: with_bits_def if_distrib cong: if_cong)
next
  case False
  then have "CNFSUsedBlock cb p True False = Some (0, cb)" by (auto simp: CNFSUsedBlock_def)
  moreover have "used cb = (\<lambda>q. q \<noteq> p \<and> used cb q)" using False by (auto simp: used_def)
  ultimately show ?thesis using assms 
    by (intro exI [of _ 0] exI [of _ cb]) (simp add: with_bits_def exI [of _ "cb_bitfield cb"])
qed

lemma mod_diff_eq_nat0: "(q::nat) mod b = 0 \<Longrightarrow> m mod b = 0 \<Longrightarrow> (q - m) mod b = 0"
  by (simp add: mod_eq_0_iff_dvd dvd_diff_nat)

lemma with_bits_trans:
  "with_bits cb U cb1 \<Longrightarrow> with_bits cb1 U' cb2 \<Longrightarrow> with_bits cb U' cb2"
  by (auto simp: with_bits_def)

lemma with_bitsD:
  assumes "with_bits cb U cb'"
  shows "geometry cb'" "used cb' = U" "cb_free cb' = cb_free cb" "cb_len cb' = cb_len cb" "cb_blksz cb' = cb_blksz cb"
    "cb_minartoffset cb' = cb_minartoffset cb" "cb_cyclenum cb' = cb_cyclenum cb" "cb_magicver cb' = cb_magicver cb"
    "cb_name cb' = cb_name cb" "cb_file cb' = cb_file cb" "cb_needflush cb' = cb_needflush cb"
  using assms by (auto simp: with_bits_def)

lemma clear_blocks_bits:
  assumes "geometry cb" "m mod cb_blksz cb = 0"
  shows "\<exists>cb'. clear_blocks m lim cb = Some cb' \<and> with_bits cb (\<lambda>q. used cb q \<and> \<not> (m \<le> q \<and> int q < lim)) cb'"
  using assms
proof (induction m lim cb rule: clear_blocks.induct)
  case (1 m lim cb)
  let ?b = "cb_blksz cb"
  have b: "?b \<noteq> 0" using geometryD(1) [OF 1(2)] by simp
  show ?case
  proof (cases "int m < lim")
    case True
    obtain r cb1 where cb1: "CNFSUsedBlock cb m True False = Some (r, cb1)" "with_bits cb (\<lambda>q. q \<noteq> m \<and> used cb q) cb1"
      using CNFSUsedBlock_clear [OF 1(2)] by blast
    note w = with_bitsD [OF cb1(2)]
    have "(m + ?b) mod cb_blksz cb1 = 0" using 1(3) w(5) by simp
    from 1(1) [OF True b cb1(1) refl w(1) this] obtain cb2 where
      cb2: "clear_blocks (m + ?b) lim cb1 = Some cb2"
        "with_bits cb1 (\<lambda>q. used cb1 q \<and> \<not> (m + ?b \<le> q \<and> int q < lim)) cb2" by blast
    have "(\<lambda>q. used cb1 q \<and> \<not> (m + ?b \<le> q \<and> int q < lim)) = (\<lambda>q. used cb q \<and> \<not> (m \<le> q \<and> int q < lim))"
    proof
      fix q
      have "q = m \<or> m + ?b \<le> q" if "used cb q" "m \<le> q"
      proof -
        have "(q - m) mod ?b = 0" using that 1(3) by (simp add: used_def mod_diff_eq_nat0)
        then obtain k where "q - m = k * ?b" by (metis add.right_neutral div_mult_mod_eq)
        with that(2) show ?thesis by (cases k) auto
      qed
      then show "(used cb1 q \<and> \<not> (m + ?b \<le> q \<and> int q < lim)) = (used cb q \<and> \<not> (m \<le> q \<and> int q < lim))"
        using True by (auto simp: w(2))
    qed
    with cb2 have "with_bits cb (\<lambda>q. used cb q \<and> \<not> (m \<le> q \<and> int q < lim)) cb2"
      using with_bits_trans [OF cb1(2)] by simp
    moreover have "clear_blocks m lim cb = Some cb2"
      using True b cb1(1) cb2(1) by (subst clear_blocks.simps) simp
    ultimately show ?thesis by blast
  next
    case False
    then have "clear_blocks m lim cb = Some cb" by (subst clear_blocks.simps) simp
    moreover have "(\<lambda>q. used cb q \<and> \<not> (m \<le> q \<and> int q < lim)) = used cb" using False by auto
    ultimately show ?thesis
      using 1(2) by (intro exI [of _ cb]) (simp add: with_bits_def exI [of _ "cb_bitfield cb"])
  qed
qed

subsection \<open>Octets on the device\<close>

lemma length_be32 [simp]: "length (be32 n) = 4"
  by (simp add: be32_def)

lemma be32_value_be32: "be32_value (be32 n @ r) = n mod 2 ^ 32"
proof -
  have "n mod 2 ^ 32 = n mod (256 * (256 * (256 * 256)))" by simp
  also have "\<dots> = 256 * (256 * (256 * (n div 256 div 256 div 256 mod 256) + n div 256 div 256 mod 256) + n div 256 mod 256) + n mod 256"
    by (simp only: mod_mult2_eq)
  finally show ?thesis by (simp add: be32_value_def be32_def byte_def div_mult2_eq [symmetric] numeral_3_eq_3)
qed

lemma length_art_header [simp]: "length (art_header sz arrived class) = SIZEOF_CNFSARTHEADER"
  by (simp add: art_header_def SIZEOF_CNFSARTHEADER_def)

lemma art_header_fields:
  "be32_value (art_header sz arrived class) = sz mod 2 ^ 32"
  "be32_value (drop 8 (art_header sz arrived class)) = arrived mod 2 ^ 32"
  by (simp_all add: art_header_def be32_value_be32)

lemma length_read_at [simp]: "length (read_at p n cb) = n"
  by (simp add: read_at_def)

lemma read_at_append: "read_at p (n + k) cb = read_at p n cb @ read_at (p + n) k cb"
  by (simp add: read_at_def add.assoc) (metis map_append upt_add_eq_append le_add1 add.assoc)

lemma read_write_same: "n \<le> length d \<Longrightarrow> read_at p n (write_at p d cb) = take n d"
  by (rule nth_equalityI) (simp_all add: read_at_def write_at_def)

lemma read_write_other: "p + n \<le> q \<or> q + length d \<le> p \<Longrightarrow> read_at p n (write_at q d cb) = read_at p n cb"
  by (auto simp: read_at_def write_at_def)

lemma read_at_simps [simp]:
  "read_at p n (cb\<lparr>cb_free := f\<rparr>) = read_at p n cb" "read_at p n (cb\<lparr>cb_cyclenum := c\<rparr>) = read_at p n cb"
  "read_at p n (cb\<lparr>cb_needflush := v\<rparr>) = read_at p n cb"
  by (simp_all add: read_at_def)

definition span :: "nat \<Rightarrow> string \<Rightarrow> nat" where
  "span blksz art = length (stored_octets blksz art 0 NUL)"

lemma stored_octets_facts:
  assumes "geometry cb"
  shows "length (stored_octets (cb_blksz cb) art arrived class) = span (cb_blksz cb) art"
    "span (cb_blksz cb) art mod cb_blksz cb = 0"
    "SIZEOF_CNFSARTHEADER + length art \<le> span (cb_blksz cb) art"
    "take (SIZEOF_CNFSARTHEADER + length art) (stored_octets (cb_blksz cb) art arrived class) = art_header (length art) arrived class @ art"
proof -
  let ?b = "cb_blksz cb"
  let ?n = "SIZEOF_CNFSARTHEADER + length art"
  note a = geometryD(6) [OF assms] and b = geometryD(1) [OF assms]
  have oc: "stored_octets ?b art arrived cl = (art_header (length art) arrived cl @ art)
      @ replicate (if ?n mod ?b \<noteq> 0 then ?b - ?n mod ?b else 0) NUL" for arrived cl
    by (simp add: stored_octets_def Let_def a [unfolded One_nat_def])
  have s: "span ?b art = ?n + (if ?n mod ?b \<noteq> 0 then ?b - ?n mod ?b else 0)" by (simp add: span_def oc)
  show "length (stored_octets ?b art arrived class) = span ?b art" by (simp add: s oc)
  show "?n \<le> span ?b art" by (simp add: s)
  show "take ?n (stored_octets ?b art arrived class) = art_header (length art) arrived class @ art" by (simp add: oc)
  show "span ?b art mod ?b = 0"
  proof (cases "?n mod ?b = 0")
    case False
    have "?n mod ?b < ?b" using b by simp
    then have "?n + (?b - ?n mod ?b) = (?n div ?b) * ?b + ?b"
      using div_mult_mod_eq [of ?n ?b] by linarith
    with False show ?thesis by (simp add: s)
  qed (simp add: s)
qed

subsection \<open>The invariant of a buffer\<close>

text \<open>The set \<open>I\<close> has every place and cycle that was given to an article. A bit that is set is the place of the
  article it was given to in the cycle that the place belongs to, the present one below \<open>cb_free\<close> and
  the one before from there on, and the article is still there.\<close>

type_synonym stored = "string \<times> nat \<times> char"

definition cyc_of :: "cycbuff \<Rightarrow> nat \<Rightarrow> u32" where
  "cyc_of cb p = (if p < cb_free cb then cb_cyclenum cb else cb_cyclenum cb - 1)"

fun holds :: "cycbuff \<Rightarrow> nat \<Rightarrow> stored \<Rightarrow> bool" where
  "holds cb p (art, arrived, class) \<longleftrightarrow> art \<noteq> [] \<and> length art < 2 ^ 32 \<and> p + cb_blksz cb + length art + 1 \<le> cb_len cb
     \<and> (p < cb_free cb \<longrightarrow> p + span (cb_blksz cb) art \<le> cb_free cb)
     \<and> read_at p (SIZEOF_CNFSARTHEADER + length art) cb = art_header (length art) arrived class @ art"

definition given :: "cycbuff \<Rightarrow> (nat \<times> u32 \<times> stored) set \<Rightarrow> bool" where
  "given cb I \<longleftrightarrow> (\<forall>p c a. (p, c, a) \<in> I \<longrightarrow> unat c \<le> unat (cb_cyclenum cb) \<and> (c = cb_cyclenum cb \<longrightarrow> p < cb_free cb)
     \<and> cb_minartoffset cb \<le> p \<and> p mod cb_blksz cb = 0 \<and> p div cb_blksz cb < 2 ^ 32)
   \<and> (\<forall>p c a b. (p, c, a) \<in> I \<longrightarrow> (p, c, b) \<in> I \<longrightarrow> a = b)"

definition cyc_ok :: "cycbuff \<Rightarrow> (nat \<times> u32 \<times> stored) set \<Rightarrow> bool" where
  "cyc_ok cb I \<longleftrightarrow> geometry cb \<and> (cb_magicver cb = 3 \<or> cb_magicver cb = 4) \<and> cb_free cb mod cb_blksz cb = 0
     \<and> cb_minartoffset cb \<le> cb_free cb \<and> given cb I
     \<and> (\<forall>p. used cb p \<longrightarrow> (\<exists>a. (p, cyc_of cb p, a) \<in> I \<and> holds cb p a))"

lemma align_free_aligned: "cyc_ok cb I \<Longrightarrow> align_free cb = cb"
  using geometryD(6) [of cb "cb_free cb"] by (simp add: cyc_ok_def align_free_def Let_def)

lemma next_cyclenum_plain:
  assumes "unat (cb_cyclenum cb) < 2 ^ 24 - 1"
  shows "next_cyclenum cb = cb_cyclenum cb + 1" "unat (cb_cyclenum cb + 1) = unat (cb_cyclenum cb) + 1"
proof -
  let ?n = "cb_cyclenum cb + 1"
  show u: "unat ?n = unat (cb_cyclenum cb) + 1"
    using assms by (subst unat_add_lem [THEN iffD1]) simp_all
  have "?n AND 0xFFFFFF = take_bit 24 ?n" by (simp add: take_bit_eq_mask mask_eq_exp_minus_1)
  also have "\<dots> = ?n"
  proof -
    have "unat (take_bit 24 ?n) = unat ?n" using u assms by (simp add: unsigned_take_bit_eq take_bit_nat_eq_self)
    then show ?thesis by (simp only: word_unat_eq_iff)
  qed
  finally have "?n AND 0xFFFFFF = ?n" .
  moreover have "?n \<noteq> 0" using u by (metis add_is_0 unat_0 zero_neq_one)
  ultimately show "next_cyclenum cb = ?n" by (simp add: next_cyclenum_def Let_def)
qed

text \<open>Flushing changes the header only.\<close>

definition same_core :: "cycbuff \<Rightarrow> cycbuff \<Rightarrow> bool" where
  "same_core cb cb' \<longleftrightarrow> cb_bitfield cb' = cb_bitfield cb \<and> cb_free cb' = cb_free cb \<and> cb_len cb' = cb_len cb
     \<and> cb_blksz cb' = cb_blksz cb \<and> cb_minartoffset cb' = cb_minartoffset cb \<and> cb_cyclenum cb' = cb_cyclenum cb
     \<and> cb_magicver cb' = cb_magicver cb \<and> cb_name cb' = cb_name cb \<and> cb_file cb' = cb_file cb"

lemma same_coreD:
  assumes "same_core cb cb'"
  shows "geometry cb' = geometry cb" "used cb' = used cb" "cb_free cb' = cb_free cb" "cb_len cb' = cb_len cb"
    "cb_blksz cb' = cb_blksz cb" "cb_minartoffset cb' = cb_minartoffset cb" "cb_cyclenum cb' = cb_cyclenum cb"
    "cb_magicver cb' = cb_magicver cb" "cb_name cb' = cb_name cb" "cb_file cb' = cb_file cb"
  using assms by (simp_all add: same_core_def geometry_def used_def fun_eq_iff)

lemma same_core_refl [simp]: "same_core cb cb"
  by (simp add: same_core_def)

lemma same_core_flush: "same_core cb (snd (CNFSflushhead now cb))"
  by (simp add: same_core_def CNFSflushhead_def Let_def)

lemma same_core_current: "same_core cb (cb\<lparr>cb_currentbuff := v\<rparr>)" "same_core cb (cb\<lparr>cb_currentbuff := v, cb_needflush := n\<rparr>)"
  by (simp_all add: same_core_def)

lemma same_core_trans: "same_core a b \<Longrightarrow> same_core b c \<Longrightarrow> same_core a c"
  by (simp add: same_core_def)

lemma holds_same:
  assumes "cb_file cb' = cb_file cb" "cb_len cb' = cb_len cb" "cb_blksz cb' = cb_blksz cb" "cb_free cb' = cb_free cb"
  shows "holds cb' p a = holds cb p a"
  using assms by (cases a) (simp add: read_at_def)

lemma cyc_ok_core:
  assumes "same_core cb cb'"
  shows "cyc_ok cb' I = cyc_ok cb I"
  using same_coreD [OF assms] by (simp add: cyc_ok_def given_def cyc_of_def holds_same [of cb' cb])

lemma roll_over_ok:
  assumes "cyc_ok cb I" "unat (cb_cyclenum cb) < 2 ^ 24 - 1"
  shows "\<exists>cb'. roll_over cb = Some cb' \<and> cyc_ok cb' I \<and> cb_free cb' = cb_minartoffset cb \<and> cb_cyclenum cb' = cb_cyclenum cb + 1
    \<and> cb_len cb' = cb_len cb \<and> cb_blksz cb' = cb_blksz cb \<and> cb_name cb' = cb_name cb \<and> cb_minartoffset cb' = cb_minartoffset cb"
proof -
  let ?lim = "int (cb_len cb) - int (cb_blksz cb) - 1"
  have ok: "geometry cb" "cb_magicver cb = 3 \<or> cb_magicver cb = 4" "cb_free cb mod cb_blksz cb = 0"
    "cb_minartoffset cb \<le> cb_free cb" "given cb I" "\<And>p. used cb p \<Longrightarrow> \<exists>a. (p, cyc_of cb p, a) \<in> I \<and> holds cb p a"
    using assms(1) by (auto simp: cyc_ok_def)
  obtain cb1 where cb1: "clear_blocks (cb_free cb) ?lim cb = Some cb1"
    "with_bits cb (\<lambda>q. used cb q \<and> \<not> (cb_free cb \<le> q \<and> int q < ?lim)) cb1"
    using clear_blocks_bits [OF ok(1,3)] by blast
  note w = with_bitsD [OF cb1(2)]
  note n = next_cyclenum_plain [OF assms(2)]
  define cb' where "cb' = cb1\<lparr>cb_free := cb_minartoffset cb, cb_cyclenum := cb_cyclenum cb + 1, cb_needflush := True\<rparr>"
  have nc: "next_cyclenum cb1 = cb_cyclenum cb + 1"
    using n(1) by (simp add: next_cyclenum_def w Let_def)
  have roll: "roll_over cb = Some cb'" using cb1(1) nc w(6) by (simp add: roll_over_def cb'_def)
  have f: "cb_free cb' = cb_minartoffset cb" "cb_cyclenum cb' = cb_cyclenum cb + 1" "cb_len cb' = cb_len cb"
    "cb_blksz cb' = cb_blksz cb" "cb_minartoffset cb' = cb_minartoffset cb" "cb_magicver cb' = cb_magicver cb"
    "cb_file cb' = cb_file cb" "geometry cb'" "used cb' = (\<lambda>q. used cb q \<and> \<not> (cb_free cb \<le> q \<and> int q < ?lim))" "cb_name cb' = cb_name cb"
    using w by (simp_all add: cb'_def)
  have "\<exists>a. (p, cyc_of cb' p, a) \<in> I \<and> holds cb' p a" if "used cb' p" for p
  proof -
    from that have u: "used cb p" "\<not> (cb_free cb \<le> p \<and> int p < ?lim)" by (simp_all add: f)
    obtain a where a: "(p, cyc_of cb p, a) \<in> I" "holds cb p a" using ok(6) [OF u(1)] by blast
    obtain art arr cl where t: "a = (art, arr, cl)" by (cases a)
    have "art \<noteq> []" "p + cb_blksz cb + length art + 1 \<le> cb_len cb" using a(2) t by auto
    then have "int p < ?lim" by (cases art) auto
    with u(2) have below: "p < cb_free cb" by simp
    have "cb_minartoffset cb \<le> p" using ok(5) a(1) unfolding given_def by blast
    then have "cyc_of cb' p = cyc_of cb p" using below by (simp add: cyc_of_def f)
    moreover have "holds cb' p a"
      using a(2) t \<open>cb_minartoffset cb \<le> p\<close> by (simp add: f read_at_def)
    ultimately show ?thesis using a(1) by metis
  qed
  moreover have "given cb' I"
  proof -
    have "unat c \<le> unat (cb_cyclenum cb + 1) \<and> c \<noteq> cb_cyclenum cb + 1" if "unat c \<le> unat (cb_cyclenum cb)" for c
      using that n(2) by auto
    with ok(5) show ?thesis unfolding given_def f by blast
  qed
  ultimately have "cyc_ok cb' I"
    using ok(2) f geometryD(3) [OF ok(1)] by (simp add: cyc_ok_def)
  with roll f show ?thesis by blast
qed

lemma store_bits_ok:
  assumes "cyc_ok cb I" "art \<noteq> []" "length art < 2 ^ 32" "length art \<le> room_left cb" "cb_free cb div cb_blksz cb < 2 ^ 32"
    and data_def: "data = stored_octets (cb_blksz cb) art arrived cl"
    and core: "same_core ((write_at (cb_free cb) data cb)\<lparr>cb_needflush := True, cb_free := cb_free cb + length data\<rparr>) cb1"
  shows "\<exists>r cb2 cb3. CNFSUsedBlock cb1 (cb_free cb) True True = Some (r, cb2)
    \<and> clear_blocks (cb_free cb + cb_blksz cb2) (int (cb_free cb2)) cb2 = Some cb3
    \<and> cb_name cb2 = cb_name cb \<and> cb_blksz cb2 = cb_blksz cb \<and> cb_cyclenum cb2 = cb_cyclenum cb
    \<and> cb_len cb3 = cb_len cb \<and> cb_blksz cb3 = cb_blksz cb \<and> cb_name cb3 = cb_name cb \<and> cb_minartoffset cb3 = cb_minartoffset cb
    \<and> cb_cyclenum cb3 = cb_cyclenum cb \<and> cb_name cb3 = cb_name cb2 \<and> cb_blksz cb3 = cb_blksz cb2
    \<and> cyc_ok cb3 (insert (cb_free cb, cb_cyclenum cb, (art, arrived, cl)) I) \<and> used cb3 (cb_free cb)"
proof -
  define p where "p = cb_free cb"
  define e where "e = p + length data"
  have ok: "geometry cb" "cb_magicver cb = 3 \<or> cb_magicver cb = 4" "p mod cb_blksz cb = 0"
    "cb_minartoffset cb \<le> p" "given cb I" "\<And>q. used cb q \<Longrightarrow> \<exists>a. (q, cyc_of cb q, a) \<in> I \<and> holds cb q a"
    using assms(1) by (auto simp: cyc_ok_def p_def)
  note so = stored_octets_facts(1) [OF ok(1), of art arrived cl, folded data_def] stored_octets_facts(2,3) [OF ok(1), of art]
    stored_octets_facts(4) [OF ok(1), of art arrived cl, folded data_def]
  have room: "p + cb_blksz cb + length art + 1 \<le> cb_len cb"
    using assms(2,4) by (cases art) (auto simp: room_left_def p_def split: if_splits)
  have e: "e mod cb_blksz cb = 0" "p < e" "SIZEOF_CNFSARTHEADER + length art \<le> length data"
    using ok(3) so(1-3) mod_add_eq [of p "cb_blksz cb" "length data"] by (auto simp: e_def SIZEOF_CNFSARTHEADER_def)
  have c1: "geometry cb1" "used cb1 = used cb" "cb_free cb1 = e" "cb_len cb1 = cb_len cb" "cb_blksz cb1 = cb_blksz cb"
    "cb_minartoffset cb1 = cb_minartoffset cb" "cb_cyclenum cb1 = cb_cyclenum cb" "cb_magicver cb1 = cb_magicver cb"
    "cb_name cb1 = cb_name cb" "cb_file cb1 = cb_file (write_at p data cb)"
    using same_coreD [OF core] ok(1) by (simp_all add: e_def p_def)
  obtain cb2 where cb2: "CNFSUsedBlock cb1 p True True = Some (2, cb2)" "with_bits cb1 (\<lambda>q. if q = p then True else used cb q) cb2"
    using CNFSUsedBlock_set [OF c1(1), of p True] room ok(3,4) c1(4-6) unfolding c1(2) by auto
  note w2 = with_bitsD [OF cb2(2)]
  have "(p + cb_blksz cb2) mod cb_blksz cb2 = 0" using ok(3) w2(5) c1(5) by simp
  from clear_blocks_bits [OF w2(1) this, of "int (cb_free cb2)"] obtain cb3 where
    cb3: "clear_blocks (p + cb_blksz cb2) (int (cb_free cb2)) cb2 = Some cb3"
      "with_bits cb2 (\<lambda>q. used cb2 q \<and> \<not> (p + cb_blksz cb2 \<le> q \<and> int q < int (cb_free cb2))) cb3" by blast
  note w3 = with_bitsD [OF cb3(2)]
  have f: "geometry cb3" "cb_free cb3 = e" "cb_len cb3 = cb_len cb" "cb_blksz cb3 = cb_blksz cb"
    "cb_minartoffset cb3 = cb_minartoffset cb" "cb_cyclenum cb3 = cb_cyclenum cb" "cb_magicver cb3 = cb_magicver cb"
    "cb_name cb3 = cb_name cb" "cb_file cb3 = cb_file (write_at p data cb)"
    using w3 w2 c1 by simp_all
  have u3: "used cb3 q \<longleftrightarrow> q = p \<or> used cb q \<and> (q < p \<or> e \<le> q)" for q
  proof -
    have "used cb3 q \<longleftrightarrow> (q = p \<or> used cb q) \<and> \<not> (p + cb_blksz cb \<le> q \<and> q < e)"
      using w3(2) w2(2,3,5) c1(3,5) by simp
    moreover have "p + cb_blksz cb \<le> q" if "used cb q" "p < q"
    proof -
      have "(q - p) mod cb_blksz cb = 0" using that(1) ok(3) by (simp add: used_def mod_diff_eq_nat0)
      then obtain k where "q - p = k * cb_blksz cb" by (metis add.right_neutral div_mult_mod_eq)
      with that(2) show ?thesis by (cases k) auto
    qed
    ultimately show ?thesis using geometryD(1) [OF ok(1)] e(2) by (cases q p rule: linorder_cases) auto
  qed
  have rd: "read_at q n cb3 = read_at q n (write_at p data cb)" for q n by (simp add: read_at_def f(9))
  let ?I = "insert (p, cb_cyclenum cb, (art, arrived, cl)) I"
  have "\<exists>a. (q, cyc_of cb3 q, a) \<in> ?I \<and> holds cb3 q a" if "used cb3 q" for q
  proof (cases "q = p")
    case True
    have "holds cb3 p (art, arrived, cl)"
      using assms(2,3) room so(1,3,4) e(3) by (simp add: f rd read_write_same e_def)
    moreover have "cyc_of cb3 p = cb_cyclenum cb" using e(2) by (simp add: cyc_of_def f)
    ultimately show ?thesis using True by auto
  next
    case False
    then have q: "used cb q" "q < p \<or> e \<le> q" using that u3 by auto
    obtain a where a: "(q, cyc_of cb q, a) \<in> I" "holds cb q a" using ok(6) [OF q(1)] by blast
    obtain art' arr' cl' where t: "a = (art', arr', cl')" by (cases a)
    have "q + span (cb_blksz cb) art' \<le> p" if "q < p" using a(2) t that by (simp add: p_def)
    then have "q + (SIZEOF_CNFSARTHEADER + length art') \<le> p \<or> e \<le> q"
      using q(2) stored_octets_facts(3) [OF ok(1), of art'] by fastforce
    then have "read_at q (SIZEOF_CNFSARTHEADER + length art') cb3 = read_at q (SIZEOF_CNFSARTHEADER + length art') cb"
      unfolding rd by (intro read_write_other) (auto simp: e_def)
    moreover have "q < e \<longrightarrow> q + span (cb_blksz cb) art' \<le> e"
      using \<open>q < p \<Longrightarrow> q + span (cb_blksz cb) art' \<le> p\<close> q(2) by (auto simp: e_def)
    ultimately have "holds cb3 q a" using a(2) t by (simp add: f)
    moreover have "cyc_of cb3 q = cyc_of cb q" using q(2) e(2) by (auto simp: cyc_of_def f p_def)
    ultimately show ?thesis using a(1) by (intro exI [of _ a]) simp
  qed
  moreover have "given cb3 ?I"
  proof -
    have new: "(p, cb_cyclenum cb, a) \<notin> I" for a using ok(5) unfolding given_def p_def by blast
    have old: "unat c \<le> unat (cb_cyclenum cb) \<and> (c = cb_cyclenum cb \<longrightarrow> q < e) \<and> cb_minartoffset cb \<le> q
        \<and> q mod cb_blksz cb = 0 \<and> q div cb_blksz cb < 2 ^ 32" if "(q, c, a) \<in> ?I" for q c a
    proof (cases "(q, c, a) \<in> I")
      case True
      with ok(5) have "unat c \<le> unat (cb_cyclenum cb) \<and> (c = cb_cyclenum cb \<longrightarrow> q < p) \<and> cb_minartoffset cb \<le> q
          \<and> q mod cb_blksz cb = 0 \<and> q div cb_blksz cb < 2 ^ 32" unfolding given_def p_def by blast
      with e(2) show ?thesis by auto
    next
      case False
      with that ok(3,4) e(2) assms(5) show ?thesis by (simp add: p_def)
    qed
    have "a = b" if "(q, c, a) \<in> ?I" "(q, c, b) \<in> ?I" for q c a b
      using that new ok(5) unfolding given_def by blast
    with old show ?thesis unfolding given_def f by blast
  qed
  ultimately have "cyc_ok cb3 ?I"
    using ok(2,4) f e(1,2) by (simp add: cyc_ok_def)
  then show ?thesis
    using cb2(1) cb3(1) f u3 [of p] w2 c1 by (intro exI [of _ 2] exI [of _ cb2] exI [of _ cb3]) (simp add: p_def)
qed

subsection \<open>The invariant of the storage\<close>

definition name_ok :: "string \<Rightarrow> bool" where
  "name_ok n \<longleftrightarrow> length n \<le> CNFSMAXCYCBUFFNAME \<and> NUL \<notin> set n"

definition meta_ok :: "nat \<Rightarrow> metacycbuff \<Rightarrow> bool" where
  "meta_ok n mc \<longleftrightarrow> mc_members mc \<noteq> [] \<and> (\<forall>c \<in> set (mc_members mc). c < n) \<and> mc_memb_next mc < length (mc_members mc)"

definition tables_ok :: "cnfs \<Rightarrow> bool" where
  "tables_ok st \<longleftrightarrow> distinct (map cb_name (cycbufftab st)) \<and> (\<forall>cb \<in> set (cycbufftab st). name_ok (cb_name cb))
     \<and> (\<forall>r \<in> set (metaexprulestab st). snd r < length (metacycbufftab st))
     \<and> (\<forall>mc \<in> set (metacycbufftab st). meta_ok (length (cycbufftab st)) mc)"

definition cnfs_ok :: "cnfs \<Rightarrow> (nat \<Rightarrow> (nat \<times> u32 \<times> stored) set) \<Rightarrow> bool" where
  "cnfs_ok st I \<longleftrightarrow> tables_ok st \<and> (\<forall>c < length (cycbufftab st). cyc_ok (cycbufftab st ! c) (I c))"

lemma put_simps [simp]:
  "cycbufftab (put_cycbuff c cb st) = (cycbufftab st)[c := cb]" "metacycbufftab (put_cycbuff c cb st) = metacycbufftab st"
  "metaexprulestab (put_cycbuff c cb st) = metaexprulestab st" "cycbufftab (put_meta m mc st) = cycbufftab st"
  "metacycbufftab (put_meta m mc st) = (metacycbufftab st)[m := mc]" "metaexprulestab (put_meta m mc st) = metaexprulestab st"
  by (simp_all add: put_cycbuff_def put_meta_def)

lemma tables_ok_put:
  assumes "tables_ok st" "c < length (cycbufftab st)" "cb_name cb = cb_name (cycbufftab st ! c)"
  shows "tables_ok (put_cycbuff c cb st)"
proof -
  have "map cb_name ((cycbufftab st)[c := cb]) = map cb_name (cycbufftab st)"
    using assms(2,3) by (simp add: map_update list_update_same_conv)
  then have n: "map cb_name (cycbufftab (put_cycbuff c cb st)) = map cb_name (cycbufftab st)" by simp
  then have "cb_name ` set (cycbufftab (put_cycbuff c cb st)) = cb_name ` set (cycbufftab st)" by (metis list.set_map)
  then have "\<forall>cb \<in> set (cycbufftab (put_cycbuff c cb st)). name_ok (cb_name cb)"
    using assms(1) unfolding tables_ok_def by (metis (no_types, lifting) image_eqI imageE)
  with n assms(1) show ?thesis by (simp add: tables_ok_def)
qed

lemma meta_ok_update:
  assumes "meta_ok n mc"
  shows "meta_ok n (next_member mc)" "meta_ok n (mc\<lparr>mc_write_count := w\<rparr>)"
  using assms by (auto simp: meta_ok_def next_member_def)

lemma tables_ok_put_meta:
  "tables_ok st \<Longrightarrow> meta_ok (length (cycbufftab st)) mc \<Longrightarrow> tables_ok (put_meta m mc st)"
  using set_update_subset_insert [of "metacycbufftab st" m mc] by (auto simp: tables_ok_def)

lemma tables_okD:
  assumes "tables_ok st"
  shows "find_rule cl st = Some m \<Longrightarrow> m < length (metacycbufftab st)"
    "m < length (metacycbufftab st) \<Longrightarrow> meta_ok (length (cycbufftab st)) (metacycbufftab st ! m)"
    "c < length (cycbufftab st) \<Longrightarrow> name_ok (cb_name (cycbufftab st ! c))"
proof -
  show "m < length (metacycbufftab st) \<Longrightarrow> meta_ok (length (cycbufftab st)) (metacycbufftab st ! m)"
    "c < length (cycbufftab st) \<Longrightarrow> name_ok (cb_name (cycbufftab st ! c))"
    using assms by (auto simp: tables_ok_def)
  assume "find_rule cl st = Some m"
  then obtain r where "find (\<lambda>r. fst r = cl) (metaexprulestab st) = Some r" "m = snd r" by (auto simp: find_rule_def)
  then have "r \<in> set (metaexprulestab st)" by (metis find_Some_iff nth_mem)
  with assms \<open>m = snd r\<close> show "m < length (metacycbufftab st)" by (auto simp: tables_ok_def)
qed

lemma meta_member: "meta_ok n mc \<Longrightarrow> mc_members mc ! mc_memb_next mc < n"
  by (auto simp: meta_ok_def)

lemma cnfs_ok_put:
  assumes "cnfs_ok st I" "c < length (cycbufftab st)" "cyc_ok cb (I c)" "cb_name cb = cb_name (cycbufftab st ! c)"
  shows "cnfs_ok (put_cycbuff c cb st) I"
  using assms tables_ok_put [of st c cb] by (auto simp: cnfs_ok_def nth_list_update)

lemma flush_members_facts:
  assumes "\<forall>c \<in> set cs. c < length (cycbufftab st)"
  shows "length (cycbufftab (flush_members now cs st)) = length (cycbufftab st)"
    "metacycbufftab (flush_members now cs st) = metacycbufftab st"
    "metaexprulestab (flush_members now cs st) = metaexprulestab st"
    "c < length (cycbufftab st) \<Longrightarrow> same_core (cycbufftab st ! c) (cycbufftab (flush_members now cs st) ! c)"
  using assms
proof (induction cs arbitrary: st)
  case (Cons d cs)
  {
    case 1
    then show ?case using Cons.IH(1) by simp
  next
    case 2
    then show ?case using Cons.IH(2) by simp
  next
    case 3
    then show ?case using Cons.IH(3) by simp
  next
    case 4
    let ?st = "put_cycbuff d (snd (CNFSflushhead now (cycbufftab st ! d))) st"
    have "same_core (cycbufftab st ! c) (cycbufftab ?st ! c)"
      using 4 same_core_flush by (cases "c = d") auto
    moreover have "same_core (cycbufftab ?st ! c) (cycbufftab (flush_members now cs ?st) ! c)"
      using 4 by (intro Cons.IH(4)) simp_all
    ultimately show ?case by (simp add: same_core_trans)
  }
qed simp_all

text \<open>What a store needs: an article that is not empty and fits into the buffer that is chosen for it, and a number of
  cycles and blocks within the bounds of a token.\<close>

definition storable :: "string \<Rightarrow> char \<Rightarrow> nat \<Rightarrow> cnfs \<Rightarrow> bool" where
  "storable art cl now st \<longleftrightarrow> art \<noteq> [] \<and> length art < 2 ^ 32 \<and>
     (case find_rule cl st of None \<Rightarrow> False
      | Some m \<Rightarrow>
        let mc = metacycbufftab st ! m
        in unat (cb_cyclenum (cycbufftab st ! (mc_members mc ! mc_memb_next mc))) < 2 ^ 24 - 1 \<and>
           (case make_room now (length art) m st of None \<Rightarrow> False
            | Some (c, st) \<Rightarrow>
                let cb = cycbufftab st ! c in length art \<le> room_left cb \<and> cb_free cb div cb_blksz cb < 2 ^ 32))"

lemma make_room_ok:
  assumes "cnfs_ok st I" "m < length (metacycbufftab st)"
    and "unat (cb_cyclenum (cycbufftab st ! (mc_members (metacycbufftab st ! m) ! mc_memb_next (metacycbufftab st ! m)))) < 2 ^ 24 - 1"
  shows "\<exists>c st1. make_room now len m st = Some (c, st1) \<and> cnfs_ok st1 I \<and> c < length (cycbufftab st1)
    \<and> map cb_name (cycbufftab st1) = map cb_name (cycbufftab st) \<and> map cb_blksz (cycbufftab st1) = map cb_blksz (cycbufftab st)
    \<and> metaexprulestab st1 = metaexprulestab st \<and> length (metacycbufftab st1) = length (metacycbufftab st)"
proof -
  define mc where "mc = metacycbufftab st ! m"
  define c where "c = mc_members mc ! mc_memb_next mc"
  define cb where "cb = cycbufftab st ! c"
  have tb: "tables_ok st" and cyc: "\<And>d. d < length (cycbufftab st) \<Longrightarrow> cyc_ok (cycbufftab st ! d) (I d)"
    using assms(1) by (simp_all add: cnfs_ok_def)
  have mok: "meta_ok (length (cycbufftab st)) mc" using tables_okD(2) [OF tb assms(2)] by (simp add: mc_def)
  have c: "c < length (cycbufftab st)" using meta_member [OF mok] by (simp add: c_def)
  have ok: "cyc_ok cb (I c)" using cyc [OF c] by (simp add: cb_def)
  have al: "align_free cb = cb" by (rule align_free_aligned [OF ok])
  have put: "cnfs_ok (put_cycbuff c x st) I \<and> map cb_name (cycbufftab (put_cycbuff c x st)) = map cb_name (cycbufftab st)
      \<and> map cb_blksz (cycbufftab (put_cycbuff c x st)) = map cb_blksz (cycbufftab st)"
    if "cyc_ok x (I c)" "cb_name x = cb_name cb" "cb_blksz x = cb_blksz cb" for x
    using cnfs_ok_put [OF assms(1) c that(1)] that(2,3) c by (simp add: cb_def map_update list_update_same_conv)
  show ?thesis
  proof (cases "len > room_left cb")
    case False
    then have "make_room now len m st = Some (c, put_cycbuff c cb st)"
      by (simp add: make_room_def Let_def mc_def [symmetric] c_def [symmetric] cb_def [symmetric] al)
    with put [OF ok refl refl] c show ?thesis by (intro exI [of _ c] exI [of _ "put_cycbuff c cb st"]) simp
  next
    case True
    obtain cb1 where cb1: "roll_over cb = Some cb1" "cyc_ok cb1 (I c)" "cb_name cb1 = cb_name cb" "cb_blksz cb1 = cb_blksz cb"
      using roll_over_ok [OF ok] assms(3) by (auto simp: cb_def c_def mc_def)
    show ?thesis
    proof (cases "mc_metamode mc")
      case INTERLEAVE
      define x where "x = snd (CNFSflushhead now cb1)"
      have core: "same_core cb1 x" by (simp add: x_def same_core_flush)
      have "make_room now len m st = Some (c, put_cycbuff c x st)"
        using True INTERLEAVE cb1(1)
        by (simp add: make_room_def Let_def mc_def [symmetric] c_def [symmetric] cb_def [symmetric] al x_def)
      with put [of x] cyc_ok_core [OF core] same_coreD(5,9) [OF core] cb1(2-4) c show ?thesis
        by (intro exI [of _ c] exI [of _ "put_cycbuff c x st"]) simp
    next
      case SEQUENTIAL
      define x where "x = snd (CNFSflushhead now (cb1\<lparr>cb_currentbuff := False\<rparr>))"
      have core: "same_core cb1 x" using same_core_trans [OF same_core_current(1) same_core_flush] by (simp add: x_def)
      define st1 where "st1 = put_cycbuff c x st"
      note p1 = put [of x, folded st1_def]
      have ok1: "cnfs_ok st1 I" "map cb_name (cycbufftab st1) = map cb_name (cycbufftab st)"
        "map cb_blksz (cycbufftab st1) = map cb_blksz (cycbufftab st)"
        using p1 cyc_ok_core [OF core] same_coreD(5,9) [OF core] cb1(2-4) by simp_all
      define mc' where "mc' = next_member mc"
      define d where "d = mc_members mc' ! mc_memb_next mc'"
      have l: "length (cycbufftab st1) = length (cycbufftab st)" by (simp add: st1_def)
      have mok': "meta_ok (length (cycbufftab st1)) mc'" using meta_ok_update(1) [OF mok] by (simp add: mc'_def l)
      have d: "d < length (cycbufftab st1)" using meta_member [OF mok'] by (simp add: d_def)
      define y where "y = snd (CNFSflushhead now ((cycbufftab st1 ! d)\<lparr>cb_currentbuff := True, cb_needflush := True\<rparr>))"
      have corey: "same_core (cycbufftab st1 ! d) y" using same_core_trans [OF same_core_current(2) same_core_flush] by (simp add: y_def)
      define st2 where "st2 = put_meta m mc' (put_cycbuff d y st1)"
      have "cyc_ok (cycbufftab st1 ! d) (I d)" using ok1(1) d by (simp add: cnfs_ok_def)
      then have ok2: "cnfs_ok (put_cycbuff d y st1) I"
        using cnfs_ok_put [OF ok1(1) d, of y] cyc_ok_core [OF corey] same_coreD(9) [OF corey] by simp
      then have "cnfs_ok st2 I"
        using tables_ok_put_meta [of "put_cycbuff d y st1" mc' m] mok' by (simp add: cnfs_ok_def st2_def)
      moreover have "make_room now len m st = Some (d, st2)"
        using True SEQUENTIAL cb1(1)
        by (simp add: make_room_def Let_def mc_def [symmetric] c_def [symmetric] cb_def [symmetric] al x_def [symmetric]
            st1_def [symmetric] mc'_def [symmetric] d_def [symmetric] y_def [symmetric] st2_def)
      moreover have "map cb_name (cycbufftab st2) = map cb_name (cycbufftab st)" "map cb_blksz (cycbufftab st2) = map cb_blksz (cycbufftab st)"
        unfolding ok1(2,3) [symmetric] using same_coreD(5,9) [OF corey] d by (simp_all add: st2_def map_update list_update_same_conv)
      ultimately show ?thesis using d by (intro exI [of _ d] exI [of _ st2]) (simp add: st2_def st1_def)
    qed
  qed
qed

lemma same_core_maps:
  assumes "length xs = length ys" "\<And>i. i < length ys \<Longrightarrow> same_core (ys ! i) (xs ! i)" "\<And>x y. same_core x y \<Longrightarrow> f y = f x"
  shows "map f xs = map f ys"
  using assms by (intro nth_equalityI) simp_all

lemma tables_ok_maps:
  assumes "tables_ok st" "map cb_name (cycbufftab st') = map cb_name (cycbufftab st)"
    "metacycbufftab st' = metacycbufftab st" "metaexprulestab st' = metaexprulestab st"
  shows "tables_ok st'"
proof -
  have "cb_name ` set (cycbufftab st') = cb_name ` set (cycbufftab st)" using assms(2) by (metis list.set_map)
  then have "\<forall>x \<in> set (cycbufftab st'). name_ok (cb_name x)"
    using assms(1) unfolding tables_ok_def by (metis (no_types, lifting) image_eqI imageE)
  moreover have "length (cycbufftab st') = length (cycbufftab st)" using assms(2) by (metis length_map)
  ultimately show ?thesis using assms by (simp add: tables_ok_def)
qed

lemma count_write_facts:
  assumes "tables_ok st" "m < length (metacycbufftab st)"
  shows "tables_ok (count_write now m st)" "length (cycbufftab (count_write now m st)) = length (cycbufftab st)"
    "c < length (cycbufftab st) \<Longrightarrow> same_core (cycbufftab st ! c) (cycbufftab (count_write now m st) ! c)"
proof -
  define mc0 where "mc0 = metacycbufftab st ! m"
  define mc1 where "mc1 = (if mc_metamode mc0 = INTERLEAVE then next_member mc0 else mc0)"
  define mc where "mc = mc1\<lparr>mc_write_count := mc_write_count mc1 + 1\<rparr>"
  define st1 where "st1 = put_meta m mc st"
  have mok: "meta_ok (length (cycbufftab st)) mc"
    using tables_okD(2) [OF assms] meta_ok_update by (simp add: mc_def mc1_def mc0_def)
  have tb1: "tables_ok st1" using tables_ok_put_meta [OF assms(1) mok] by (simp add: st1_def)
  have "\<forall>d \<in> set (mc_members mc). d < length (cycbufftab st1)" using mok by (auto simp: meta_ok_def st1_def)
  note fl = flush_members_facts [OF this, where now = now]
  have e: "count_write now m st = (if mc_write_count mc mod metabuff_update st1 = 0 then flush_members now (mc_members mc) st1 else st1)"
    unfolding count_write_def Let_def mc0_def [symmetric] mc1_def [symmetric] mc_def [symmetric] st1_def [symmetric] ..
  show l: "length (cycbufftab (count_write now m st)) = length (cycbufftab st)" using fl(1) by (simp add: e st1_def)
  show sc: "same_core (cycbufftab st ! c) (cycbufftab (count_write now m st) ! c)" if "c < length (cycbufftab st)" for c
    using fl(4) that by (simp add: e st1_def)
  have "map cb_name (cycbufftab (count_write now m st)) = map cb_name (cycbufftab st1)"
    by (rule same_core_maps) (use l sc in \<open>simp_all add: st1_def same_core_def\<close>)
  then show "tables_ok (count_write now m st)"
    by (rule tables_ok_maps [OF tb1]) (simp_all add: e fl(2,3))
qed

lemma cnfs_store_ok:
  assumes "cnfs_ok st I" "storable art cl now st" and arr_def: "arr = (if arrived = 0 then now else arrived)"
  shows "\<exists>c p cyc st'. c < length (cycbufftab st') \<and> p mod cb_blksz (cycbufftab st' ! c) = 0 \<and> (\<forall>a. (p, cyc, a) \<notin> I c)
    \<and> cnfs_store art arrived cl now None st
        = Some (Some (CNFSMakeToken (cb_name (cycbufftab st' ! c)) p (cb_blksz (cycbufftab st' ! c)) cyc cl), st')
    \<and> cnfs_ok st' (I(c := insert (p, cyc, (art, arr, cl)) (I c))) \<and> used (cycbufftab st' ! c) p \<and> cyc = cyc_of (cycbufftab st' ! c) p
    \<and> p < cb_free (cycbufftab st' ! c)
    \<and> map cb_name (cycbufftab st') = map cb_name (cycbufftab st) \<and> map cb_blksz (cycbufftab st') = map cb_blksz (cycbufftab st)"
proof -
  have tb: "tables_ok st" using assms(1) by (simp add: cnfs_ok_def)
  obtain m where m: "find_rule cl st = Some m"
    "unat (cb_cyclenum (cycbufftab st ! (mc_members (metacycbufftab st ! m) ! mc_memb_next (metacycbufftab st ! m)))) < 2 ^ 24 - 1"
    using assms(2) by (auto simp: storable_def Let_def split: option.splits)
  note ml = tables_okD(1) [OF tb m(1)]
  obtain c st1 where st1: "make_room now (length art) m st = Some (c, st1)" "cnfs_ok st1 I" "c < length (cycbufftab st1)"
    "map cb_name (cycbufftab st1) = map cb_name (cycbufftab st)" "map cb_blksz (cycbufftab st1) = map cb_blksz (cycbufftab st)"
    "length (metacycbufftab st1) = length (metacycbufftab st)"
    using make_room_ok [OF assms(1) ml m(2), of now "length art"] by blast
  define cb where "cb = cycbufftab st1 ! c"
  define p where "p = cb_free cb"
  define data where "data = stored_octets (cb_blksz cb) art arr cl"
  have fits: "art \<noteq> []" "length art < 2 ^ 32" "length art \<le> room_left cb" "cb_free cb div cb_blksz cb < 2 ^ 32"
    using assms(2) m(1) st1(1) by (auto simp: storable_def Let_def cb_def)
  have ok: "cyc_ok cb (I c)" and tb1: "tables_ok st1" using st1(2,3) by (simp_all add: cnfs_ok_def cb_def)
  define w where "w = (write_at p data cb)\<lparr>cb_needflush := True, cb_free := p + length data\<rparr>"
  define st2 where "st2 = put_cycbuff c w st1"
  have tb2: "tables_ok st2" using tables_ok_put [OF tb1 st1(3), of w] by (simp add: st2_def cb_def w_def)
  define st3 where "st3 = count_write now m st2"
  have "m < length (metacycbufftab st2)" using ml st1(6) by (simp add: st2_def)
  note cw = count_write_facts [OF tb2 this, where now = now, folded st3_def]
  have l3: "length (cycbufftab st3) = length (cycbufftab st1)" using cw(2) by (simp add: st2_def)
  have core: "same_core (cycbufftab st2 ! d) (cycbufftab st3 ! d)" if "d < length (cycbufftab st1)" for d
    using cw(3) that by (simp add: st2_def)
  have core_c: "same_core w (cycbufftab st3 ! c)" using core [OF st1(3)] st1(3) by (simp add: st2_def)
  from store_bits_ok [OF ok fits data_def this [unfolded w_def p_def]] obtain r cb2 cb3 where
    cb3: "CNFSUsedBlock (cycbufftab st3 ! c) p True True = Some (r, cb2)"
      "clear_blocks (p + cb_blksz cb2) (int (cb_free cb2)) cb2 = Some cb3"
      "cb_name cb3 = cb_name cb" "cb_blksz cb3 = cb_blksz cb" "cb_cyclenum cb3 = cb_cyclenum cb"
      "cyc_ok cb3 (insert (p, cb_cyclenum cb, (art, arr, cl)) (I c))" "used cb3 p"
    unfolding p_def by metis
  define st' where "st' = put_cycbuff c cb3 st3"
  have c3: "c < length (cycbufftab st3)" using st1(3) l3 by simp
  then have c': "c < length (cycbufftab st')" "cycbufftab st' ! c = cb3" by (simp_all add: st'_def)
  have "mark_blocks c p st3 = Some st'" using cb3(1,2) by (simp add: mark_blocks_def st'_def)
  then have store: "cnfs_store art arrived cl now None st = Some (Some (CNFSMakeToken (cb_name cb) p (cb_blksz cb) (cb_cyclenum cb) cl), st')"
    using m(1) st1(1)
    by (simp add: cnfs_store_def Let_def cb_def [symmetric] p_def [symmetric] arr_def [symmetric] data_def [symmetric]
        w_def [symmetric] st2_def [symmetric] st3_def [symmetric])
  let ?I = "I(c := insert (p, cb_cyclenum cb, (art, arr, cl)) (I c))"
  have "cyc_ok (cycbufftab st' ! d) (?I d)" if "d < length (cycbufftab st')" for d
  proof (cases "d = c")
    case True
    with cb3(6) c'(2) show ?thesis by simp
  next
    case False
    have d: "d < length (cycbufftab st1)" using that l3 by (simp add: st'_def)
    then have "cyc_ok (cycbufftab st1 ! d) (I d)" using st1(2) by (simp add: cnfs_ok_def)
    moreover have "same_core (cycbufftab st1 ! d) (cycbufftab st3 ! d)" using core [OF d] False by (simp add: st2_def)
    ultimately show ?thesis using cyc_ok_core False by (auto simp: st'_def)
  qed
  moreover have "tables_ok st'"
    unfolding st'_def using same_coreD(9) [OF core_c] by (intro tables_ok_put [OF cw(1) c3]) (simp add: cb3(3) w_def)
  ultimately have okn: "cnfs_ok st' ?I" by (simp add: cnfs_ok_def)
  have given: "given cb (I c)" "given cb3 (insert (p, cb_cyclenum cb, (art, arr, cl)) (I c))"
    using ok cb3(6) by (simp_all add: cyc_ok_def)
  have new: "(p, cb_cyclenum cb, a) \<notin> I c" for a using given(1) unfolding given_def p_def by blast
  have below: "p < cb_free cb3" "p mod cb_blksz cb3 = 0" using given(2) cb3(5) unfolding given_def by auto
  then have "cyc_of cb3 p = cb_cyclenum cb" by (simp add: cyc_of_def cb3(5))
  moreover have "map f (cycbufftab st') = map f (cycbufftab st1)"
    if "\<And>x y. same_core x y \<Longrightarrow> f y = f x" "f cb3 = f cb" "f w = f cb" for f :: "cycbuff \<Rightarrow> 'c"
  proof (rule nth_equalityI)
    fix i assume "i < length (map f (cycbufftab st'))"
    then have i: "i < length (cycbufftab st1)" using l3 by (simp add: st'_def)
    show "map f (cycbufftab st') ! i = map f (cycbufftab st1) ! i"
      using that(1) [OF core [OF i]] that(2,3) i l3 by (cases "i = c") (simp_all add: st'_def cb_def st2_def)
  qed (simp add: st'_def l3)
  from this [of cb_name] this [of cb_blksz] have
    "map cb_name (cycbufftab st') = map cb_name (cycbufftab st)" "map cb_blksz (cycbufftab st') = map cb_blksz (cycbufftab st)"
    using cb3(3,4) st1(4,5) by (simp_all add: same_core_def w_def)
  ultimately show ?thesis
    using store okn new below cb3(3,4,7) c' by (intro exI [of _ c] exI [of _ p] exI [of _ "cb_cyclenum cb"] exI [of _ st']) simp
qed

subsection \<open>Retrieving what was stored\<close>

lemma break_make_token:
  assumes "name_ok name" "p div blksz < 2 ^ 32"
  shows "CNFSBreakToken (CNFSMakeToken name p blksz cyc cl) = (name, p div blksz, cyc)"
proof -
  let ?n = "take CNFSMAXCYCBUFFNAME (name @ replicate CNFSMAXCYCBUFFNAME NUL)"
  let ?t = "CNFSMakeToken name p blksz cyc cl"
  have l: "length ?n = 8" by (simp add: CNFSMAXCYCBUFFNAME_def)
  have o8: "take CNFSMAXCYCBUFFNAME (tok_octets ?t) = ?n" "drop 8 (tok_octets ?t) = be32 (p div blksz) @ be32 (unat cyc)"
    "drop 12 (tok_octets ?t) = be32 (unat cyc) @ []"
    using l by (simp_all add: CNFSMakeToken_def CNFSMAXCYCBUFFNAME_def)
  have "takeWhile (\<lambda>c. c \<noteq> NUL) ?n = name"
  proof -
    have "?n = name @ replicate (8 - length name) NUL"
      using assms(1) by (simp add: name_ok_def CNFSMAXCYCBUFFNAME_def)
    then show ?thesis using assms(1) by (cases "8 - length name") (auto simp: name_ok_def)
  qed
  moreover have "unat cyc < 2 ^ 32" using unsigned_less [of cyc] by simp
  then have "be32_value (drop 12 (tok_octets ?t)) = unat cyc" unfolding o8(3) be32_value_be32 by simp
  moreover have "be32_value (drop 8 (tok_octets ?t)) = p div blksz" unfolding o8(2) be32_value_be32 using assms(2) by simp
  ultimately show ?thesis unfolding CNFSBreakToken_def o8(1) by simp
qed

lemma name_index_nth:
  "distinct (map cb_name cbs) \<Longrightarrow> c < length cbs \<Longrightarrow> name_index (cb_name (cbs ! c)) cbs i = Some (i + c)"
proof (induction cbs arbitrary: c i)
  case (Cons cb cbs)
  show ?case
  proof (cases c)
    case (Suc d)
    with Cons.prems have "cb_name (cbs ! d) \<noteq> cb_name cb" by (metis distinct.simps(2) length_Cons length_map list.simps(9) not_less_eq nth_map nth_mem)
    with Suc Cons show ?thesis by simp
  qed simp
qed simp

lemma name_index_less: "name_index name cbs i = Some c \<Longrightarrow> i \<le> c \<and> c - i < length cbs"
  by (induction cbs arbitrary: i) (fastforce split: if_splits)+

lemma getcycbuff_nth:
  "tables_ok st \<Longrightarrow> c < length (cycbufftab st) \<Longrightarrow> CNFSgetcycbuffbyname (cb_name (cycbufftab st ! c)) st = Some c"
  using name_index_nth [of "cycbufftab st" c 0] by (simp add: tables_ok_def CNFSgetcycbuffbyname_def)

lemma cyc_minus_1: "c - 1 \<noteq> (c :: u32)" by simp

lemma MayBeHere_ok:
  assumes "cyc_ok cb I"
  shows "\<exists>here. CNFSArtMayBeHere cb p c = Some here \<and> (here \<noteq> 0 \<longrightarrow> used cb p)"
    "(p, c, a) \<in> I \<Longrightarrow> CNFSArtMayBeHere cb p c = Some (of_bool (used cb p \<and> c = cyc_of cb p))"
proof -
  have g: "geometry cb" "given cb I" using assms by (simp_all add: cyc_ok_def)
  show "\<exists>here. CNFSArtMayBeHere cb p c = Some here \<and> (here \<noteq> 0 \<longrightarrow> used cb p)"
    by (simp add: CNFSArtMayBeHere_def CNFSUsedBlock_read [OF g(1)])
  assume "(p, c, a) \<in> I"
  with g(2) have i: "unat c \<le> unat (cb_cyclenum cb)" "c = cb_cyclenum cb \<Longrightarrow> p < cb_free cb" unfolding given_def by blast+
  have "\<not> (c + 1 = 0 \<and> cb_cyclenum cb = 2)"
  proof
    assume *: "c + 1 = 0 \<and> cb_cyclenum cb = 2"
    then have "c = -1" by (simp add: eq_neg_iff_add_eq_0)
    moreover have "unat (-1 :: u32) = 2 ^ 32 - 1" by (simp add: unsigned_minus_1_eq_mask mask_eq_exp_minus_1)
    ultimately show False using i(1) * by simp
  qed
  moreover have "(c = cb_cyclenum cb \<or> c = cb_cyclenum cb - 1 \<and> cb_free cb \<le> p) \<longleftrightarrow> c = cyc_of cb p"
    using i(2) cyc_minus_1 [of "cb_cyclenum cb"] by (auto simp: cyc_of_def)
  ultimately have "(c = cb_cyclenum cb \<or> c = cb_cyclenum cb - 1 \<and> cb_free cb \<le> p \<or> c + 1 = 0 \<and> cb_cyclenum cb = 2 \<and> cb_free cb < p)
      \<longleftrightarrow> c = cyc_of cb p" by blast
  then show "CNFSArtMayBeHere cb p c = Some (of_bool (used cb p \<and> c = cyc_of cb p))"
    unfolding CNFSArtMayBeHere_def CNFSUsedBlock_read [OF g(1)] by simp
qed

text \<open>The header that \<open>cnfs_retrieve\<close> reads where an article is held.\<close>

lemma holds_header:
  assumes "holds cb p (art, arr, cl)"
  shows "read_at p SIZEOF_CNFSARTHEADER cb = art_header (length art) arr cl"
    "read_at (p + SIZEOF_CNFSARTHEADER) (length art) cb = art"
    "\<not> int p > int (cb_len cb) - int (cb_blksz cb) - int (length art) - 1" "length art < 2 ^ 32"
proof -
  have "read_at p SIZEOF_CNFSARTHEADER cb @ read_at (p + SIZEOF_CNFSARTHEADER) (length art) cb
      = art_header (length art) arr cl @ art"
    using assms read_at_append [of p SIZEOF_CNFSARTHEADER "length art" cb] by simp
  then show "read_at p SIZEOF_CNFSARTHEADER cb = art_header (length art) arr cl"
    "read_at (p + SIZEOF_CNFSARTHEADER) (length art) cb = art" by simp_all
qed (use assms in auto)

definition size_accepted :: "cnfs_settings \<Rightarrow> nat \<Rightarrow> bool" where
  "size_accepted conf n \<longleftrightarrow> cnfscheckfudgesize conf = 0 \<or> maxartsize conf = 0 \<or> n \<le> maxartsize conf + cnfscheckfudgesize conf"

lemma put_same: "c < length (cycbufftab st) \<Longrightarrow> put_cycbuff c (cycbufftab st ! c) st = st"
  by (simp add: put_cycbuff_def)

lemma cnfs_retrieve_given:
  assumes "cnfs_ok st I" "c < length (cycbufftab st)" "(p, cyc, (art, arr, cl)) \<in> I c" "amount \<noteq> RETR_STAT"
    "size_accepted conf (length art)"
    and cb_def: "cb = cycbufftab st ! c"
  shows "cnfs_retrieve conf (CNFSMakeToken (cb_name cb) p (cb_blksz cb) cyc cl) amount st
    = Some (if used cb p \<and> cyc = cyc_of cb p then cut_article art (arr mod 2 ^ 32) amount else Inl SMERR_NOENT, st)"
proof -
  have tb: "tables_ok st" and ok: "cyc_ok cb (I c)" using assms(1,2) by (simp_all add: cnfs_ok_def cb_def)
  have g: "given cb (I c)" using ok by (simp add: cyc_ok_def)
  have p: "p div cb_blksz cb < 2 ^ 32" "p mod cb_blksz cb = 0" using g assms(3) unfolding given_def by blast+
  note br = break_make_token [OF tables_okD(3) [OF tb assms(2), folded cb_def] p(1), of cyc cl]
  have off: "p div cb_blksz cb * cb_blksz cb = p" using p(2) by (metis add.right_neutral div_mult_mod_eq)
  note nm = getcycbuff_nth [OF tb assms(2), folded cb_def]
  note here = MayBeHere_ok(2) [OF ok assms(3)]
  have tt: "tok_type (CNFSMakeToken (cb_name cb) p (cb_blksz cb) cyc cl) = TOKEN_CNFS" by (simp add: CNFSMakeToken_def)
  show ?thesis
  proof (cases "used cb p \<and> cyc = cyc_of cb p")
    case False
    then show ?thesis using here unfolding cnfs_retrieve_def tt br prod.case nm by (auto simp: Let_def cb_def [symmetric] off)
  next
    case True
    then obtain a where a: "(p, cyc, a) \<in> I c" "holds cb p a" using ok by (auto simp: cyc_ok_def)
    then have "a = (art, arr, cl)" using g assms(3) unfolding given_def by blast
    with a(2) have hl: "holds cb p (art, arr, cl)" by simp
    note hh = holds_header [OF hl]
    have sz: "be32_value (read_at p SIZEOF_CNFSARTHEADER cb) = length art"
      using hh(4) by (simp add: hh(1) art_header_fields)
    have "\<not> (cnfscheckfudgesize conf \<noteq> 0 \<and> maxartsize conf \<noteq> 0 \<and> length art > maxartsize conf + cnfscheckfudgesize conf)"
      using assms(5) by (auto simp: size_accepted_def)
    then show ?thesis
      using True here hh(2,3) assms(2,4) put_same [OF assms(2), folded cb_def]
      unfolding cnfs_retrieve_def tt br prod.case nm
      by (simp add: Let_def cb_def [symmetric] off sz) (auto simp: hh(1) art_header_fields)
  qed
qed

lemma cyc_ok_clear:
  assumes "cyc_ok cb I" "with_bits cb U cb'" "\<And>q. U q \<Longrightarrow> used cb q"
  shows "cyc_ok cb' I"
proof -
  note w = with_bitsD [OF assms(2)]
  have "holds cb' q a = holds cb q a" for q a using w by (intro holds_same) simp_all
  moreover have "given cb' I = given cb I" "cyc_of cb' = cyc_of cb" using w by (simp_all add: given_def cyc_of_def fun_eq_iff)
  ultimately show ?thesis
    using assms(1,3) w unfolding cyc_ok_def by metis
qed

lemma cnfs_cancel_ok:
  assumes "cnfs_ok st I"
  shows "\<exists>r st'. cnfs_cancel t st = Some (r, st') \<and> cnfs_ok st' I \<and> map cb_name (cycbufftab st') = map cb_name (cycbufftab st)
    \<and> map cb_blksz (cycbufftab st') = map cb_blksz (cycbufftab st)"
proof -
  obtain name block cyc where br: "CNFSBreakToken t = (name, block, cyc)" by (cases "CNFSBreakToken t") auto
  show ?thesis
  proof (cases "CNFSgetcycbuffbyname name st")
    case None
    then show ?thesis using assms br by (simp add: cnfs_cancel_def)
  next
    case (Some c)
    then have c: "c < length (cycbufftab st)"
      using name_index_less [of name "cycbufftab st" 0 c] by (simp add: CNFSgetcycbuffbyname_def)
    define cb where "cb = cycbufftab st ! c"
    have ok: "cyc_ok cb (I c)" using assms c by (simp add: cnfs_ok_def cb_def)
    then have g: "geometry cb" by (simp add: cyc_ok_def)
    let ?o = "block * cb_blksz cb"
    obtain r cb' where cb': "CNFSUsedBlock cb ?o True False = Some (r, cb')" "with_bits cb (\<lambda>q. q \<noteq> ?o \<and> used cb q) cb'"
      using CNFSUsedBlock_clear [OF g] by blast
    have "cyc_ok cb' (I c)" by (rule cyc_ok_clear [OF ok cb'(2)]) simp
    with cnfs_ok_put [OF assms c this] with_bitsD(5,9) [OF cb'(2)] c
    have "cnfs_ok (put_cycbuff c cb' st) I \<and> map cb_name (cycbufftab (put_cycbuff c cb' st)) = map cb_name (cycbufftab st)
        \<and> map cb_blksz (cycbufftab (put_cycbuff c cb' st)) = map cb_blksz (cycbufftab st)"
      by (simp add: cb_def map_update list_update_same_conv)
    then show ?thesis
      using assms br Some cb'(1) CNFSUsedBlock_read [OF g, of ?o] by (auto simp: cnfs_cancel_def Let_def cb_def [symmetric])
  qed
qed

lemma cnfs_cancel_given:
  assumes "cnfs_ok st I" "c < length (cycbufftab st)" "(p, cyc, (art, arr, cl)) \<in> I c"
    and cb_def: "cb = cycbufftab st ! c" and "used cb p" "cyc = cyc_of cb p" "p < cb_free cb"
  shows "\<exists>cb'. cnfs_cancel (CNFSMakeToken (cb_name cb) p (cb_blksz cb) cyc cl) st = Some (None, put_cycbuff c cb' st)
    \<and> cb_name cb' = cb_name cb \<and> cb_blksz cb' = cb_blksz cb \<and> \<not> used cb' p"
proof -
  have tb: "tables_ok st" and ok: "cyc_ok cb (I c)" using assms(1,2) by (simp_all add: cnfs_ok_def cb_def)
  have g: "geometry cb" "given cb (I c)" using ok by (simp_all add: cyc_ok_def)
  have p: "p div cb_blksz cb < 2 ^ 32" "p mod cb_blksz cb = 0" using g(2) assms(3) unfolding given_def by blast+
  note br = break_make_token [OF tables_okD(3) [OF tb assms(2), folded cb_def] p(1), of cyc cl]
  have off: "p div cb_blksz cb * cb_blksz cb = p" using p(2) by (metis add.right_neutral div_mult_mod_eq)
  note nm = getcycbuff_nth [OF tb assms(2), folded cb_def]
  have tt: "tok_type (CNFSMakeToken (cb_name cb) p (cb_blksz cb) cyc cl) = TOKEN_CNFS" by (simp add: CNFSMakeToken_def)
  have cyc: "cyc = cb_cyclenum cb" using assms(6,7) by (simp add: cyc_of_def)
  obtain r cb' where cb': "CNFSUsedBlock cb p True False = Some (r, cb')" "with_bits cb (\<lambda>q. q \<noteq> p \<and> used cb q) cb'"
    using CNFSUsedBlock_clear [OF g(1)] by blast
  have "cnfs_cancel (CNFSMakeToken (cb_name cb) p (cb_blksz cb) cyc cl) st = Some (None, put_cycbuff c cb' st)"
    using assms(5) cb'(1) CNFSUsedBlock_read [OF g(1), of p] unfolding cnfs_cancel_def tt br prod.case nm
    by (simp add: Let_def cb_def [symmetric] off cyc)
  with with_bitsD [OF cb'(2)] show ?thesis by auto
qed

subsection \<open>Histories\<close>

text \<open>Buffers as they are when they have just been set up: nothing is stored in them.\<close>

definition cnfs_fresh :: "cnfs \<Rightarrow> bool" where
  "cnfs_fresh st \<longleftrightarrow> tables_ok st \<and> (\<forall>cb \<in> set (cycbufftab st). geometry cb \<and> cb_magicver cb = 4
     \<and> cb_free cb = cb_minartoffset cb \<and> (\<forall>w \<in> set (cb_bitfield cb). w = 0))"

text \<open>Any sequence of stores and cancellations, with the tokens that were given out and what they were given for.\<close>

inductive cnfs_history :: "cnfs \<Rightarrow> (token \<times> string \<times> nat) set \<Rightarrow> bool" where
  start: "cnfs_fresh st \<Longrightarrow> cnfs_history st {}"
| store: "cnfs_history st T \<Longrightarrow> storable art cl now st \<Longrightarrow> cnfs_store art arrived cl now None st = Some (Some t, st') \<Longrightarrow>
    cnfs_history st' (insert (t, art, if arrived = 0 then now else arrived) T)"
| cancel: "cnfs_history st T \<Longrightarrow> cnfs_cancel t st = Some (r, st') \<Longrightarrow> cnfs_history st' T"

definition token_of :: "cnfs \<Rightarrow> nat \<Rightarrow> nat \<Rightarrow> u32 \<Rightarrow> char \<Rightarrow> token" where
  "token_of st c p cyc cl = CNFSMakeToken (map cb_name (cycbufftab st) ! c) p (map cb_blksz (cycbufftab st) ! c) cyc cl"

definition tokens_ok :: "cnfs \<Rightarrow> (nat \<Rightarrow> (nat \<times> u32 \<times> stored) set) \<Rightarrow> (token \<times> string \<times> nat) set \<Rightarrow> bool" where
  "tokens_ok st I T \<longleftrightarrow> (\<forall>t art arr. (t, art, arr) \<in> T \<longrightarrow>
     (\<exists>c p cyc cl. c < length (cycbufftab st) \<and> (p, cyc, (art, arr, cl)) \<in> I c \<and> t = token_of st c p cyc cl))"

lemma cnfs_fresh_ok:
  assumes "cnfs_fresh st"
  shows "cnfs_ok st (\<lambda>_. {})"
proof -
  have "cyc_ok cb {}" if "cb \<in> set (cycbufftab st)" for cb
  proof -
    have f: "geometry cb" "cb_magicver cb = 4" "cb_free cb = cb_minartoffset cb" "\<forall>w \<in> set (cb_bitfield cb). w = 0"
      using assms that by (auto simp: cnfs_fresh_def)
    have "\<not> used cb p" for p
    proof
      assume u: "used cb p"
      then have "p div cb_blksz cb div 64 < length (cb_bitfield cb)" using geometryD(5) [OF f(1)] by (simp add: used_def)
      then have "cb_bitfield cb ! (p div cb_blksz cb div 64) = 0" using f(4) by simp
      with u show False by (simp add: used_def)
    qed
    with f geometryD(3) [OF f(1)] show ?thesis by (simp add: cyc_ok_def given_def)
  qed
  with assms show ?thesis by (auto simp: cnfs_ok_def cnfs_fresh_def)
qed

lemma tokens_ok_mono:
  assumes "tokens_ok st I T" "map cb_name (cycbufftab st') = map cb_name (cycbufftab st)"
    "map cb_blksz (cycbufftab st') = map cb_blksz (cycbufftab st)" "\<And>c. I c \<subseteq> I' c"
  shows "tokens_ok st' I' T"
proof -
  have "length (cycbufftab st') = length (cycbufftab st)" using assms(2) by (metis length_map)
  moreover have "token_of st' = token_of st" using assms(2,3) by (simp add: token_of_def fun_eq_iff)
  ultimately show ?thesis using assms(1,4) unfolding tokens_ok_def by (simp only:) blast
qed

lemma tokens_ok_insert:
  assumes "tokens_ok st I T" "c < length (cycbufftab st)" "(p, cyc, (art, arr, cl)) \<in> I c" "t = token_of st c p cyc cl"
  shows "tokens_ok st I (insert (t, art, arr) T)"
  unfolding tokens_ok_def
proof (intro allI impI)
  fix u b k
  assume "(u, b, k) \<in> insert (t, art, arr) T"
  then show "\<exists>c p cyc cl. c < length (cycbufftab st) \<and> (p, cyc, (b, k, cl)) \<in> I c \<and> u = token_of st c p cyc cl"
  proof (cases "(u, b, k) \<in> T")
    case False
    with \<open>(u, b, k) \<in> insert (t, art, arr) T\<close> have "u = t" "b = art" "k = arr" by simp_all
    with assms(2-4) show ?thesis by blast
  qed (use assms(1) in \<open>unfold tokens_ok_def, blast\<close>)
qed

lemma cnfs_history_ok: "cnfs_history st T \<Longrightarrow> \<exists>I. cnfs_ok st I \<and> tokens_ok st I T"
proof (induction rule: cnfs_history.induct)
  case (start st)
  then show ?case using cnfs_fresh_ok by (auto simp: tokens_ok_def)
next
  case (store st T art cl now arrived t st')
  then obtain I where I: "cnfs_ok st I" "tokens_ok st I T" by blast
  from cnfs_store_ok [OF I(1) store(2) refl, of arrived] store(3) obtain c p cyc where s:
    "c < length (cycbufftab st')" "t = CNFSMakeToken (cb_name (cycbufftab st' ! c)) p (cb_blksz (cycbufftab st' ! c)) cyc cl"
    "cnfs_ok st' (I(c := insert (p, cyc, (art, if arrived = 0 then now else arrived, cl)) (I c)))"
    "map cb_name (cycbufftab st') = map cb_name (cycbufftab st)" "map cb_blksz (cycbufftab st') = map cb_blksz (cycbufftab st)"
    by auto
  let ?I = "I(c := insert (p, cyc, (art, if arrived = 0 then now else arrived, cl)) (I c))"
  have "tokens_ok st' ?I T" by (rule tokens_ok_mono [OF I(2) s(4,5)]) auto
  moreover have "t = token_of st' c p cyc cl" using s(1,2) by (simp add: token_of_def)
  ultimately have "tokens_ok st' ?I (insert (t, art, if arrived = 0 then now else arrived) T)"
    by (intro tokens_ok_insert [OF _ s(1)]) simp_all
  with s(3) show ?case by blast
next
  case (cancel st T t r st')
  then obtain I where I: "cnfs_ok st I" "tokens_ok st I T" by blast
  from cnfs_cancel_ok [OF I(1), of t] cancel(2) have "cnfs_ok st' I" "tokens_ok st' I T"
    using tokens_ok_mono [OF I(2)] by auto
  then show ?case by blast
qed

subsection \<open>The properties\<close>


text \<open>C37: an article that fits is stored: it gets a token that was never given out before, the token brings the article
  back, and once it is cancelled it is gone.\<close>

theorem cnfs_store_retrieve_cancel:
  assumes "cnfs_history st T" "storable art cl now st" "size_accepted conf (length art)"
  shows "\<exists>t st'. cnfs_store art arrived cl now None st = Some (Some t, st') \<and> (\<forall>a. (t, a) \<notin> T)
    \<and> cnfs_retrieve conf t RETR_ALL st'
        = Some (Inr \<lparr>ah_data = Some art, ah_len = length art, ah_arrived = (if arrived = 0 then now else arrived) mod 2 ^ 32\<rparr>, st')
    \<and> (\<exists>st''. cnfs_cancel t st' = Some (None, st'') \<and> cnfs_retrieve conf t RETR_ALL st'' = Some (Inl SMERR_NOENT, st''))"
proof -
  obtain I where I: "cnfs_ok st I" "tokens_ok st I T" using cnfs_history_ok [OF assms(1)] by blast
  define arr where "arr = (if arrived = 0 then now else arrived)"
  have "\<exists>c p cyc st'. c < length (cycbufftab st') \<and> p mod cb_blksz (cycbufftab st' ! c) = 0 \<and> (\<forall>a. (p, cyc, a) \<notin> I c)
    \<and> cnfs_store art arrived cl now None st
        = Some (Some (CNFSMakeToken (cb_name (cycbufftab st' ! c)) p (cb_blksz (cycbufftab st' ! c)) cyc cl), st')
    \<and> cnfs_ok st' (I(c := insert (p, cyc, (art, arr, cl)) (I c))) \<and> used (cycbufftab st' ! c) p \<and> cyc = cyc_of (cycbufftab st' ! c) p
    \<and> p < cb_free (cycbufftab st' ! c)
    \<and> map cb_name (cycbufftab st') = map cb_name (cycbufftab st) \<and> map cb_blksz (cycbufftab st') = map cb_blksz (cycbufftab st)"
    by (rule cnfs_store_ok [OF I(1) assms(2) arr_def])
  then obtain c p cyc st' where s: "c < length (cycbufftab st')" "p mod cb_blksz (cycbufftab st' ! c) = 0" "\<forall>a. (p, cyc, a) \<notin> I c"
    "cnfs_store art arrived cl now None st
        = Some (Some (CNFSMakeToken (cb_name (cycbufftab st' ! c)) p (cb_blksz (cycbufftab st' ! c)) cyc cl), st')"
    "cnfs_ok st' (I(c := insert (p, cyc, (art, arr, cl)) (I c)))" "used (cycbufftab st' ! c) p" "cyc = cyc_of (cycbufftab st' ! c) p"
    "p < cb_free (cycbufftab st' ! c)"
    "map cb_name (cycbufftab st') = map cb_name (cycbufftab st)" "map cb_blksz (cycbufftab st') = map cb_blksz (cycbufftab st)"
    by (elim exE conjE) (rule that)
  define cb where "cb = cycbufftab st' ! c"
  define t where "t = CNFSMakeToken (cb_name cb) p (cb_blksz cb) cyc cl"
  let ?I = "I(c := insert (p, cyc, (art, arr, cl)) (I c))"
  have mem: "(p, cyc, (art, arr, cl)) \<in> ?I c" by simp
  note u = s(6,7) [folded cb_def]
  have "cnfs_retrieve conf t RETR_ALL st' = Some (cut_article art (arr mod 2 ^ 32) RETR_ALL, st')"
    using cnfs_retrieve_given [OF s(5,1) mem _ assms(3) cb_def, of RETR_ALL] u by (simp add: t_def)
  moreover obtain cb' where cb': "cnfs_cancel t st' = Some (None, put_cycbuff c cb' st')" "cb_name cb' = cb_name cb"
    "cb_blksz cb' = cb_blksz cb" "\<not> used cb' p"
    using cnfs_cancel_given [OF s(5,1) mem cb_def u s(8) [folded cb_def]] by (auto simp: t_def)
  define st2 where "st2 = put_cycbuff c cb' st'"
  have c2: "c < length (cycbufftab st2)" "cb' = cycbufftab st2 ! c" using s(1) by (simp_all add: st2_def)
  have "cnfs_ok st2 ?I" using cnfs_cancel_ok [OF s(5), of t] cb'(1) by (simp add: st2_def)
  from cnfs_retrieve_given [OF this c2(1) mem _ assms(3) c2(2), of RETR_ALL] cb'(2-4)
  have "cnfs_retrieve conf t RETR_ALL st2 = Some (Inl SMERR_NOENT, st2)" by (simp add: t_def)
  moreover have "(t, a) \<notin> T" for a
  proof
    assume "(t, a) \<in> T"
    moreover obtain b k where a: "a = (b, k)" by (cases a)
    ultimately obtain d q cyc' cl' where d: "d < length (cycbufftab st)" "(q, cyc', (b, k, cl')) \<in> I d" "t = token_of st d q cyc' cl'"
      using I(2) unfolding tokens_ok_def by blast
    have tb: "tables_ok st" "cyc_ok (cycbufftab st ! d) (I d)" using I(1) d(1) by (simp_all add: cnfs_ok_def)
    then have g: "q div cb_blksz (cycbufftab st ! d) < 2 ^ 32" "q mod cb_blksz (cycbufftab st ! d) = 0"
      using d(2) unfolding cyc_ok_def given_def by blast+
    have "CNFSBreakToken t = (cb_name (cycbufftab st ! d), q div cb_blksz (cycbufftab st ! d), cyc')"
      unfolding d(3) token_of_def using d(1) break_make_token [OF tables_okD(3) [OF tb(1) d(1)] g(1)] by simp
    moreover have tb': "tables_ok st'" "cyc_ok cb (?I c)" using s(1,5) unfolding cnfs_ok_def cb_def by blast+
    then have "p div cb_blksz cb < 2 ^ 32" using mem unfolding cyc_ok_def given_def by blast
    then have "CNFSBreakToken t = (cb_name cb, p div cb_blksz cb, cyc)"
      unfolding t_def cb_def by (intro break_make_token tables_okD(3) [OF tb'(1) s(1)]) 
    ultimately have e: "cb_name (cycbufftab st ! d) = cb_name cb" "q div cb_blksz (cycbufftab st ! d) = p div cb_blksz cb" "cyc' = cyc"
      by simp_all
    have l: "length (cycbufftab st') = length (cycbufftab st)" using s(9) by (metis length_map)
    have "map cb_name (cycbufftab st) ! d = map cb_name (cycbufftab st) ! c"
      using e(1) d(1) s(1,9) l by (metis cb_def nth_map)
    then have "d = c"
      using tb(1) d(1) s(1) l nth_eq_iff_index_eq [of "map cb_name (cycbufftab st)" d c] by (simp add: tables_ok_def)
    moreover have "cb_blksz (cycbufftab st ! c) = cb_blksz cb" using s(1,10) l by (metis cb_def nth_map)
    ultimately have "q = p" using e(2) g(2) s(2) by (metis cb_def div_mult_mod_eq)
    with d(2) e(3) \<open>d = c\<close> s(3) show False by simp
  qed
  ultimately show ?thesis
    using s(4) cb'(1) by (intro exI [of _ t] exI [of _ st']) (simp add: t_def cb_def cut_article_def arr_def st2_def)
qed

text \<open>A storage with one buffer, just set up.\<close>

definition fresh_cycbuff :: cycbuff where
  "fresh_cycbuff =
     \<lparr>cb_name = ''ONE'', cb_path = ''/cycbuffs/one'', cb_len = 131072, cb_free = 16384, cb_updated = 0, cb_cyclenum = 1,
      cb_magicver = 4, cb_bitfield = replicate 1984 0, cb_minartoffset = 16384, cb_needflush = False, cb_blksz = 4096,
      cb_currentbuff = True, cb_metaname = ''BIG'', cb_order = 1, cb_head = \<lparr>x_magic = [], x_name = [], x_path = [], x_lena = [],
      x_freea = [], x_updateda = [], x_cyclenuma = [], x_metaname = [], x_orderinmeta = [], x_currentbuff = [], x_blksza = []\<rparr>,
      cb_file = (\<lambda>_. NUL)\<rparr>"

definition fresh_cnfs :: cnfs where
  "fresh_cnfs =
     \<lparr>cycbufftab = [fresh_cycbuff],
      metacycbufftab = [\<lparr>mc_members = [0], mc_memb_next = 0, mc_write_count = 0, mc_metamode = INTERLEAVE\<rparr>],
      metaexprulestab = [(CHR 0x00, 0)],
      metabuff_update = METACYCBUFF_UPDATE\<rparr>"

lemma geometry_fresh: "geometry fresh_cycbuff"
proof -
  have "min_art_offset 131072 4096 = 16384"
    by (simp add: min_art_offset_def CNFS_BEFOREBITF_def CNFS_HDR_PAGESIZE_def Let_def)
  then show ?thesis
    unfolding geometry_def by (intro conjI exI [of _ 12]) (simp_all add: fresh_cycbuff_def CNFS_BEFOREBITF_def)
qed

lemma cnfs_fresh_example: "cnfs_fresh fresh_cnfs"
  using geometry_fresh
  by (simp add: cnfs_fresh_def fresh_cnfs_def tables_ok_def name_ok_def meta_ok_def)
    (simp add: fresh_cycbuff_def CNFSMAXCYCBUFFNAME_def)

lemma align_free_fresh: "align_free fresh_cycbuff = fresh_cycbuff"
  by (simp add: align_free_def fresh_cycbuff_def Let_def)

lemma storable_example: "storable ''article'' (CHR 0x00) 0 fresh_cnfs"
proof -
  have m: "make_room 0 (length ''article'') 0 fresh_cnfs = Some (0, fresh_cnfs)"
    using align_free_fresh by (simp add: make_room_def fresh_cnfs_def Let_def room_left_def put_cycbuff_def)
      (simp add: fresh_cycbuff_def)
  have f: "find_rule (CHR 0x00) fresh_cnfs = Some 0" by (simp add: find_rule_def fresh_cnfs_def)
  show ?thesis
    unfolding storable_def f option.case Let_def m prod.case
    by (simp add: fresh_cnfs_def) (simp add: fresh_cycbuff_def room_left_def)
qed

theorem cnfs_store_retrieve_cancel_witness:
  "\<exists>t st'. cnfs_store ''article'' 5 (CHR 0x00) 0 None fresh_cnfs = Some (Some t, st')
    \<and> cnfs_retrieve \<lparr>maxartsize = 1000000, cnfscheckfudgesize = 0\<rparr> t RETR_ALL st'
        = Some (Inr \<lparr>ah_data = Some ''article'', ah_len = 7, ah_arrived = 5\<rparr>, st')"
proof -
  have "size_accepted \<lparr>maxartsize = 1000000, cnfscheckfudgesize = 0\<rparr> (length ''article'')" by (simp add: size_accepted_def)
  from cnfs_store_retrieve_cancel [OF cnfs_history.start [OF cnfs_fresh_example] storable_example this, of 5]
  obtain t st' where "cnfs_store ''article'' 5 (CHR 0x00) 0 None fresh_cnfs = Some (Some t, st')"
    "cnfs_retrieve \<lparr>maxartsize = 1000000, cnfscheckfudgesize = 0\<rparr> t RETR_ALL st'
        = Some (Inr \<lparr>ah_data = Some ''article'', ah_len = length ''article'', ah_arrived = (if (5::nat) = 0 then 0 else 5) mod 2 ^ 32\<rparr>, st')"
    by (elim exE conjE) (rule that)
  then show ?thesis by (intro exI [of _ t] exI [of _ st']) simp
qed

lemma store_example: "\<exists>t st'. cnfs_store ''article'' 5 (CHR 0x00) 0 None fresh_cnfs = Some (Some t, st')"
  using cnfs_store_ok [OF cnfs_fresh_ok [OF cnfs_fresh_example] storable_example refl, of 5]
  by (elim exE conjE) (intro exI)


subsection \<open>The header, written and read again\<close>

fun hex_digits :: "nat \<Rightarrow> nat list" where
  "hex_digits n = (if n < 16 then [n] else hex_digits (n div 16) @ [n mod 16])"

declare hex_digits.simps [simp del]

lemma hex_digits_facts:
  "hex_digits n \<noteq> [] \<and> (\<forall>d \<in> set (hex_digits n). d < 16) \<and> hex_number n = map (\<lambda>d. hextbl ! d) (hex_digits n)
    \<and> foldl (\<lambda>a d. a * 16 + d) 0 (hex_digits n) = n"
proof (induction n rule: hex_digits.induct)
  case (1 n)
  show ?case
  proof (cases "n < 16")
    case True
    then show ?thesis by (simp add: hex_digits.simps [of n] hex_number.simps [of n])
  next
    case False
    with 1 show ?thesis by (auto simp: hex_digits.simps [of n] hex_number.simps [of n])
  qed
qed

lemma hex_digits_length: "n < 16 ^ Suc k \<Longrightarrow> length (hex_digits n) \<le> Suc k"
proof (induction k arbitrary: n)
  case (Suc k)
  show ?case
  proof (cases "n < 16")
    case False
    have "n div 16 < 16 ^ Suc k" using Suc.prems by (simp add: less_mult_imp_div_less mult.commute)
    from Suc.IH [OF this] False show ?thesis by (simp add: hex_digits.simps [of n])
  qed (simp add: hex_digits.simps [of n])
qed (simp add: hex_digits.simps)

lemma hextbl_values: "\<forall>d \<in> set [0..<16]. byte (hextbl ! d) = (if d < 10 then 48 + d else 87 + d)"
  by code_simp

lemma hex_digit_cases:
  assumes "d < (16::nat)"
  shows "hex2offt_loop ((hextbl ! d) # hex) n = hex2offt_loop hex (if isalnum (peek hex) then (n + d) * 16 else n + d)"
    "isalnum (hextbl ! d)" "hextbl ! d \<noteq> NUL"
proof -
  have b: "byte (hextbl ! d) = (if d < 10 then 48 + d else 87 + d)" using hextbl_values assms by simp
  then show "hex2offt_loop ((hextbl ! d) # hex) n = hex2offt_loop hex (if isalnum (peek hex) then (n + d) * 16 else n + d)"
    using assms b [unfolded byte_def] by (cases "d < 10") (simp_all add: less_eq_char_def Let_def byte_def)
  show "isalnum (hextbl ! d)" using b assms by (simp add: isalnum_def ctype_defs)
  show "hextbl ! d \<noteq> NUL" using b by (auto split: if_splits)
qed

declare hex2offt_loop.simps(2) [simp del]

lemma hex2offt_digits:
  "\<forall>d \<in> set (d # ds). d < 16 \<Longrightarrow> hex2offt_loop (map (\<lambda>d. hextbl ! d) (d # ds)) n = foldl (\<lambda>a d. a * 16 + d) (n + d) ds"
proof (induction ds arbitrary: d n)
  case Nil
  then show ?case by (simp add: hex_digit_cases peek_def isalnum_def isalpha_def isdigit_def less_eq_char_def)
next
  case (Cons e ds)
  have "hex2offt_loop (map (\<lambda>d. hextbl ! d) (d # e # ds)) n = hex2offt_loop (map (\<lambda>d. hextbl ! d) (e # ds)) ((n + d) * 16)"
    using Cons.prems by (simp add: hex_digit_cases peek_def)
  with Cons show ?case by simp
qed

lemma hex_field:
  assumes "n < 16 ^ 16"
  shows "CNFShex2offt (field_text (strncpy CNFSLASIZ (CNFSofft2hex n True))) = n"
proof -
  note f = hex_digits_facts [of n]
  define ds where "ds = replicate (16 - length (hex_digits n)) 0 @ hex_digits n"
  have l: "length ds = 16" using hex_digits_length [of n 15] assms by (simp add: ds_def)
  have z: "hextbl ! 0 = CHR ''0''" by (simp add: hextbl_def)
  have d16: "\<forall>d \<in> set ds. d < 16" using f by (auto simp: ds_def)
  have "CNFSofft2hex n True = map (\<lambda>d. hextbl ! d) ds"
    using f by (simp add: CNFSofft2hex_def ds_def z [symmetric] Let_def)
  moreover have "takeWhile (\<lambda>c. c \<noteq> NUL) (map (\<lambda>d. hextbl ! d) ds) = map (\<lambda>d. hextbl ! d) ds"
    using d16 hex_digit_cases(3) by (auto simp: takeWhile_eq_all_conv)
  ultimately have "field_text (strncpy CNFSLASIZ (CNFSofft2hex n True)) = map (\<lambda>d. hextbl ! d) ds"
    using l by (simp add: field_text_def strncpy_def CNFSLASIZ_def)
  moreover obtain e es where ds: "ds = e # es" using l by (cases ds) auto
  have "hex2offt_loop (map (\<lambda>d. hextbl ! d) ds) 0 = foldl (\<lambda>a d. a * 16 + d) 0 ds"
    using hex2offt_digits [of e es 0] d16 unfolding ds by simp
  moreover have "foldl (\<lambda>a d. a * 16 + d) 0 (replicate k 0 @ xs) = foldl (\<lambda>a d. a * 16 + d) (0::nat) xs" for k xs
    by (induction k) simp_all
  ultimately show ?thesis using f by (simp add: CNFShex2offt_def ds_def)
qed

lemma cstring_strncpy:
  assumes "NUL \<notin> set s" "length s < n"
  shows "cstring (strncpy n s) = s"
proof -
  have "takeWhile (\<lambda>c. c \<noteq> NUL) s = s" using assms(1) by (auto simp: takeWhile_eq_all_conv)
  moreover have "takeWhile (\<lambda>c. c \<noteq> NUL) (s @ replicate (n - length s) NUL) = s @ takeWhile (\<lambda>c. c \<noteq> NUL) (replicate (n - length s) NUL)"
    using assms(1) by (intro takeWhile_append2) auto
  ultimately show ?thesis using assms(2) by (simp add: cstring_def strncpy_def)
qed

text \<open>The values of a buffer fit in the fields of its header.\<close>

definition header_fits :: "cycbuff \<Rightarrow> bool" where
  "header_fits cb \<longleftrightarrow> name_ok (cb_name cb) \<and> NUL \<notin> set (cb_metaname cb) \<and> length (cb_metaname cb) < CNFSNASIZ
     \<and> cb_len cb < 16 ^ 16 \<and> cb_free cb < 16 ^ 16 \<and> cb_order cb < 16 ^ 16"

text \<open>C38: a buffer whose header is written and which is then opened again, whatever the fields were set to meanwhile, has
  the values it had: the place where it continues to write, the cycle, the block size and its role among its buffers.\<close>

theorem cnfs_restart_restores_buffer:
  assumes "geometry cb" "cb_magicver cb = 4" "cb_needflush cb" "cb_free cb \<noteq> 0" "header_fits cb" "now < 16 ^ 16"
    and fl: "CNFSflushhead now cb = (True, cb')"
  shows "CNFSinit_disks now' (cb'\<lparr>cb_free := f, cb_updated := u, cb_cyclenum := y, cb_magicver := v, cb_minartoffset := m,
       cb_blksz := b, cb_currentbuff := current, cb_metaname := mn, cb_order := ord\<rparr>) = Some cb'"
proof -
  obtain k where k: "9 \<le> k" "k \<le> 14" "cb_blksz cb = 2 ^ k"
    and ma: "cb_minartoffset cb = min_art_offset (cb_len cb) (cb_blksz cb)"
    using assms(1) by (auto simp: geometry_def)
  have "(2::nat) ^ 9 \<le> 2 ^ k" "(2::nat) ^ k \<le> 2 ^ 14" "(2::nat) ^ k = 2 * 2 ^ (k - 1)"
    using power_increasing [OF k(1), of "2::nat"] power_increasing [OF k(2), of "2::nat"] k(1) by (simp_all add: power_eq_if [of 2 k])
  then have b: "512 \<le> cb_blksz cb" "cb_blksz cb \<le> CNFS_MAX_BLOCKSIZE" "2 * (cb_blksz cb div 2) = cb_blksz cb" "cb_blksz cb < 16 ^ 16"
    unfolding k(3) CNFS_MAX_BLOCKSIZE_def by simp_all
  have "unat (cb_cyclenum cb) < 2 ^ 32" using unsigned_less [of "cb_cyclenum cb"] by simp
  then have c: "unat (cb_cyclenum cb) < 16 ^ 16" by simp
  note h = hex_field [OF b(4)] hex_field [OF c] hex_field [OF assms(6)]
  have nm: "cstring (strncpy CNFSNASIZ (cb_name cb)) = cb_name cb" "cstring (cb_name cb) = cb_name cb"
    "cstring (strncpy CNFSNASIZ (cb_metaname cb)) = cb_metaname cb"
    using assms(5) cstring_strncpy [of "cb_name cb" CNFSNASIZ] cstring_strncpy [of "cb_metaname cb" CNFSNASIZ]
    by (simp_all add: header_fits_def name_ok_def CNFSMAXCYCBUFFNAME_def CNFSNASIZ_def cstring_def takeWhile_eq_all_conv)
  have h2: "cb_len cb < 16 ^ 16" "cb_free cb < 16 ^ 16" "cb_order cb < 16 ^ 16" using assms(5) by (simp_all add: header_fits_def)
  note h2 = hex_field [OF h2(1)] hex_field [OF h2(2)] hex_field [OF h2(3)]
  have mg: "same_prefix 5 (strncpy CNFSMASIZ ''CBuf4'') ''CBuf4''" "\<not> same_prefix 5 (strncpy CNFSMASIZ ''CBuf4'') ''CBuf3''"
    "same_prefix CNFSMASIZ (strncpy CNFSMASIZ ''TRUE'') ''TRUE''" "\<not> same_prefix CNFSMASIZ (strncpy CNFSMASIZ ''FALSE'') ''TRUE''"
    by (simp_all add: same_prefix_def strncpy_def cstring_def CNFSMASIZ_def)
  have cb': "cb' = snd (CNFSflushhead now cb)" using fl by simp
  show ?thesis
    unfolding cb' using assms(2-4) h h2 mg nm b ma
    by (cases cb) (auto simp: CNFSflushhead_def CNFSinit_disks_def read_head_def CNFSReadFreeAndCycle_def Let_def same_prefix_def)
qed

theorem cnfs_restart_restores_buffer_witness:
  "\<exists>cb'. CNFSflushhead 1000 (fresh_cycbuff\<lparr>cb_needflush := True\<rparr>) = (True, cb') \<and> cb_free cb' = 16384
    \<and> CNFSinit_disks 2000 (cb'\<lparr>cb_free := 0, cb_updated := 0, cb_cyclenum := 0, cb_magicver := 0, cb_minartoffset := 0,
       cb_blksz := 0, cb_currentbuff := False, cb_metaname := [], cb_order := 0\<rparr>) = Some cb'"
proof -
  let ?cb = "fresh_cycbuff\<lparr>cb_needflush := True\<rparr>"
  have g: "geometry ?cb" using geometry_fresh by (simp add: geometry_def)
  have h: "header_fits ?cb"
    by (simp add: header_fits_def name_ok_def fresh_cycbuff_def CNFSMAXCYCBUFFNAME_def CNFSNASIZ_def)
  obtain cb' where c: "CNFSflushhead 1000 ?cb = (True, cb')" "cb_free cb' = 16384"
    by (simp add: CNFSflushhead_def fresh_cycbuff_def Let_def)
  have m: "cb_magicver ?cb = 4" "cb_needflush ?cb" "cb_free ?cb \<noteq> 0" "(1000::nat) < 16 ^ 16" by (simp_all add: fresh_cycbuff_def)
  from cnfs_restart_restores_buffer [OF g m(1-3) h m(4) c(1)] c show ?thesis by blast
qed

end
