(* ===== verification/Spec2Isabelle.thy ===== *)
theory Spec2Isabelle
  imports Wildmat Wire Encode Md5 MessageId Headers MapADT Tst Hashtab Tombstone Dates Vector Buffer Overdata Wip Cnfs
begin

text \<open>
  A verification library for the news server INN.

  \<^bold>\<open>The program.\<close> INN is a set of C programs around common libraries. The daemon
  \<^verbatim>\<open>innd\<close> takes articles from its peers over NNTP channels: it looks a message identifier up in the history and
  among the articles in progress, reads the article, checks and rewrites its header fields, stores it through the
  storage manager (\<^verbatim>\<open>storage/\<close>), which answers with a token, and hands an overview line to the overview
  method. Readers get articles and overview back by token and by number. Nightly expiry removes articles and tells the
  storage about cancelled ones with tombstone files. All of this rests on \<^verbatim>\<open>lib/\<close>: matching of
  newsgroup patterns, wire format, message identifiers, dates, hashes, dictionaries, vectors and buffers.

  \<^bold>\<open>How the code is modelled.\<close> A C string is the list of its octets without the nul, a pointer into it the
  suffix or the index it stands at; memory that is sized and written in place (buffers, vectors, bit fields, tables of
  slots) is a list with its size, and every access outside of it is the result \<open>None\<close>, as is a loop that would not
  end. So a theorem whose conclusion is \<open>Some\<close> says in particular that the code stays inside its memory and
  returns. Machine words keep their width where they can wrap. System calls are arguments: what they return, how much they
  read or write, what the clock says. Where the code frees and reuses memory behind shared pointers (articles in
  progress), there is an explicit heap.

  \<^bold>\<open>The theories.\<close>
  \<^item> \<^verbatim>\<open>Inn_Prelude\<close>: octets, character classes of the C locale, decimal numbers, string primitives, the
    collections \<open>ctype\<close> and \<open>inv_intros\<close>.
  \<^item> \<^verbatim>\<open>Wildmat\<close> (\<^verbatim>\<open>lib/uwildmat.c\<close>): the matcher of UTF-8 patterns. It decides a declarative
    relation between texts and patterns, and in an expression the last matching pattern decides.
  \<^item> \<^verbatim>\<open>Wire\<close> (\<^verbatim>\<open>lib/wire.c\<close>): articles on the wire. Conversion to wire format and back is the
    identity, the terminator comes only at the end, body and header fields are found where they are.
  \<^item> \<^verbatim>\<open>Encode\<close> (\<^verbatim>\<open>lib/hex.c, hash.c, radix32.c, artnumber.c, sequence.c\<close>, tokens of
    \<^verbatim>\<open>storage/interface.c\<close>): textual encodings; the texts of hashes and of tokens share the contract
    \<open>text_codec\<close>, which both interpret.
  \<^item> \<^verbatim>\<open>Md5\<close> (\<^verbatim>\<open>lib/md5.c\<close>, \<^verbatim>\<open>HashMessageID\<close>): the digest
    equals a definition written after RFC 1321, however the message is cut into updates.
  \<^item> \<^verbatim>\<open>MessageId\<close>, \<^verbatim>\<open>Headers\<close>: the validators decide grammars written as sets or
    inductive predicates; generated identifiers are valid and differ; the clean-up of addresses
    (\<^verbatim>\<open>lib/cleanfrom.c\<close>).
  \<^item> \<^verbatim>\<open>MapADT\<close>, \<^verbatim>\<open>Tst\<close>, \<^verbatim>\<open>Hashtab\<close>: the contract of a dictionary
    and its provider \<^verbatim>\<open>lib/tst.c\<close>; the open-addressing table of \<^verbatim>\<open>lib/hashtab.c\<close> with its
    invariant, proved once for all callbacks in the locale \<open>hash_callbacks\<close>.
  \<^item> \<^verbatim>\<open>Tombstone\<close> (\<^verbatim>\<open>storage/tombstone.c\<close>): interprets \<open>hash_callbacks\<close> on its own
    callbacks; reading back what was written; inserting the header in place.
  \<^item> \<^verbatim>\<open>Dates\<close> (\<^verbatim>\<open>lib/date.c\<close>): the calendar, writing dates, the strict and the lax parser.
  \<^item> \<^verbatim>\<open>Vector\<close>, \<^verbatim>\<open>Buffer\<close> (\<^verbatim>\<open>lib/vector.c, lib/buffer.c\<close>): splitting and joining;
    buffers refine their contents and stay inside their allocation.
  \<^item> \<^verbatim>\<open>Overdata\<close> (\<^verbatim>\<open>storage/overdata.c\<close>): the overview line of an article, built over
    \<open>Wire\<close>, \<open>Buffer\<close> and \<open>Vector\<close>, passes the check of the overview and is taken apart again.
  \<^item> \<^verbatim>\<open>Cnfs\<close> (\<^verbatim>\<open>storage/cnfs/cnfs.c\<close>): the cyclic buffers. The invariant relates the bit
    field and the file to the articles given out so far; a token never brings back another article.
  \<^item> \<^verbatim>\<open>Wip\<close> (\<^verbatim>\<open>innd/wip.c\<close> and its callers in \<^verbatim>\<open>nc.c\<close>, \<^verbatim>\<open>chan.c\<close>):
    articles in progress over an explicit heap; a transition system of commands with its invariant, refined to the set of
    articles in progress.

  \<^bold>\<open>Bounds and fuel.\<close> No definition runs on fuel: loops are structural recursions or have a measure. Where
  a C loop need not end, the result is \<open>None\<close> once it has come around (the probing of a hash table visits each slot
  at most once; a block size of zero in \<open>Cnfs\<close>). Bounds that a caller has to keep are named hypotheses, for instance
  \<open>storable\<close> and \<open>geometry\<close> in \<open>Cnfs\<close>.

  \<^bold>\<open>Not modelled.\<close> The event loops and sockets of the daemons and feeders, embedded interpreters, TLS and SASL,
  the methods over SQLite and Berkeley DB and the command-line programs are input and output or calls into other software.
  The article parser of \<^verbatim>\<open>innd/art.c\<close>, the history (\<^verbatim>\<open>hisv6.c\<close>, \<^verbatim>\<open>dbz.c\<close>), the
  other storage and overview methods, configuration files and the rules of expiry are the next parts of the plan, in this order.
\<close>

end
